(* ===== verification/Elpis_Base.thy ===== *)
theory Elpis_Base
  imports Main "HOL-Library.Word" "HOL-Library.Sublist"
begin

unbundle bit_operations_syntax

text \<open>
  The prelude of the development: machine integers, return codes, drop reasons, the outcome of a
  C function, and checked access to byte buffers.

  A C buffer of known length is a list of bytes.  Every read of the source is a \<open>fetch\<close> or a
  \<open>fetch_bytes\<close>, which answers \<open>Fault\<close> when it would leave the buffer, so that the absence
  of \<open>Fault\<close> is memory safety of the reads.  A function that returns an error code returns
  \<open>Err\<close>; what it reports through a \<open>*drop\<close> pointer is part of that error.
\<close>

section \<open>Machine integers\<close>

type_synonym byte = "8 word"
type_synonym u16 = "16 word"
type_synonym u32 = "32 word"
type_synonym u64 = "64 word"
type_synonym buffer = "8 word list"

text \<open>The conversion \<open>(uint8_t)x\<close> of an unsigned value.\<close>

definition u8 :: "nat \<Rightarrow> nat" where
  "u8 x = x mod 256"

section \<open>Return codes and drop reasons\<close>

datatype elpis_rc =
    ELPIS_OK | ELPIS_ERR | ELPIS_ENOMEM | ELPIS_EFORMAT | ELPIS_ETRUNC | ELPIS_ETIMEOUT
  | ELPIS_EAGAIN | ELPIS_ENOTFOUND | ELPIS_ELOOP | ELPIS_EREFUSED | ELPIS_EBOGUS

datatype elpis_drop =
    DROP_NONE | DROP_SHORT | DROP_QR_SET | DROP_OPCODE | DROP_QDCOUNT | DROP_NAME
  | DROP_COMPRESS | DROP_TRAILING | DROP_RDLEN | DROP_RDATA | DROP_CLASS | DROP_EDNS
  | DROP_TSIG | DROP_MULTI_OPT | DROP_SPOOF | DROP_ACL | DROP_RATELIMIT | DROP_OVERSIZE
  | DROP_LOOP | DROP_RESOURCE | DROP_SENDFAIL

section \<open>Outcomes\<close>

datatype ('e, 'a) outcome = Ok 'a | Err 'e | Fault

definition obind :: "('e, 'a) outcome \<Rightarrow> ('a \<Rightarrow> ('e, 'b) outcome) \<Rightarrow> ('e, 'b) outcome" where
  "obind m f = (case m of Ok a \<Rightarrow> f a | Err e \<Rightarrow> Err e | Fault \<Rightarrow> Fault)"

text \<open>Replacing the error of a callee, as \<open>if (f(...) != ELPIS_OK) return E;\<close> does.\<close>

definition on_err :: "('e \<Rightarrow> 'f) \<Rightarrow> ('e, 'a) outcome \<Rightarrow> ('f, 'a) outcome" where
  "on_err g m = (case m of Ok a \<Rightarrow> Ok a | Err e \<Rightarrow> Err (g e) | Fault \<Rightarrow> Fault)"

definition is_Ok :: "('e, 'a) outcome \<Rightarrow> bool" where
  "is_Ok m = (case m of Ok _ \<Rightarrow> True | _ \<Rightarrow> False)"

lemma obind_simps [simp]:
  "obind (Ok a) f = f a"
  "obind (Err e) f = Err e"
  "obind Fault f = Fault"
  by (simp_all add: obind_def)

lemma on_err_simps [simp]:
  "on_err g (Ok a) = Ok a"
  "on_err g (Err e) = Err (g e)"
  "on_err g Fault = Fault"
  by (simp_all add: on_err_def)

lemma is_Ok_simps [simp]:
  "is_Ok (Ok a)" "\<not> is_Ok (Err e)" "\<not> is_Ok Fault"
  by (simp_all add: is_Ok_def)

lemma obind_cong [fundef_cong]:
  "m = n \<Longrightarrow> (\<And>a. n = Ok a \<Longrightarrow> f a = g a) \<Longrightarrow> obind m f = obind n g"
  by (cases n) (auto simp: obind_def)

lemma obind_eq_Ok [simp]: "obind m f = Ok b \<longleftrightarrow> (\<exists>a. m = Ok a \<and> f a = Ok b)"
  by (cases m) auto

lemma obind_eq_Fault: "obind m f = Fault \<longleftrightarrow> m = Fault \<or> (\<exists>a. m = Ok a \<and> f a = Fault)"
  by (cases m) auto

lemma on_err_eq_Ok [simp]: "on_err g m = Ok a \<longleftrightarrow> m = Ok a"
  by (cases m) auto

lemma on_err_eq_Fault [simp]: "on_err g m = Fault \<longleftrightarrow> m = Fault"
  by (cases m) auto

section \<open>Buffers\<close>

definition fetch :: "buffer \<Rightarrow> nat \<Rightarrow> ('e, byte) outcome" where
  "fetch b i = (if i < length b then Ok (b ! i) else Fault)"

definition fetch_bytes :: "buffer \<Rightarrow> nat \<Rightarrow> nat \<Rightarrow> ('e, buffer) outcome" where
  "fetch_bytes b i n = (if i + n \<le> length b then Ok (take n (drop i b)) else Fault)"

definition elpis_get16 :: "buffer \<Rightarrow> nat \<Rightarrow> ('e, u16) outcome" where
  "elpis_get16 b i =
     obind (fetch b i) (\<lambda>h. obind (fetch b (i + 1)) (\<lambda>l.
       Ok (push_bit 8 (ucast h) OR ucast l)))"

definition elpis_get32 :: "buffer \<Rightarrow> nat \<Rightarrow> ('e, u32) outcome" where
  "elpis_get32 b i =
     obind (fetch b i) (\<lambda>p0. obind (fetch b (i + 1)) (\<lambda>p1.
     obind (fetch b (i + 2)) (\<lambda>p2. obind (fetch b (i + 3)) (\<lambda>p3.
       Ok (push_bit 24 (ucast p0) OR push_bit 16 (ucast p1) OR
           push_bit 8 (ucast p2) OR ucast p3)))))"

definition elpis_put16 :: "u16 \<Rightarrow> buffer" where
  "elpis_put16 v = [ucast (drop_bit 8 v), ucast v]"

definition elpis_put32 :: "u32 \<Rightarrow> buffer" where
  "elpis_put32 v =
     [ucast (drop_bit 24 v), ucast (drop_bit 16 v), ucast (drop_bit 8 v), ucast v]"

text \<open>\<open>memcpy\<close> into a buffer at an offset: the bytes there are replaced, the size is kept.\<close>

definition overwrite :: "buffer \<Rightarrow> nat \<Rightarrow> buffer \<Rightarrow> buffer" where
  "overwrite b i p = take i b @ p @ drop (i + length p) b"

lemma fetch_ok [simp]: "i < length b \<Longrightarrow> fetch b i = Ok (b ! i)"
  by (simp add: fetch_def)

lemma fetch_eq_Ok: "fetch b i = Ok x \<longleftrightarrow> i < length b \<and> x = b ! i"
  by (auto simp: fetch_def)

lemma fetch_bytes_ok [simp]: "i + n \<le> length b \<Longrightarrow> fetch_bytes b i n = Ok (take n (drop i b))"
  by (simp add: fetch_bytes_def)

lemma length_put16 [simp]: "length (elpis_put16 v) = 2"
  by (simp add: elpis_put16_def)

lemma length_put32 [simp]: "length (elpis_put32 v) = 4"
  by (simp add: elpis_put32_def)

lemma length_overwrite [simp]: "i + length p \<le> length b \<Longrightarrow> length (overwrite b i p) = length b"
  by (simp add: overwrite_def)

lemma take_overwrite [simp]: "i + length p \<le> length b \<Longrightarrow>
    take (i + length p) (overwrite b i p) = take i b @ p"
  by (simp add: overwrite_def)

lemma take_overwrite_le: "j \<le> i \<Longrightarrow> i \<le> length b \<Longrightarrow> take j (overwrite b i p) = take j b"
  by (simp add: overwrite_def min_def)

lemma nth_overwrite:
  "i + length p \<le> length b \<Longrightarrow> j < length b \<Longrightarrow>
     overwrite b i p ! j = (if i \<le> j \<and> j < i + length p then p ! (j - i) else b ! j)"
  by (auto simp: overwrite_def nth_append min_def)

lemma get16_not_Fault: "i + 2 \<le> length b \<Longrightarrow> elpis_get16 b i \<noteq> Fault"
  by (simp add: elpis_get16_def)

lemma get16_ok_ex: "i + 2 \<le> length b \<Longrightarrow> \<exists>v. elpis_get16 b i = Ok v"
  by (simp add: elpis_get16_def)

lemma get32_ok_ex: "i + 4 \<le> length b \<Longrightarrow> \<exists>v. elpis_get32 b i = Ok v"
  by (simp add: elpis_get32_def)

section \<open>Facts on bytes and words\<close>

text \<open>A property of all bytes is checked on the 256 of them.\<close>

lemma all_byte: "list_all (\<lambda>n. P (word_of_nat n)) [0..<256] \<Longrightarrow> P (c :: byte)"
proof -
  assume "list_all (\<lambda>n. P (word_of_nat n :: byte)) [0..<256]"
  moreover have "unat c < 256" using unsigned_less [of c] by simp
  ultimately have "P (word_of_nat (unat c))" unfolding list_all_iff by (metis atLeastLessThan_iff atLeast_upt lessThan_iff)
  then show "P c" by simp
qed

lemma unat_byte_less: "unat (c :: byte) < 256"
  using unsigned_less [of c] by simp

lemma unat_u16_less: "unat (c :: u16) < 65536"
  using unsigned_less [of c] by simp

lemma unat_of_nat_byte [simp]: "n < 256 \<Longrightarrow> unat (word_of_nat n :: byte) = n"
  by (simp add: unat_of_nat)

text \<open>The two top bits of a length octet.\<close>

lemma and_C0_zero [simp]: "(c AND 0xC0 = 0) \<longleftrightarrow> unat (c :: byte) < 64"
  by (rule all_byte) code_simp

lemma and_C0_C0 [simp]: "(c AND 0xC0 = 0xC0) \<longleftrightarrow> 192 \<le> unat (c :: byte)"
  by (rule all_byte) code_simp

lemma join16: "push_bit 8 (ucast (ucast (drop_bit 8 v) :: byte)) OR ucast (ucast v :: byte) = (v :: u16)"
  by (rule bit_word_eqI) (auto simp: bit_simps)

lemma join32:
  "push_bit 24 (ucast (ucast (drop_bit 24 v) :: byte)) OR
   push_bit 16 (ucast (ucast (drop_bit 16 v) :: byte)) OR
   push_bit 8 (ucast (ucast (drop_bit 8 v) :: byte)) OR ucast (ucast v :: byte) = (v :: u32)"
  (is "?l = v")
proof (rule bit_word_eqI)
  fix n assume "n < LENGTH(32)"
  then show "bit ?l n = bit v n"
    by (cases "n < 8"; cases "n < 16"; cases "n < 24") (auto simp: bit_simps)
qed

lemma unat_join16:
  "unat (push_bit 8 (ucast (h :: byte)) OR ucast (l :: byte) :: u16) = 256 * unat h + unat l"
proof -
  have "push_bit 8 (ucast h) OR ucast l = (push_bit 8 (ucast h) + ucast l :: u16)"
    by (rule disjunctive_add [symmetric]) (auto simp: bit_simps dest: bit_imp_le_length)
  moreover have "unat (push_bit 8 (ucast h) :: u16) = 256 * unat h"
    using unat_byte_less [of h]
    by (simp add: push_bit_eq_mult unat_word_ariths unsigned_ucast_eq take_bit_eq_mod)
  ultimately show ?thesis
    using unat_byte_less [of h] unat_byte_less [of l]
    by (simp add: unat_word_ariths unsigned_ucast_eq take_bit_eq_mod)
qed

section \<open>Reading back what was written\<close>

lemma nth_take_drop: "take n (drop i b) = p \<Longrightarrow> k < n \<Longrightarrow> i + n \<le> length b \<Longrightarrow> b ! (i + k) = p ! k"
  by (auto simp: add.commute)

lemma get16_put16:
  assumes "i + 2 \<le> length b" and "take 2 (drop i b) = elpis_put16 v"
  shows "elpis_get16 b i = Ok v"
  using nth_take_drop [OF assms(2), of 0] nth_take_drop [OF assms(2), of 1] assms(1)
  by (simp add: elpis_get16_def elpis_put16_def join16)

lemma get32_put32:
  assumes "i + 4 \<le> length b" and "take 4 (drop i b) = elpis_put32 v"
  shows "elpis_get32 b i = Ok v"
  using nth_take_drop [OF assms(2), of 0] nth_take_drop [OF assms(2), of 1]
    nth_take_drop [OF assms(2), of 2] nth_take_drop [OF assms(2), of 3] assms(1)
  by (simp add: elpis_get32_def elpis_put32_def join32)

end
