(* ===== verification/Elpis_Simd.thy ===== *)
theory Elpis_Simd
  imports Elpis_Base
begin

unbundle bit_operations_syntax

text \<open>
  The case-folding kernels of \<open>include/elpis/simd.h\<close>, \<open>src/simd/simd.c\<close> and
  \<open>src/simd/simd_sse2.c\<close>: ASCII lowercasing, case-insensitive comparison and the case-folding
  64-bit hash, in their scalar (SWAR) and SSE2 forms, and the control-word probes of the cache.
  The word loads are little-endian, as on the hosts the vector kernels are built for.  Each SSE2
  intrinsic is its lane-wise meaning.

  The theory shows that every kernel computes its byte-at-a-time definition, so that the rest of
  the development may use \<open>lower_byte\<close> pointwise.
\<close>

section \<open>Definitions\<close>

subsection \<open>Byte loads and stores\<close>

fun le_word :: "buffer \<Rightarrow> u64" where
  "le_word [] = 0"
| "le_word (b # bs) = ucast b OR push_bit 8 (le_word bs)"

definition elpis_load64 :: "buffer \<Rightarrow> u64" where
  "elpis_load64 p = le_word (take 8 p)"

definition elpis_load32 :: "buffer \<Rightarrow> u32" where
  "elpis_load32 p = ucast (le_word (take 4 p))"

definition store64 :: "u64 \<Rightarrow> buffer" where
  "store64 w = map (\<lambda>k. ucast (drop_bit (8 * k) w)) [0..<8]"

subsection \<open>Lowercasing\<close>

text \<open>The byte loop: \<open>(c >= 'A' && c <= 'Z') ? c + 32 : c\<close>.\<close>

definition lower_byte :: "byte \<Rightarrow> byte" where
  "lower_byte c = (if 0x41 \<le> c \<and> c \<le> 0x5A then c + 32 else c)"

definition elpis_swar_lower64 :: "u64 \<Rightarrow> u64" where
  "elpis_swar_lower64 x =
     (let lo = x AND 0x7f7f7f7f7f7f7f7f;
          hi = x AND 0x8080808080808080;
          ge = (lo + 0x3f3f3f3f3f3f3f3f) AND 0x8080808080808080;
          gt = (lo + 0x2525252525252525) AND 0x8080808080808080;
          m = ge AND NOT gt AND NOT hi
      in x OR drop_bit 2 m)"

function elpis_scalar_lower :: "buffer \<Rightarrow> buffer" where
  "elpis_scalar_lower src =
     (if 8 \<le> length src
      then store64 (elpis_swar_lower64 (elpis_load64 src)) @ elpis_scalar_lower (drop 8 src)
      else map lower_byte src)"
  by pat_completeness auto
termination
  by (relation "measure length") auto

text \<open>
  One lane of \<open>elpis_sse2_lower16\<close>: \<open>_mm_cmpgt_epi8\<close> and \<open>_mm_cmplt_epi8\<close> compare signed
  bytes and answer all ones or all zeros.
\<close>

definition sse2_lower_lane :: "byte \<Rightarrow> byte" where
  "sse2_lower_lane v =
     (let ge = (if sint (0x40 :: byte) < sint v then 0xFF else 0);
          le = (if sint v < sint (0x5B :: byte) then 0xFF else 0);
          m = ge AND le AND 0x20
      in v OR m)"

definition elpis_sse2_lower16 :: "buffer \<Rightarrow> buffer" where
  "elpis_sse2_lower16 v = map sse2_lower_lane v"

function elpis_sse2_lower :: "buffer \<Rightarrow> buffer" where
  "elpis_sse2_lower src =
     (if 16 \<le> length src
      then elpis_sse2_lower16 (take 16 src) @ elpis_sse2_lower (drop 16 src)
      else elpis_scalar_lower src)"
  by pat_completeness auto
termination
  by (relation "measure length") auto

text \<open>\<open>elpis_lower_pad16\<close>: whole 16-byte blocks, \<open>n\<close> a multiple of 16.\<close>

function elpis_lower_pad16 :: "buffer \<Rightarrow> buffer" where
  "elpis_lower_pad16 src =
     (if src = [] then []
      else elpis_sse2_lower16 (take 16 src) @ elpis_lower_pad16 (drop 16 src))"
  by pat_completeness auto
termination
  by (relation "measure length") auto

subsection \<open>Case-insensitive comparison\<close>

text \<open>The first \<open>n\<close> bytes of two buffers that hold at least \<open>n\<close>.\<close>

function elpis_scalar_eq_ci :: "buffer \<Rightarrow> buffer \<Rightarrow> nat \<Rightarrow> bool" where
  "elpis_scalar_eq_ci a b n =
     (if 8 \<le> n
      then (if elpis_swar_lower64 (elpis_load64 a) \<noteq> elpis_swar_lower64 (elpis_load64 b)
            then False else elpis_scalar_eq_ci (drop 8 a) (drop 8 b) (n - 8))
      else list_all (\<lambda>i. lower_byte (a ! i) = lower_byte (b ! i)) [0..<n])"
  by pat_completeness auto
termination
  by (relation "measure (\<lambda>(a, b, n). n)") auto

function elpis_eq_ci :: "buffer \<Rightarrow> buffer \<Rightarrow> nat \<Rightarrow> bool" where
  "elpis_eq_ci a b n =
     (if 16 \<le> n
      then (if elpis_sse2_lower16 (take 16 a) \<noteq> elpis_sse2_lower16 (take 16 b)
            then False else elpis_eq_ci (drop 16 a) (drop 16 b) (n - 16))
      else elpis_scalar_eq_ci a b n)"
  by pat_completeness auto
termination
  by (relation "measure (\<lambda>(a, b, n). n)") auto

function elpis_sse2_eq_ci :: "buffer \<Rightarrow> buffer \<Rightarrow> nat \<Rightarrow> bool" where
  "elpis_sse2_eq_ci a b n =
     (if 32 \<le> n
      then let a0 = elpis_sse2_lower16 (take 16 a);
               b0 = elpis_sse2_lower16 (take 16 b);
               a1 = elpis_sse2_lower16 (take 16 (drop 16 a));
               b1 = elpis_sse2_lower16 (take 16 (drop 16 b));
               d = map2 (OR) (map2 (XOR) a0 b0) (map2 (XOR) a1 b1)
           in if \<not> list_all (\<lambda>x. x = 0) d then False
              else elpis_sse2_eq_ci (drop 32 a) (drop 32 b) (n - 32)
      else elpis_eq_ci a b n)"
  by pat_completeness auto
termination
  by (relation "measure (\<lambda>(a, b, n). n)") auto

subsection \<open>The hash\<close>

definition HK0 :: u64 where "HK0 = 0xa0761d6478bd642f"
definition HK1 :: u64 where "HK1 = 0xe7037ed1a0b428db"
definition HK2 :: u64 where "HK2 = 0x8ebc6af09c88c6e3"
definition HK3 :: u64 where "HK3 = 0x589965cc75374cc3"

definition elpis_mix64 :: "u64 \<Rightarrow> u64" where
  "elpis_mix64 x0 =
     (let x1 = x0 XOR drop_bit 33 x0;
          x2 = x1 * 0xff51afd7ed558ccd;
          x3 = x2 XOR drop_bit 33 x2;
          x4 = x3 * 0xc4ceb9fe1a85ec53
      in x4 XOR drop_bit 33 x4)"

text \<open>The 128-bit product folded to 64 bits, with and without a 128-bit type.\<close>

definition elpis_mul_fold :: "u64 \<Rightarrow> u64 \<Rightarrow> u64" where
  "elpis_mul_fold a b =
     (let r = (ucast a :: 128 word) * ucast b in ucast r XOR ucast (drop_bit 64 r))"

definition elpis_mul_fold_portable :: "u64 \<Rightarrow> u64 \<Rightarrow> u64" where
  "elpis_mul_fold_portable a b =
     (let alo = a AND 0xFFFFFFFF; ahi = drop_bit 32 a;
          blo = b AND 0xFFFFFFFF; bhi = drop_bit 32 b;
          p0 = alo * blo; p1 = alo * bhi; p2 = ahi * blo; p3 = ahi * bhi;
          mid = drop_bit 32 p0 + (p1 AND 0xFFFFFFFF) + (p2 AND 0xFFFFFFFF);
          lo = (p0 AND 0xFFFFFFFF) OR push_bit 32 mid;
          hi = p3 + drop_bit 32 p1 + drop_bit 32 p2 + drop_bit 32 mid
      in lo XOR hi)"

definition elpis_hash_seed :: "u64 \<Rightarrow> u64" where
  "elpis_hash_seed seed = seed XOR elpis_mul_fold (seed XOR HK0) HK1"

definition elpis_hash_step :: "u64 \<Rightarrow> u64 \<Rightarrow> u64 \<Rightarrow> u64" where
  "elpis_hash_step h a b = elpis_mul_fold (a XOR h XOR HK1) (b XOR HK2)"

text \<open>The tail with overlapping word loads (little-endian hosts).\<close>

definition elpis_hash_tail :: "buffer \<Rightarrow> u64 \<times> u64" where
  "elpis_hash_tail p =
     (let n = length p; r = n mod 16 in
      if r = 0 then (0, 0)
      else
        let (x0, x1) =
          (if 16 \<le> n then
             let s = (16 - r) * 8;
                 y0 = elpis_load64 (drop (n - 16) p);
                 y1 = elpis_load64 (drop (n - 8) p)
             in if 64 \<le> s then (drop_bit (s - 64) y1, 0)
                else (drop_bit s y0 OR push_bit (64 - s) y1, drop_bit s y1)
           else if 8 \<le> r then
             (elpis_load64 p,
              if r = 8 then 0 else drop_bit ((16 - r) * 8) (elpis_load64 (drop (n - 8) p)))
           else if 4 \<le> r then
             (ucast (elpis_load32 p) OR
              push_bit 32 (drop_bit ((8 - r) * 8) (ucast (elpis_load32 (drop (n - 4) p)))), 0)
           else
             (ucast (p ! 0) OR push_bit ((r div 2) * 8) (ucast (p ! (r div 2))) OR
              push_bit ((r - 1) * 8) (ucast (p ! (r - 1))), 0))
        in (elpis_swar_lower64 x0, elpis_swar_lower64 x1))"

text \<open>The tail byte by byte (every other host).\<close>

definition elpis_hash_tail_bytes :: "buffer \<Rightarrow> u64 \<times> u64" where
  "elpis_hash_tail_bytes p =
     (let n = length p; r = n mod 16;
          t = map lower_byte (drop (n - r) p) @ replicate (16 - r) 0
      in (elpis_load64 t, elpis_load64 (drop 8 t)))"

definition elpis_hash_finish :: "u64 \<Rightarrow> u64 \<Rightarrow> u64 \<Rightarrow> nat \<Rightarrow> u64" where
  "elpis_hash_finish h a b n =
     (let h' = elpis_hash_step h a b in elpis_mix64 (h' XOR (of_nat n * HK3)))"

function scalar_hash_blocks :: "u64 \<Rightarrow> buffer \<Rightarrow> u64" where
  "scalar_hash_blocks h p =
     (if 16 \<le> length p
      then scalar_hash_blocks
             (elpis_hash_step h (elpis_swar_lower64 (elpis_load64 p))
                                (elpis_swar_lower64 (elpis_load64 (drop 8 p))))
             (drop 16 p)
      else h)"
  by pat_completeness auto
termination
  by (relation "measure (\<lambda>(h, p). length p)") auto

definition elpis_scalar_hash_ci :: "buffer \<Rightarrow> u64 \<Rightarrow> u64" where
  "elpis_scalar_hash_ci p seed =
     (let h = scalar_hash_blocks (elpis_hash_seed seed) p; (a, b) = elpis_hash_tail p
      in elpis_hash_finish h a b (length p))"

function sse2_hash_blocks :: "u64 \<Rightarrow> buffer \<Rightarrow> u64" where
  "sse2_hash_blocks h p =
     (if 16 \<le> length p
      then let tmp = elpis_sse2_lower16 (take 16 p)
           in sse2_hash_blocks (elpis_hash_step h (elpis_load64 tmp) (elpis_load64 (drop 8 tmp)))
                (drop 16 p)
      else h)"
  by pat_completeness auto
termination
  by (relation "measure (\<lambda>(h, p). length p)") auto

definition elpis_sse2_hash_ci :: "buffer \<Rightarrow> u64 \<Rightarrow> u64" where
  "elpis_sse2_hash_ci p seed =
     (let h = sse2_hash_blocks (elpis_hash_seed seed) p; (a, b) = elpis_hash_tail p
      in elpis_hash_finish h a b (length p))"

subsection \<open>Control-word probes\<close>

definition ELPIS_GROUP :: nat where "ELPIS_GROUP = 16"

definition elpis_group_match :: "buffer \<Rightarrow> byte \<Rightarrow> u32" where
  "elpis_group_match ctrl tag =
     fold (\<lambda>i r. r OR push_bit i (if ctrl ! i = tag then 1 else 0)) [0..<ELPIS_GROUP] 0"

definition elpis_group_special :: "buffer \<Rightarrow> u32" where
  "elpis_group_special ctrl =
     fold (\<lambda>i r. r OR push_bit i (if ctrl ! i AND 0x80 \<noteq> 0 then 1 else 0)) [0..<ELPIS_GROUP] 0"

text \<open>The position of the lowest set bit; the mask is not zero.\<close>

function ctz_from :: "u32 \<Rightarrow> nat \<Rightarrow> nat" where
  "ctz_from m n = (if bit m n \<or> 32 \<le> n then n else ctz_from m (Suc n))"
  by pat_completeness auto
termination
  by (relation "measure (\<lambda>(m, n). 32 - n)") auto

definition elpis_ctz32 :: "u32 \<Rightarrow> nat" where
  "elpis_ctz32 m = ctz_from m 0"

declare elpis_scalar_lower.simps [simp del] elpis_sse2_lower.simps [simp del]
  elpis_lower_pad16.simps [simp del] elpis_scalar_eq_ci.simps [simp del]
  elpis_eq_ci.simps [simp del] elpis_sse2_eq_ci.simps [simp del] scalar_hash_blocks.simps [simp del]
  sse2_hash_blocks.simps [simp del] ctz_from.simps [simp del]

section \<open>Words as lanes of bytes\<close>

lemma bit_le_word: "bit (le_word bs) k \<longleftrightarrow> k < 64 \<and> k div 8 < length bs \<and> bit (bs ! (k div 8)) (k mod 8)"
proof (induction bs arbitrary: k)
  case Nil
  then show ?case by simp
next
  case (Cons b bs)
  show ?case
  proof (cases "k < 8")
    case True
    then show ?thesis by (simp add: bit_simps)
  next
    case False
    then obtain j where j: "k = j + 8" by (metis add.commute le_Suc_ex not_less)
    then have "k div 8 = Suc (j div 8)" "k mod 8 = j mod 8" by simp_all
    with j show ?thesis by (auto simp: bit_simps Cons.IH dest: bit_imp_le_length)
  qed
qed

lemma store64_le_word: "length bs = 8 \<Longrightarrow> store64 (le_word bs) = bs"
proof (rule nth_equalityI)
  fix i assume l: "length bs = 8" and i: "i < length (store64 (le_word bs))"
  then have i8: "i < 8" by (simp add: store64_def)
  have "ucast (drop_bit (8 * i) (le_word bs)) = bs ! i"
  proof (rule bit_word_eqI)
    fix n assume "n < LENGTH(8)"
    then have "n < 8" by simp
    then have "(8 * i + n) div 8 = i" "(8 * i + n) mod 8 = n" by simp_all
    with \<open>n < 8\<close> i8 l show "bit (ucast (drop_bit (8 * i) (le_word bs)) :: byte) n = bit (bs ! i) n"
      by (simp add: bit_simps bit_le_word)
  qed
  with i8 l show "store64 (le_word bs) ! i = bs ! i" by (simp add: store64_def)
qed (simp add: store64_def)

lemma le_word_inj: "length as = 8 \<Longrightarrow> length bs = 8 \<Longrightarrow> le_word as = le_word bs \<longleftrightarrow> as = bs"
  by (metis store64_le_word)

lemma le_word_and: "length as = length cs \<Longrightarrow> le_word as AND le_word cs = le_word (map2 (AND) as cs)"
  by (rule bit_word_eqI) (auto simp: bit_simps bit_le_word)

lemma le_word_or: "length as = length cs \<Longrightarrow> le_word as OR le_word cs = le_word (map2 (OR) as cs)"
  by (rule bit_word_eqI) (auto simp: bit_simps bit_le_word)

lemma le_word_not: "length as = 8 \<Longrightarrow> NOT (le_word as) = le_word (map NOT as)"
  by (rule bit_word_eqI) (auto simp: bit_simps bit_le_word)

fun nval :: "buffer \<Rightarrow> nat" where
  "nval [] = 0"
| "nval (b # bs) = unat b + 256 * nval bs"

lemma nval_less: "nval bs < 256 ^ length bs"
proof (induction bs)
  case (Cons b bs)
  then show ?case using unat_byte_less [of b] by simp
qed simp

lemma unat_le_word: "length bs \<le> 8 \<Longrightarrow> unat (le_word bs) = nval bs"
proof (induction bs)
  case (Cons b bs)
  have "le_word (b # bs) = ucast b + push_bit 8 (le_word bs)"
    unfolding le_word.simps
    by (rule disjunctive_add [symmetric]) (auto simp: bit_simps dest: bit_imp_le_length)
  moreover have "nval bs < 256 ^ 7"
    using nval_less [of bs] Cons.prems power_increasing [of "length bs" 7 "256::nat"] by simp
  ultimately show ?case using Cons unat_byte_less [of b]
    by (simp add: unat_word_ariths push_bit_eq_mult unsigned_ucast_eq take_bit_eq_mod)
qed simp

lemma nval_add:
  "list_all2 (\<lambda>a c. unat a + unat c < 256) as cs \<Longrightarrow> nval (map2 (+) as cs) = nval as + nval cs"
  by (induction rule: list_all2_induct) (auto simp: unat_word_ariths)

lemma le_word_add:
  assumes "length as = 8" and "list_all2 (\<lambda>a c. unat a + unat c < 256) as cs"
  shows "le_word as + le_word cs = le_word (map2 (+) as cs)"
proof -
  have l: "length cs = 8" using assms by (metis list_all2_lengthD)
  have "nval as + nval cs < 2 ^ 64"
    using nval_less [of "map2 (+) as cs"] nval_add [OF assms(2)] assms(1) l by simp
  then have "unat (le_word as + le_word cs) = unat (le_word (map2 (+) as cs))"
    using assms l by (simp add: unat_word_ariths unat_le_word nval_add)
  then show ?thesis by (simp add: word_unat_eq_iff)
qed

lemma le_word_drop2:
  assumes "length ms = 8" and "\<forall>m \<in> set ms. \<not> bit m 0 \<and> \<not> bit m 1"
  shows "drop_bit 2 (le_word ms) = le_word (map (drop_bit 2) ms)"
proof (rule bit_word_eqI)
  fix n assume n: "n < LENGTH(64)"
  show "bit (drop_bit 2 (le_word ms)) n = bit (le_word (map (drop_bit 2) ms)) n"
  proof (cases "n mod 8 < 6")
    case True
    then have "(2 + n) div 8 = n div 8" "(2 + n) mod 8 = 2 + n mod 8" by presburger+
    with n assms(1) show ?thesis by (auto simp: bit_simps bit_le_word)
  next
    case False
    then have *: "(2 + n) div 8 = Suc (n div 8)" "(2 + n) mod 8 = n mod 8 - 6" "n mod 8 - 6 < 2"
      by presburger+
    then have "n mod 8 - 6 = 0 \<or> n mod 8 - 6 = 1" by linarith
    with * n assms False show ?thesis
      by (auto simp: bit_simps bit_le_word dest: bit_imp_le_length)
  qed
qed

section \<open>The SWAR fold\<close>

definition swar_lane :: "byte \<Rightarrow> byte" where
  "swar_lane x =
     (let lo = x AND 0x7f; hi = x AND 0x80; ge = (lo + 0x3f) AND 0x80; gt = (lo + 0x25) AND 0x80;
          m = ge AND NOT gt AND NOT hi
      in x OR drop_bit 2 m)"

lemma replicate8: "replicate 8 x = [x, x, x, x, x, x, x, x]"
  by (simp add: eval_nat_numeral)

lemma swar_constants:
  "0x7f7f7f7f7f7f7f7f = le_word (replicate 8 0x7f)"
  "0x8080808080808080 = le_word (replicate 8 0x80)"
  "0x3f3f3f3f3f3f3f3f = le_word (replicate 8 0x3f)"
  "0x2525252525252525 = le_word (replicate 8 0x25)"
  by (simp_all add: replicate8)

lemma unat_and_7f: "unat (x AND 0x7f :: byte) < 128"
proof -
  have "unat (x AND 0x7f) \<le> unat (0x7f :: byte)"
    by (rule word_and_le1 [THEN word_le_nat_alt [THEN iffD1]])
  then show ?thesis by simp
qed

lemma swar_lane_lower: "swar_lane c = lower_byte c"
  by (rule all_byte [where P = "\<lambda>c. swar_lane c = lower_byte c"])
     (simp add: upt_rec swar_lane_def lower_byte_def word_le_nat_alt)

lemma sse2_lane_lower: "sse2_lower_lane c = lower_byte c"
  by (rule all_byte [where P = "\<lambda>c. sse2_lower_lane c = lower_byte c"])
     (simp add: upt_rec sse2_lower_lane_def lower_byte_def word_le_nat_alt)

lemma map2_replicate8:
  "length xs = 8 \<Longrightarrow> map2 f xs (replicate 8 c) = map (\<lambda>x. f x c) xs"
  by (auto intro: nth_equalityI)

lemma map2_map_map: "map2 f (map g xs) (map h xs) = map (\<lambda>x. f (g x) (h x)) xs"
  by (induction xs) auto

lemma le_word_add_const:
  assumes "length bs = 8" and "unat c < 128"
  shows "le_word (map (\<lambda>x. x AND 0x7f) bs) + le_word (replicate 8 c) =
         le_word (map (\<lambda>x. (x AND 0x7f) + c) bs)"
proof -
  have "unat (x AND 0x7f) + unat c < 256" for x :: byte
    using unat_and_7f [of x] assms(2) by linarith
  then have "list_all2 (\<lambda>a c. unat a + unat c < 256) (map (\<lambda>x. x AND 0x7f) bs) (replicate 8 c)"
    using assms(1) by (auto simp: list_all2_conv_all_nth)
  then show ?thesis using assms(1) by (simp add: le_word_add map2_replicate8 o_def)
qed

lemma map2_self: "map2 f xs (map h xs) = map (\<lambda>x. f x (h x)) xs"
  by (induction xs) auto

lemma unat_7f_consts: "unat (0x3f :: byte) < 128 \<longleftrightarrow> True" "unat (0x25 :: byte) < 128 \<longleftrightarrow> True"
  by simp_all

lemma swar_le_word:
  assumes l: "length bs = 8"
  shows "elpis_swar_lower64 (le_word bs) = le_word (map lower_byte bs)"
proof -
  let ?m = "\<lambda>x. ((x AND 0x7f) + 0x3f) AND 0x80 AND NOT (((x AND 0x7f) + 0x25) AND 0x80) AND NOT (x AND 0x80)"
  have "\<forall>m \<in> set (map ?m bs). \<not> bit m 0 \<and> \<not> bit m 1"
    by (auto simp: bit_and_iff)
  then have d: "drop_bit 2 (le_word (map ?m bs)) = le_word (map (\<lambda>x. drop_bit 2 (?m x)) bs)"
    using l le_word_drop2 [of "map ?m bs"] by (simp add: o_def)
  have "elpis_swar_lower64 (le_word bs) = le_word (map (\<lambda>x. x OR drop_bit 2 (?m x)) bs)"
    unfolding elpis_swar_lower64_def Let_def swar_constants
    by (simp only: le_word_and le_word_not le_word_add_const map2_replicate8 map2_map_map map2_self
        l length_map length_replicate map_map o_def unat_7f_consts and.assoc d le_word_or)
  also have "(\<lambda>x. x OR drop_bit 2 (?m x)) = swar_lane"
    by (rule ext) (simp only: swar_lane_def Let_def and.assoc)
  finally show ?thesis by (simp add: swar_lane_lower [abs_def])
qed

section \<open>The kernels against the byte loop\<close>

lemma swar_load64: "8 \<le> length p \<Longrightarrow> elpis_swar_lower64 (elpis_load64 p) = elpis_load64 (map lower_byte p)"
  by (simp add: elpis_load64_def swar_le_word take_map)

lemma take_drop_map_append: "take n (map f xs) @ map f (drop n xs) = map f xs"
  by (metis append_take_drop_id map_append take_map)

lemma elpis_scalar_lower_eq: "elpis_scalar_lower src = map lower_byte src"
proof (induction src rule: elpis_scalar_lower.induct)
  case (1 src)
  show ?case
  proof (cases "8 \<le> length src")
    case True
    then have "store64 (elpis_swar_lower64 (elpis_load64 src)) = take 8 (map lower_byte src)"
      by (simp add: elpis_load64_def swar_le_word store64_le_word take_map)
    with True "1.IH" show ?thesis
      by (simp add: elpis_scalar_lower.simps [of src] take_drop_map_append)
  qed (simp add: elpis_scalar_lower.simps [of src])
qed

lemma sse2_lower16_eq [simp]: "elpis_sse2_lower16 v = map lower_byte v"
  by (simp add: elpis_sse2_lower16_def sse2_lane_lower [abs_def])

lemma elpis_sse2_lower_eq: "elpis_sse2_lower src = map lower_byte src"
proof (induction src rule: elpis_sse2_lower.induct)
  case (1 src)
  then show ?case
    by (simp add: elpis_sse2_lower.simps [of src] elpis_scalar_lower_eq take_map [symmetric] take_drop_map_append)
qed

lemma elpis_lower_pad16_eq: "elpis_lower_pad16 src = map lower_byte src"
proof (induction src rule: elpis_lower_pad16.induct)
  case (1 src)
  then show ?case
    by (simp add: elpis_lower_pad16.simps [of src] take_map [symmetric] take_drop_map_append)
qed

lemma eq_take_split: "k \<le> n \<Longrightarrow> take n a = take n b \<longleftrightarrow> take k a = take k b \<and> take (n - k) (drop k a) = take (n - k) (drop k b)"
  by (metis le_add_diff_inverse take_add append_take_drop_id  append_eq_append_conv drop_take take_take min.absorb1)

lemma elpis_scalar_eq_ci_eq:
  "n \<le> length a \<Longrightarrow> n \<le> length b \<Longrightarrow>
     elpis_scalar_eq_ci a b n \<longleftrightarrow> map lower_byte (take n a) = map lower_byte (take n b)"
proof (induction a b n rule: elpis_scalar_eq_ci.induct)
  case (1 a b n)
  show ?case
  proof (cases "8 \<le> n")
    case True
    have "elpis_swar_lower64 (elpis_load64 a) = elpis_swar_lower64 (elpis_load64 b) \<longleftrightarrow>
          take 8 (map lower_byte a) = take 8 (map lower_byte b)"
      using True "1.prems" by (simp add: elpis_load64_def swar_le_word le_word_inj take_map)
    with True "1.prems" "1.IH" show ?thesis
      using eq_take_split [OF True, of "map lower_byte a" "map lower_byte b"]
      by (auto simp: elpis_scalar_eq_ci.simps [of a b n] take_map drop_map)
  next
    case False
    with "1.prems" show ?thesis
      by (auto simp: elpis_scalar_eq_ci.simps [of a b n] list_all_iff list_eq_iff_nth_eq)
  qed
qed

lemma elpis_eq_ci_eq:
  "n \<le> length a \<Longrightarrow> n \<le> length b \<Longrightarrow>
     elpis_eq_ci a b n \<longleftrightarrow> map lower_byte (take n a) = map lower_byte (take n b)"
proof (induction a b n rule: elpis_eq_ci.induct)
  case (1 a b n)
  show ?case
  proof (cases "16 \<le> n")
    case True
    with "1.prems" "1.IH" show ?thesis
      using eq_take_split [OF True, of "map lower_byte a" "map lower_byte b"]
      by (auto simp: elpis_eq_ci.simps [of a b n] take_map drop_map)
  next
    case False
    with "1.prems" show ?thesis
      by (simp add: elpis_eq_ci.simps [of a b n] elpis_scalar_eq_ci_eq)
  qed
qed

lemma xor_zero_iff: "(x :: byte) XOR y = 0 \<longleftrightarrow> x = y"
  by (metis xor_self_eq xor.assoc xor.left_neutral xor.right_neutral)

lemma block_diff_zero:
  assumes "length a0 = 16" "length b0 = 16" "length a1 = 16" "length b1 = 16"
  shows "list_all (\<lambda>x. x = 0) (map2 (OR) (map2 (XOR) a0 b0) (map2 (XOR) a1 b1)) \<longleftrightarrow>
    a0 = (b0 :: buffer) \<and> a1 = b1"
proof -
  have "list_all (\<lambda>x. x = 0) (map2 (OR) (map2 (XOR) a0 b0) (map2 (XOR) a1 b1)) \<longleftrightarrow>
      (\<forall>i < 16. a0 ! i = b0 ! i \<and> a1 ! i = b1 ! i)"
    using assms by (simp add: list_all_length or_eq_0_iff xor_zero_iff)
  then show ?thesis using assms by (auto simp: list_eq_iff_nth_eq)
qed

lemma elpis_sse2_eq_ci_eq:
  "n \<le> length a \<Longrightarrow> n \<le> length b \<Longrightarrow>
     elpis_sse2_eq_ci a b n \<longleftrightarrow> map lower_byte (take n a) = map lower_byte (take n b)"
proof (induction a b n rule: elpis_sse2_eq_ci.induct)
  case (1 a b n)
  show ?case
  proof (cases "32 \<le> n")
    case True
    then have s: "16 \<le> n" "16 \<le> n - 16" by simp_all
    from True "1.prems" "1.IH" show ?thesis
      using eq_take_split [OF s(1), of "map lower_byte a" "map lower_byte b"]
        eq_take_split [OF s(2), of "drop 16 (map lower_byte a)" "drop 16 (map lower_byte b)"]
      by (auto simp: elpis_sse2_eq_ci.simps [of a b n] Let_def block_diff_zero take_map drop_map)
  next
    case False
    with "1.prems" show ?thesis
      by (simp add: elpis_sse2_eq_ci.simps [of a b n] elpis_eq_ci_eq)
  qed
qed

lemma sse2_hash_blocks_eq: "sse2_hash_blocks h p = scalar_hash_blocks h p"
proof (induction h p rule: sse2_hash_blocks.induct)
  case (1 h p)
  have "16 \<le> length p \<Longrightarrow> elpis_swar_lower64 (le_word (take 8 (drop 8 p))) =
      le_word (map lower_byte (take 8 (drop 8 p)))"
    by (simp add: swar_le_word)
  with 1 show ?case
    by (simp add: sse2_hash_blocks.simps [of h p] scalar_hash_blocks.simps [of h p] Let_def
        swar_le_word elpis_load64_def take_map drop_map drop_take min_def)
qed

section \<open>The tail of the hash\<close>

lemma bit_le_word_append:
  "le_word (as @ bs) = le_word as OR push_bit (8 * length as) (le_word bs)"
proof (induction as)
  case (Cons a as)
  then show ?case
    by (simp add: push_bit_or or.assoc)
qed simp

lemma le_word_zeros [simp]: "le_word (replicate m 0) = 0"
  by (induction m) auto

lemma le_word_append_zeros [simp]: "le_word (bs @ replicate m 0) = le_word bs"
  by (simp add: bit_le_word_append)

lemma le_word_take8: "le_word (take 8 bs) = le_word bs"
  by (rule bit_word_eqI) (auto simp: bit_le_word)

lemma le_word_drop: "length bs \<le> 8 \<Longrightarrow> drop_bit (8 * q) (le_word bs) = le_word (drop q bs)"
  by (rule bit_word_eqI) (auto simp: bit_simps bit_le_word)

lemma load32_le_word: "ucast (elpis_load32 p) = le_word (take 4 p)"
  by (rule bit_word_eqI) (auto simp: elpis_load32_def bit_simps bit_le_word)

definition raw_tail :: "buffer \<Rightarrow> buffer" where
  "raw_tail p = drop (length p - length p mod 16) p"

lemma length_raw_tail: "length (raw_tail p) = length p mod 16"
  by (simp add: raw_tail_def)

lemma hash_tail_words:
  "elpis_hash_tail p = (elpis_swar_lower64 (le_word (take 8 (raw_tail p))),
                        elpis_swar_lower64 (le_word (drop 8 (raw_tail p))))"
proof -
  let ?n = "length p" and ?r = "length p mod 16"
  have r: "?r < 16" by simp
  consider (zero) "?r = 0" | (long_lo) "16 \<le> ?n" "0 < ?r" "?r \<le> 8" | (long_hi) "16 \<le> ?n" "8 < ?r"
    | (mid) "?n < 16" "8 \<le> ?r" | (four) "?n < 16" "4 \<le> ?r" "?r < 8" | (few) "?n < 16" "0 < ?r" "?r < 4"
    by linarith
  then show ?thesis
  proof cases
    case zero
    then show ?thesis
      by (simp add: elpis_hash_tail_def raw_tail_def elpis_swar_lower64_def)
  next
    case long_lo
    have s: "(16 - ?r) * 8 - 64 = 8 * (8 - ?r)" using long_lo by simp
    have "drop_bit ((16 - ?r) * 8 - 64) (elpis_load64 (drop (?n - 8) p)) = le_word (raw_tail p)"
      using long_lo unfolding s by (simp add: elpis_load64_def le_word_drop raw_tail_def)
    moreover have "64 \<le> (16 - ?r) * 8" using long_lo by simp
    ultimately show ?thesis using long_lo
      by (simp only: elpis_hash_tail_def Let_def if_True if_False) (simp add: length_raw_tail)
  next
    case long_hi
    let ?A = "drop (16 - ?r) (take 8 (drop (?n - 16) p))"
    have q: "(16 - ?r) * 8 = 8 * (16 - ?r)" "64 - (16 - ?r) * 8 = 8 * (?r - 8)" using long_hi r by simp_all
    have lt: "\<not> 64 \<le> (16 - ?r) * 8" using long_hi r by simp
    have A: "length ?A = ?r - 8" using long_hi r by simp
    have D: "drop (?n - 16) p = take 8 (drop (?n - 16) p) @ drop (?n - 8) p"
      using append_take_drop_id [of 8 "drop (?n - 16) p"] long_hi by simp
    have "raw_tail p = drop (16 - ?r) (drop (?n - 16) p)"
      using long_hi r by (simp add: raw_tail_def)
    also have "\<dots> = ?A @ drop (?n - 8) p"
      using long_hi r by (subst D, subst drop_append) simp
    finally have t: "raw_tail p = ?A @ drop (?n - 8) p" .
    have "le_word (take 8 (raw_tail p)) = le_word ?A OR push_bit (8 * (?r - 8)) (le_word (drop (?n - 8) p))"
      unfolding t le_word_take8 bit_le_word_append A ..
    moreover have "drop 8 (raw_tail p) = drop (16 - ?r) (drop (?n - 8) p)"
      using long_hi r by (simp add: raw_tail_def)
    moreover have "drop_bit ((16 - ?r) * 8) (elpis_load64 (drop (?n - 16) p)) = le_word ?A"
      unfolding elpis_load64_def q(1) by (rule le_word_drop) simp
    moreover have "drop_bit ((16 - ?r) * 8) (le_word (drop (?n - 8) p)) =
        le_word (drop (16 - ?r) (drop (?n - 8) p))"
      unfolding q(1) by (rule le_word_drop) simp
    moreover have "elpis_load64 (drop (?n - 8) p) = le_word (drop (?n - 8) p)"
      by (simp add: elpis_load64_def)
    moreover have "?r \<noteq> 0" using long_hi by simp
    ultimately show ?thesis using long_hi(1) lt
      by (simp only: elpis_hash_tail_def Let_def if_False if_True q(2) prod.case)
  next
    case mid
    then have n: "?r = ?n" by simp
    have q: "(16 - ?n) * 8 = 8 * (16 - ?n)" by simp
    show ?thesis using mid r unfolding n
      by (auto simp: elpis_hash_tail_def Let_def elpis_load64_def raw_tail_def le_word_take8 q le_word_drop)
  next
    case four
    then have n: "?r = ?n" by simp
    have q: "(8 - ?n) * 8 = 8 * (8 - ?n)" by simp
    have "le_word p = le_word (take 4 p) OR push_bit 32 (le_word (drop 4 p))"
      using bit_le_word_append [of "take 4 p" "drop 4 p"] four by simp
    moreover have "p \<noteq> []" using four by auto
    ultimately show ?thesis using four r unfolding n
      by (simp add: elpis_hash_tail_def Let_def load32_le_word q le_word_drop raw_tail_def n)
  next
    case few
    then have n: "?r = ?n" by simp
    then obtain a where "p = [a] \<or> (\<exists>b. p = [a, b]) \<or> (\<exists>b c. p = [a, b, c])"
      using few by (cases p rule: remdups_adj.cases; cases "tl (tl p)") auto
    then show ?thesis
      by (auto simp: elpis_hash_tail_def Let_def raw_tail_def push_bit_or or.assoc elpis_swar_lower64_def)
  qed
qed

lemma elpis_sse2_hash_ci_eq: "elpis_sse2_hash_ci p seed = elpis_scalar_hash_ci p seed"
  by (simp add: elpis_sse2_hash_ci_def elpis_scalar_hash_ci_def sse2_hash_blocks_eq)
lemma lower_zero [simp]: "lower_byte 0 = 0"
  by (simp add: lower_byte_def word_le_nat_alt)

lemma lower_idem [simp]: "lower_byte (lower_byte c) = lower_byte c"
  by (rule all_byte [where P = "\<lambda>c. lower_byte (lower_byte c) = lower_byte c"])
     (simp add: upt_rec lower_byte_def word_le_nat_alt)

lemma lower_comp [simp]: "lower_byte \<circ> lower_byte = lower_byte"
  by (simp add: fun_eq_iff)

lemma swar_le_word_short:
  assumes "length bs \<le> 8"
  shows "elpis_swar_lower64 (le_word bs) = le_word (map lower_byte bs)"
proof -
  have "elpis_swar_lower64 (le_word (bs @ replicate (8 - length bs) 0)) =
        le_word (map lower_byte (bs @ replicate (8 - length bs) 0))"
    using assms by (intro swar_le_word) simp
  then show ?thesis by simp
qed

lemma elpis_hash_tail_eq_bytes: "elpis_hash_tail p = elpis_hash_tail_bytes p"
proof -
  let ?t = "raw_tail p"
  have l: "length ?t < 16" by (simp add: length_raw_tail)
  have "elpis_load64 (map lower_byte ?t @ replicate (16 - length ?t) 0) = le_word (map lower_byte (take 8 ?t))"
    by (simp add: elpis_load64_def take_map)
  moreover have "elpis_load64 (drop 8 (map lower_byte ?t @ replicate (16 - length ?t) 0)) = le_word (map lower_byte (drop 8 ?t))"
    by (simp add: elpis_load64_def drop_map le_word_take8)
  ultimately show ?thesis
    using l by (simp add: hash_tail_words swar_le_word_short elpis_hash_tail_bytes_def Let_def
        length_raw_tail raw_tail_def)
qed

lemma scalar_hash_blocks_lower: "scalar_hash_blocks h (map lower_byte p) = scalar_hash_blocks h p"
proof (induction h p rule: scalar_hash_blocks.induct)
  case (1 h p)
  have "elpis_swar_lower64 (elpis_load64 (map lower_byte q)) = elpis_swar_lower64 (elpis_load64 q)" if "8 \<le> length q" for q
    using that by (simp add: elpis_load64_def swar_le_word take_map)
  with 1 show ?case
    by (simp add: scalar_hash_blocks.simps [of h p] scalar_hash_blocks.simps [of h "map lower_byte p"] drop_map)
qed

lemma hash_tail_lower: "elpis_hash_tail (map lower_byte p) = elpis_hash_tail p"
  by (simp add: elpis_hash_tail_eq_bytes elpis_hash_tail_bytes_def Let_def drop_map)

lemma elpis_scalar_hash_ci_lower: "elpis_scalar_hash_ci (map lower_byte p) seed = elpis_scalar_hash_ci p seed"
  by (simp add: elpis_scalar_hash_ci_def scalar_hash_blocks_lower hash_tail_lower)
lemma unat_low32: "unat ((a :: u64) AND 0xFFFFFFFF) = unat a mod 2 ^ 32"
proof -
  have "a AND 0xFFFFFFFF = take_bit 32 a" by (simp add: take_bit_eq_mask mask_eq_exp_minus_1)
  then show ?thesis
    by (simp only: unsigned_take_bit_eq) (simp only: take_bit_eq_mod)
qed

lemma unat_high32: "unat (drop_bit 32 (a :: u64)) = unat a div 2 ^ 32"
  by (simp only: unat_drop_bit_eq) (simp only: drop_bit_eq_div)

lemma unat_u64_less: "unat (a :: u64) < 2 ^ 64"
  using unsigned_less [of a] by simp

lemma mul_split:
  fixes al ah bl bh B :: nat
  assumes "al * bl = p0l + B * p0h" and "al * bh = p1l + B * p1h" and "ah * bl = p2l + B * p2h"
    and "p0h + p1l + p2l = ml + B * mh"
  shows "(al + B * ah) * (bl + B * bh) = (p0l + B * ml) + B * B * (ah * bh + p1h + p2h + mh)"
proof -
  have "(al + B * ah) * (bl + B * bh) = al * bl + B * (al * bh + ah * bl) + B * B * (ah * bh)"
    by (simp add: algebra_simps)
  also have "\<dots> = p0l + B * (p0h + p1l + p2l) + B * B * (ah * bh + p1h + p2h)"
    unfolding assms(1-3) by (simp add: algebra_simps)
  also have "\<dots> = (p0l + B * ml) + B * B * (ah * bh + p1h + p2h + mh)"
    unfolding assms(4) by (simp add: algebra_simps)
  finally show ?thesis .
qed

lemma prod_u32_less: "x < 2 ^ 32 \<Longrightarrow> y < 2 ^ 32 \<Longrightarrow> x * y < (2 ^ 64 :: nat)"
  using mult_strict_mono [of x "2 ^ 32" y "2 ^ 32"] by simp

lemma unat_mult_u32: "unat a < 2 ^ 32 \<Longrightarrow> unat b < 2 ^ 32 \<Longrightarrow> unat (a * b :: u64) = unat a * unat b"
  using prod_u32_less [of "unat a" "unat b"] by (simp add: unat_word_ariths)

lemma unat_or_push32:
  assumes "unat (x :: u64) < 2 ^ 32"
  shows "unat (x OR push_bit 32 y) = unat x + 2 ^ 32 * (unat y mod 2 ^ 32)"
proof -
  have "unat (take_bit 32 x) = unat x"
    by (simp only: unsigned_take_bit_eq take_bit_nat_eq_self [OF assms])
  then have x: "take_bit 32 x = x" by (simp only: word_unat_eq_iff)
  have "\<not> bit x n" if "32 \<le> n" for n
    by (subst x [symmetric]) (use that in \<open>simp add: bit_simps\<close>)
  then have "x OR push_bit 32 y = x + push_bit 32 y"
    by (intro disjunctive_add [symmetric]) (auto simp: bit_simps)
  moreover have "unat (push_bit 32 y) = 2 ^ 32 * (unat y mod 2 ^ 32)"
    using mod_mult_mult1 [of "2 ^ 32" "unat y" "2 ^ 32"]
    by (simp add: push_bit_eq_mult unat_word_ariths mult.commute)
  moreover have "unat x + 2 ^ 32 * (unat y mod 2 ^ 32) < 2 ^ 64"
  proof -
    have "unat y mod 2 ^ 32 + 1 \<le> 2 ^ 32" by (simp add: Suc_leI)
    then have "2 ^ 32 * (unat y mod 2 ^ 32 + 1) \<le> (2 ^ 32 * 2 ^ 32 :: nat)" by (rule mult_le_mono2)
    then show ?thesis using assms by simp
  qed
  ultimately show ?thesis by (simp add: unat_word_ariths)
qed

lemma unat_ucast_mul: "unat ((ucast (a :: u64) :: 128 word) * ucast (b :: u64)) = unat a * unat b"
proof -
  have "unat a * unat b < 2 ^ 64 * 2 ^ 64"
    by (intro mult_strict_mono) (use unat_u64_less in auto)
  then show ?thesis
    using unat_u64_less [of a] unat_u64_less [of b]
    by (simp add: unat_word_ariths unsigned_ucast_eq take_bit_eq_mod)
qed
lemma mul_words:
  fixes a b :: u64
  defines "p0 \<equiv> (a AND 0xFFFFFFFF) * (b AND 0xFFFFFFFF)"
    and "p1 \<equiv> (a AND 0xFFFFFFFF) * drop_bit 32 b"
    and "p2 \<equiv> drop_bit 32 a * (b AND 0xFFFFFFFF)"
    and "p3 \<equiv> drop_bit 32 a * drop_bit 32 b"
  defines "mid \<equiv> drop_bit 32 p0 + (p1 AND 0xFFFFFFFF) + (p2 AND 0xFFFFFFFF)"
  shows "unat a * unat b =
    unat ((p0 AND 0xFFFFFFFF) OR push_bit 32 mid) +
    2 ^ 64 * unat (p3 + drop_bit 32 p1 + drop_bit 32 p2 + drop_bit 32 mid)"
proof -
  let ?B = "2 ^ 32 :: nat"
  define al ah bl bh where l: "al = unat a mod ?B" "ah = unat a div ?B" "bl = unat b mod ?B" "bh = unat b div ?B"
  have lt: "al < ?B" "bl < ?B" "ah < ?B" "bh < ?B"
    using unat_u64_less [of a] unat_u64_less [of b] by (simp_all add: l less_mult_imp_div_less)
  have up: "unat p0 = al * bl" "unat p1 = al * bh" "unat p2 = ah * bl" "unat p3 = ah * bh"
    using lt unfolding p0_def p1_def p2_def p3_def l
    by (simp_all only: unat_mult_u32 unat_low32 unat_high32)
  have "al * bl div ?B < ?B" using prod_u32_less [OF lt(1,2)] by (simp add: less_mult_imp_div_less)
  moreover have "al * bh mod ?B < ?B" "ah * bl mod ?B < ?B" by simp_all
  ultimately have "al * bl div ?B + al * bh mod ?B + ah * bl mod ?B < 2 ^ 64" by simp
  then have um: "unat mid = al * bl div ?B + al * bh mod ?B + ah * bl mod ?B"
    by (simp add: mid_def unat_word_ariths unat_low32 unat_high32 up)
  have ul: "unat ((p0 AND 0xFFFFFFFF) OR push_bit 32 mid) = al * bl mod ?B + ?B * (unat mid mod ?B)"
    by (subst unat_or_push32) (simp_all add: unat_low32 up)
  define nhi where "nhi = ah * bh + al * bh div ?B + ah * bl div ?B + unat mid div ?B"
  have prod: "unat a * unat b = unat ((p0 AND 0xFFFFFFFF) OR push_bit 32 mid) + 2 ^ 64 * nhi"
    using mul_split [of al bl "al * bl mod ?B" ?B "al * bl div ?B" bh "al * bh mod ?B" "al * bh div ?B"
        ah "ah * bl mod ?B" "ah * bl div ?B" "unat mid mod ?B" "unat mid div ?B"]
    by (simp add: ul nhi_def um l add.commute)
  have "unat a * unat b < 2 ^ 64 * 2 ^ 64"
    by (intro mult_strict_mono) (use unat_u64_less in auto)
  then have "nhi < 2 ^ 64" unfolding prod by simp
  then have "unat (p3 + drop_bit 32 p1 + drop_bit 32 p2 + drop_bit 32 mid) = nhi"
    by (simp add: nhi_def unat_word_ariths unat_high32 up)
  with prod show ?thesis by simp
qed

lemma fold_words:
  assumes "unat (r :: 128 word) = unat (lo :: u64) + 2 ^ 64 * unat (hi :: u64)"
  shows "ucast r = lo" and "ucast (drop_bit 64 r) = hi"
proof -
  have "unat (ucast r :: u64) = unat lo"
    using unat_u64_less [of lo] by (simp add: unsigned_ucast_eq take_bit_eq_mod assms)
  then show "ucast r = lo" by (simp only: word_unat_eq_iff)
  have "unat (drop_bit 64 r) = unat hi"
    using unat_u64_less [of lo] by (simp only: unat_drop_bit_eq) (simp add: drop_bit_eq_div assms)
  then have "unat (ucast (drop_bit 64 r) :: u64) = unat hi"
    using unat_u64_less [of hi] by (simp only: unsigned_ucast_eq) (simp add: take_bit_eq_mod)
  then show "ucast (drop_bit 64 r) = hi" by (simp only: word_unat_eq_iff)
qed

lemma elpis_mul_fold_portable_eq: "elpis_mul_fold_portable a b = elpis_mul_fold a b"
proof -
  have "unat ((ucast a :: 128 word) * ucast b) = unat a * unat b" by (rule unat_ucast_mul)
  note fold_words [OF this [unfolded mul_words]]
  then show ?thesis
    by (simp only: elpis_mul_fold_portable_def elpis_mul_fold_def Let_def)
qed

section \<open>Probes\<close>

lemma bit_fold_push:
  "bit (fold (\<lambda>i r. r OR push_bit i (if P i then 1 else 0)) [0..<n] (0 :: u32)) k \<longleftrightarrow>
     k < n \<and> k < 32 \<and> P k"
proof (induction n)
  case (Suc n)
  have "bit (push_bit n (if P n then 1 else 0) :: u32) k \<longleftrightarrow> k = n \<and> k < 32 \<and> P n"
    by (auto simp: bit_push_bit_iff bit_1_iff)
  with Suc show ?case by (auto simp: bit_or_iff less_Suc_eq)
qed simp

lemma bit_group_match [simp]: "bit (elpis_group_match ctrl tag) k \<longleftrightarrow> k < 16 \<and> ctrl ! k = tag"
  unfolding elpis_group_match_def bit_fold_push by (auto simp: ELPIS_GROUP_def)

lemma bit_group_special [simp]:
  "bit (elpis_group_special ctrl) k \<longleftrightarrow> k < 16 \<and> ctrl ! k AND 0x80 \<noteq> 0"
  unfolding elpis_group_special_def bit_fold_push by (auto simp: ELPIS_GROUP_def)

lemma ctz_from_spec:
  assumes "bit m k"
  shows "n \<le> k \<Longrightarrow> n \<le> ctz_from m n \<and> ctz_from m n \<le> k \<and> bit m (ctz_from m n) \<and>
     (\<forall>j. n \<le> j \<longrightarrow> j < ctz_from m n \<longrightarrow> \<not> bit m j)"
proof (induction "k - n" arbitrary: n)
  case 0
  then have "n = k" by simp
  with assms show ?case by (subst (1 2 3 4) ctz_from.simps) simp
next
  case (Suc d)
  have k: "k < 32" using bit_imp_le_length [OF assms] by simp
  show ?case
  proof (cases "bit m n")
    case True
    with Suc.prems show ?thesis by (subst (1 2 3 4) ctz_from.simps) simp
  next
    case False
    have "d = k - Suc n" "Suc n \<le> k" using Suc.hyps(2) by simp_all
    note IH = Suc.hyps(1) [OF this]
    have "ctz_from m n = ctz_from m (Suc n)"
      using False \<open>Suc n \<le> k\<close> k by (subst ctz_from.simps) simp
    moreover have "n \<le> j \<longleftrightarrow> j = n \<or> Suc n \<le> j" for j by linarith
    ultimately show ?thesis using False IH by auto
  qed
qed

lemma ctz32_bit: "m \<noteq> 0 \<Longrightarrow> bit m (elpis_ctz32 m)"
  using ctz_from_spec [of m _ 0] by (metis bit_eq_iff bit_0_eq bot_apply bot_bool_def elpis_ctz32_def le0)

lemma ctz32_least: "bit m k \<Longrightarrow> elpis_ctz32 m \<le> k \<and> (\<forall>j < elpis_ctz32 m. \<not> bit m j)"
  using ctz_from_spec [of m k 0] by (simp add: elpis_ctz32_def)

section \<open>What a backend promises\<close>

text \<open>
  The three function pointers of the dispatch table.  A backend's kernels are those of the byte
  loop; the clients need only that comparison is equality after folding and that folding does not
  change the hash.
\<close>

locale simd_backend =
  fixes lower :: "buffer \<Rightarrow> buffer"
    and eq_ci :: "buffer \<Rightarrow> buffer \<Rightarrow> nat \<Rightarrow> bool"
    and hash_ci :: "buffer \<Rightarrow> u64 \<Rightarrow> u64"
  assumes lower_spec: "lower p = map lower_byte p"
    and eq_ci_spec: "n \<le> length a \<Longrightarrow> n \<le> length b \<Longrightarrow>
      eq_ci a b n \<longleftrightarrow> map lower_byte (take n a) = map lower_byte (take n b)"
    and hash_lower: "hash_ci (map lower_byte p) seed = hash_ci p seed"
begin

lemma eq_ci_lower: "eq_ci a b n \<longleftrightarrow> take n (lower a) = take n (lower b)"
  if "n \<le> length a" "n \<le> length b"
  using that by (simp add: eq_ci_spec lower_spec take_map)

lemma eq_ci_hash:
  assumes "n \<le> length a" and "n \<le> length b" and "eq_ci a b n"
  shows "hash_ci (take n a) seed = hash_ci (take n b) seed"
  using assms hash_lower [of "take n a" seed] hash_lower [of "take n b" seed]
  by (simp add: eq_ci_spec)

lemma lower_twice: "lower (lower p) = lower p"
  by (simp add: lower_spec)

end

interpretation scalar: simd_backend elpis_scalar_lower elpis_scalar_eq_ci elpis_scalar_hash_ci
  by unfold_locales (simp_all add: elpis_scalar_lower_eq elpis_scalar_eq_ci_eq elpis_scalar_hash_ci_lower)

interpretation inline: simd_backend elpis_lower_pad16 elpis_eq_ci elpis_scalar_hash_ci
  by unfold_locales (simp_all add: elpis_lower_pad16_eq elpis_eq_ci_eq elpis_scalar_hash_ci_lower)

interpretation sse2: simd_backend elpis_sse2_lower elpis_sse2_eq_ci elpis_sse2_hash_ci
  by unfold_locales
    (simp_all add: elpis_sse2_lower_eq elpis_sse2_eq_ci_eq elpis_sse2_hash_ci_eq elpis_scalar_hash_ci_lower)

section \<open>Properties\<close>

text \<open>
  Property C22.  The kernels of every backend compute the byte-at-a-time definition: both
  lowercase kernels map each of \<open>'A'..'Z'\<close> to its lower case and keep every other byte, and the
  scalar and the SSE2 hash are the same function.
\<close>

theorem kernels_agree:
  "elpis_scalar_lower p = map lower_byte p \<and> elpis_sse2_lower p = map lower_byte p \<and>
   elpis_lower_pad16 p = map lower_byte p \<and>
   elpis_sse2_hash_ci p seed = elpis_scalar_hash_ci p seed"
  by (simp add: elpis_scalar_lower_eq elpis_sse2_lower_eq elpis_lower_pad16_eq elpis_sse2_hash_ci_eq)


text \<open>
  Property C24.  Two byte ranges that compare equal without regard to case have the same hash, so
  a table keyed by the hash never files one name under two hashes.
\<close>

theorem eq_ci_same_hash:
  assumes "n \<le> length a" and "n \<le> length b" and "elpis_eq_ci a b n"
  shows "elpis_scalar_hash_ci (take n a) seed = elpis_scalar_hash_ci (take n b) seed"
  by (rule inline.eq_ci_hash [OF assms])

theorem eq_ci_same_hash_witness:
  "elpis_eq_ci [0x41, 0x62] [0x61, 0x42] 2 \<and>
   elpis_scalar_hash_ci (take 2 [0x41, 0x62]) 7 = elpis_scalar_hash_ci (take 2 [0x61, 0x42]) 7"
proof -
  have e: "elpis_eq_ci [0x41, 0x62] [0x61, 0x42] 2"
    by (simp add: elpis_eq_ci_eq lower_byte_def word_le_nat_alt)
  show ?thesis using e eq_ci_same_hash [OF _ _ e, of 7] by simp
qed

end
