(* ===== verification/Elpis_Name.thy ===== *)
theory Elpis_Name
  imports Elpis_Simd "HOL-Library.List_Lexorder"
begin

unbundle bit_operations_syntax

text \<open>
  Owner names, \<open>src/dns/name.c\<close> and \<open>include/elpis/name.h\<close>.  A name is the C structure: its wire
  length, its label count and its wire octets; \<open>nd\<close> is the part \<open>d[0..len)\<close> of the array (what
  follows is zero padding for the vector kernel and is never read as part of the name).

  After the translation of the functions come the label view (\<open>wire\<close>, \<open>name_of\<close>,
  \<open>wf_name\<close>: the names the parsers may produce), the refinement of each operation to an operation
  on lists of labels, and the properties.
\<close>

section \<open>Definitions\<close>

abbreviation ELPIS_MAX_NAME :: nat where "ELPIS_MAX_NAME \<equiv> 255"
abbreviation ELPIS_MAX_LABEL :: nat where "ELPIS_MAX_LABEL \<equiv> 63"
abbreviation ELPIS_MAX_LABELS :: nat where "ELPIS_MAX_LABELS \<equiv> 128"

record elpis_name =
  nlen :: nat
  nlabels :: nat
  nd :: buffer

definition elpis_name_root :: elpis_name where
  "elpis_name_root = \<lparr>nlen = 1, nlabels = 0, nd = [0]\<rparr>"

definition elpis_name_init_root :: elpis_name where
  "elpis_name_init_root = \<lparr>nlen = 1, nlabels = 0, nd = [0]\<rparr>"

definition elpis_name_is_root :: "elpis_name \<Rightarrow> bool" where
  "elpis_name_is_root n \<longleftrightarrow> nlen n = 1"

text \<open>An octet of the array; past the name it is the zero padding.\<close>

definition dget :: "elpis_name \<Rightarrow> nat \<Rightarrow> byte" where
  "dget n i = (if i < length (nd n) then nd n ! i else 0)"

subsection \<open>Wire parsing\<close>

text \<open>
  The loop of \<open>elpis_name_parse\<close>: \<open>d\<close> holds the octets written so far (\<open>out\<close> is its length),
  \<open>first_end\<close> is 0 until the in-message end of the name is known.
\<close>

function name_parse_loop ::
  "buffer \<Rightarrow> nat \<Rightarrow> nat \<Rightarrow> nat \<Rightarrow> nat \<Rightarrow> nat \<Rightarrow> buffer \<Rightarrow>
     (elpis_rc \<times> elpis_drop, elpis_name \<times> nat) outcome" where
  "name_parse_loop msg off limit jumps first_end labels d =
     (if length msg \<le> off then Err (ELPIS_EFORMAT, DROP_NAME)
      else obind (fetch msg off) (\<lambda>c.
        if c AND 0xC0 = 0xC0 then
          (if length msg \<le> off + 1 then Err (ELPIS_EFORMAT, DROP_NAME)
           else obind (fetch msg (off + 1)) (\<lambda>c1.
             let target = unat (push_bit 8 (ucast (c AND 0x3F)) OR ucast c1 :: u16);
                 fe = (if first_end = 0 then off + 2 else first_end)
             in if limit \<le> target then Err (ELPIS_EFORMAT, DROP_COMPRESS)
                else if ELPIS_MAX_LABELS < jumps + 1 then Err (ELPIS_EFORMAT, DROP_COMPRESS)
                else name_parse_loop msg target target (jumps + 1) fe labels d))
        else if c AND 0xC0 \<noteq> 0 then Err (ELPIS_EFORMAT, DROP_NAME)
        else if c = 0 then
          (if ELPIS_MAX_NAME < length d + 1 then Err (ELPIS_EFORMAT, DROP_NAME)
           else let d' = d @ [0]; fe = (if first_end = 0 then off + 1 else first_end)
                in Ok (\<lparr>nlen = u8 (length d'), nlabels = u8 labels, nd = d'\<rparr>, fe))
        else if ELPIS_MAX_LABEL < unat c then Err (ELPIS_EFORMAT, DROP_NAME)
        else if length msg < off + 1 + unat c then Err (ELPIS_EFORMAT, DROP_NAME)
        else if ELPIS_MAX_NAME < length d + 1 + unat c + 1 then Err (ELPIS_EFORMAT, DROP_NAME)
        else if ELPIS_MAX_LABELS < labels + 1 then Err (ELPIS_EFORMAT, DROP_NAME)
        else obind (fetch_bytes msg (off + 1) (unat c)) (\<lambda>l.
          name_parse_loop msg (off + 1 + unat c) limit jumps first_end (labels + 1)
            (d @ c # l))))"
  by pat_completeness auto
termination
  by (relation "measures [\<lambda>(msg, off, limit, jumps, fe, labels, d). limit,
                          \<lambda>(msg, off, limit, jumps, fe, labels, d). 256 - length d]")
     (auto simp: fetch_bytes_def split: if_splits)

definition elpis_name_parse ::
  "buffer \<Rightarrow> nat \<Rightarrow> (elpis_rc \<times> elpis_drop, elpis_name \<times> nat) outcome" where
  "elpis_name_parse msg off = name_parse_loop msg off off 0 0 0 []"

function name_parse_nocomp_loop ::
  "buffer \<Rightarrow> nat \<Rightarrow> nat \<Rightarrow> buffer \<Rightarrow> (elpis_rc, elpis_name \<times> nat) outcome" where
  "name_parse_nocomp_loop p off labels d =
     (if length p \<le> off then Err ELPIS_EFORMAT
      else obind (fetch p off) (\<lambda>c.
        if c AND 0xC0 \<noteq> 0 then Err ELPIS_EFORMAT
        else if c = 0 then
          (if ELPIS_MAX_NAME < length d + 1 then Err ELPIS_EFORMAT
           else let d' = d @ [0]
                in Ok (\<lparr>nlen = u8 (length d'), nlabels = u8 labels, nd = d'\<rparr>, off + 1))
        else if ELPIS_MAX_LABEL < unat c \<or> length p < off + 1 + unat c then Err ELPIS_EFORMAT
        else if ELPIS_MAX_NAME < length d + 1 + unat c + 1 then Err ELPIS_EFORMAT
        else if ELPIS_MAX_LABELS < labels + 1 then Err ELPIS_EFORMAT
        else obind (fetch_bytes p (off + 1) (unat c)) (\<lambda>l.
          name_parse_nocomp_loop p (off + 1 + unat c) (labels + 1) (d @ c # l))))"
  by pat_completeness auto
termination
  by (relation "measure (\<lambda>(p, off, labels, d). 256 - length d)") auto

definition elpis_name_parse_nocomp :: "buffer \<Rightarrow> (elpis_rc, elpis_name \<times> nat) outcome" where
  "elpis_name_parse_nocomp p = name_parse_nocomp_loop p 0 0 []"

subsection \<open>Presentation format\<close>

text \<open>A C string is the list of its characters; reading past the last one finds the terminator.\<close>

definition sget :: "buffer \<Rightarrow> nat \<Rightarrow> byte" where
  "sget s i = (if i < length s then s ! i else 0)"

definition is_digit :: "byte \<Rightarrow> bool" where
  "is_digit c \<longleftrightarrow> 0x30 \<le> c \<and> c \<le> 0x39"

text \<open>
  The escape after a backslash: the octet it stands for and the rest of the text, \<open>None\<close> where
  the source returns \<open>ELPIS_EFORMAT\<close>.
\<close>

definition read_escape :: "buffer \<Rightarrow> (byte \<times> buffer) option" where
  "read_escape s =
     (let c0 = sget s 0 in
      if is_digit c0 then
        (if \<not> is_digit (sget s 1) \<or> \<not> is_digit (sget s 2) then None
         else let v = (unat (sget s 0) - 48) * 100 + (unat (sget s 1) - 48) * 10 +
                      (unat (sget s 2) - 48)
              in if 255 < v then None else Some (word_of_nat v, drop 3 s))
      else if c0 = 0 then None
      else Some (c0, drop 1 s))"

lemma read_escape_shorter: "read_escape s = Some (ch, s') \<Longrightarrow> length s' < length s"
  by (cases s) (auto simp: read_escape_def sget_def is_digit_def Let_def word_le_nat_alt split: if_splits)

function from_text_loop ::
  "buffer \<Rightarrow> buffer \<Rightarrow> nat \<Rightarrow> nat \<Rightarrow> (buffer \<times> nat) option" where
  "from_text_loop s d lenpos labels =
     (case s of [] \<Rightarrow> Some (d, lenpos)
      | ch # s1 \<Rightarrow>
        if ch = 0x2E then
          (if d ! lenpos = 0 then None
           else if ELPIS_MAX_LABELS < labels + 1 then None
           else if s1 = [] then Some (d, lenpos)
           else if ELPIS_MAX_NAME \<le> length d + 1 then None
           else from_text_loop s1 (d @ [0]) (length d) (labels + 1))
        else
          (case (if ch = 0x5C then read_escape s1 else Some (ch, s1)) of None \<Rightarrow> None
           | Some (c, s2) \<Rightarrow>
             if ELPIS_MAX_LABEL \<le> unat (d ! lenpos) then None
             else if ELPIS_MAX_NAME < length d + 2 then None
             else from_text_loop s2 ((d @ [c]) [lenpos := d ! lenpos + 1]) lenpos labels))"
  by pat_completeness auto
termination
  by (relation "measure (\<lambda>(s, d, lenpos, labels). length s)")
     (auto dest: read_escape_shorter split: if_splits)

text \<open>Counting the labels of the wire form: the count and where the walk ended.\<close>

function count_labels :: "buffer \<Rightarrow> nat \<Rightarrow> nat \<Rightarrow> nat \<times> nat" where
  "count_labels d i labels =
     (if i < length d then count_labels d (i + 1 + unat (d ! i)) (labels + 1) else (labels, i))"
  by pat_completeness auto
termination
  by (relation "measure (\<lambda>(d, i, labels). length d - i)") auto

definition elpis_name_from_text :: "buffer \<Rightarrow> (elpis_rc, elpis_name) outcome" where
  "elpis_name_from_text s =
     (if s = [0x2E] then Ok elpis_name_init_root
      else if s = [] then Err ELPIS_EFORMAT
      else (case from_text_loop s [0] 0 0 of None \<Rightarrow> Err ELPIS_EFORMAT
            | Some (d, lenpos) \<Rightarrow>
              if d ! lenpos = 0 then Err ELPIS_EFORMAT
              else let (labels, i) = count_labels d 0 0 in
                if i \<noteq> length d then Err ELPIS_EFORMAT
                else if ELPIS_MAX_NAME < length d + 1 then Err ELPIS_EFORMAT
                else let d' = d @ [0]
                     in Ok \<lparr>nlen = u8 (length d'), nlabels = u8 labels, nd = d'\<rparr>))"

text \<open>
  One character of \<open>elpis_name_to_text\<close>: what is appended for it.  The caller checks that it
  fits: \<open>o + (octets) >= sz\<close> is truncation.
\<close>

definition text_of_byte :: "byte \<Rightarrow> buffer" where
  "text_of_byte c =
     (if c \<in> {0x2E, 0x5C, 0x3B, 0x28, 0x29, 0x22, 0x40, 0x24} then [0x5C, c]
      else if 0x20 < c \<and> c < 0x7F then [c]
      else [0x5C, 48 + c div 100, 48 + (c div 10) mod 10, 48 + c mod 10])"

fun text_of_label :: "buffer \<Rightarrow> nat \<Rightarrow> buffer \<Rightarrow> (elpis_rc, buffer) outcome" where
  "text_of_label [] sz buf = Ok buf"
| "text_of_label (c # cs) sz buf =
     (let t = text_of_byte c in
      if sz \<le> length buf + length t then Err ELPIS_ETRUNC
      else text_of_label cs sz (buf @ t))"

function to_text_loop :: "elpis_name \<Rightarrow> nat \<Rightarrow> nat \<Rightarrow> buffer \<Rightarrow> (elpis_rc, buffer) outcome" where
  "to_text_loop n i sz buf =
     (if \<not> i < nlen n then Ok buf
      else obind (fetch (nd n) i) (\<lambda>l.
        if l = 0 then Ok buf
        else obind (fetch_bytes (nd n) (i + 1) (unat l)) (\<lambda>cs.
          obind (text_of_label cs sz buf) (\<lambda>buf'.
            if sz \<le> length buf' + 1 then Err ELPIS_ETRUNC
            else to_text_loop n (i + 1 + unat l) sz (buf' @ [0x2E])))))"
  by pat_completeness auto
termination
  by (relation "measure (\<lambda>(n, i, sz, buf). nlen n - i)") auto

definition elpis_name_to_text :: "elpis_name \<Rightarrow> nat \<Rightarrow> (elpis_rc, buffer) outcome" where
  "elpis_name_to_text n sz =
     (if sz < 2 then Err ELPIS_ETRUNC
      else if nlen n \<le> 1 then Ok [0x2E]
      else to_text_loop n 0 sz [])"

subsection \<open>Folding, hashing, comparison\<close>

definition elpis_name_lower :: "elpis_name \<Rightarrow> elpis_name" where
  "elpis_name_lower n =
     (let m = ((nlen n + 15) div 16) * 16;
          padded = nd n @ replicate (m - length (nd n)) 0
      in n\<lparr>nd := take (nlen n) (elpis_lower_pad16 (take m padded))\<rparr>)"

definition elpis_name_hash :: "elpis_name \<Rightarrow> u64" where
  "elpis_name_hash n = elpis_scalar_hash_ci (take (nlen n) (nd n)) 0x9E3779B97F4A7C15"

definition elpis_name_eq :: "elpis_name \<Rightarrow> elpis_name \<Rightarrow> bool" where
  "elpis_name_eq a b \<longleftrightarrow>
     (if nlen a \<noteq> nlen b then False else elpis_eq_ci (nd a) (nd b) (nlen a))"

definition elpis_name_parent :: "elpis_name \<Rightarrow> elpis_name option" where
  "elpis_name_parent n =
     (if nlen n \<le> 1 then None
      else let l = unat (dget n 0) in
        if nlen n + 1 \<le> 1 + l then None
        else Some \<lparr>nlen = u8 (nlen n - 1 - l), nlabels = u8 (nlabels n + 255),
                   nd = take (nlen n - 1 - l) (drop (1 + l) (nd n))\<rparr>)"

fun suffix_skip :: "elpis_name \<Rightarrow> nat \<Rightarrow> nat \<Rightarrow> nat option" where
  "suffix_skip n i 0 = Some i"
| "suffix_skip n i (Suc k) =
     (if nlen n \<le> i \<or> dget n i = 0 then None
      else suffix_skip n (i + 1 + unat (dget n i)) k)"

definition elpis_name_suffix :: "elpis_name \<Rightarrow> nat \<Rightarrow> elpis_name option" where
  "elpis_name_suffix n keep =
     (if nlabels n \<le> keep then Some n
      else (case suffix_skip n 0 (nlabels n - keep) of None \<Rightarrow> None
            | Some i \<Rightarrow>
              if nlen n \<le> i then None
              else Some \<lparr>nlen = u8 (nlen n - i), nlabels = u8 keep,
                         nd = take (nlen n - i) (drop i (nd n))\<rparr>))"

definition elpis_name_covers :: "elpis_name \<Rightarrow> elpis_name \<Rightarrow> bool" where
  "elpis_name_covers zone name \<longleftrightarrow>
     (if nlabels name < nlabels zone then False
      else (case elpis_name_suffix name (nlabels zone) of None \<Rightarrow> False
            | Some tail \<Rightarrow> elpis_name_eq tail zone))"

text \<open>Walking label boundaries up to \<open>off\<close>; \<open>None\<close> when a root label comes first.\<close>

function boundary_walk :: "elpis_name \<Rightarrow> nat \<Rightarrow> nat \<Rightarrow> nat option" where
  "boundary_walk sub i off =
     (if i < off then
        (if dget sub i = 0 then None else boundary_walk sub (i + 1 + unat (dget sub i)) off)
      else Some i)"
  by pat_completeness auto
termination
  by (relation "measure (\<lambda>(sub, i, off). off - i)") auto

definition elpis_name_is_subdomain :: "elpis_name \<Rightarrow> elpis_name \<Rightarrow> bool" where
  "elpis_name_is_subdomain sub parent \<longleftrightarrow>
     (if nlen sub < nlen parent then False
      else if nlen parent = 1 then True
      else if nlabels sub < nlabels parent then False
      else let off = nlen sub - nlen parent in
        (case boundary_walk sub 0 off of None \<Rightarrow> False
         | Some i \<Rightarrow>
           if i \<noteq> off then False
           else elpis_eq_ci (drop off (nd sub)) (nd parent) (nlen parent)))"

lemma parent_shorter: "elpis_name_parent n = Some p \<Longrightarrow> nlen p < nlen n"
  by (auto simp: elpis_name_parent_def Let_def u8_def split: if_splits)

function trim_labels :: "elpis_name \<Rightarrow> nat \<Rightarrow> elpis_name" where
  "trim_labels x k =
     (if k < nlabels x then
        (case elpis_name_parent x of None \<Rightarrow> x | Some p \<Rightarrow> trim_labels p k)
      else x)"
  by pat_completeness auto
termination
  by (relation "measure (\<lambda>(x, k). nlen x)") (auto dest: parent_shorter)

function climb_common :: "elpis_name \<Rightarrow> elpis_name \<Rightarrow> nat" where
  "climb_common x y =
     (if 1 < nlen x \<and> 1 < nlen y then
        (if elpis_name_eq x y then nlabels x
         else (case elpis_name_parent x of None \<Rightarrow> 0
               | Some px \<Rightarrow>
                 (case elpis_name_parent y of None \<Rightarrow> 0 | Some py \<Rightarrow> climb_common px py)))
      else 0)"
  by pat_completeness auto
termination
  by (relation "measure (\<lambda>(x, y). nlen x)") (auto dest: parent_shorter)

definition elpis_name_common_labels :: "elpis_name \<Rightarrow> elpis_name \<Rightarrow> nat" where
  "elpis_name_common_labels a b =
     (let x = trim_labels a (nlabels b); y = trim_labels b (nlabels x) in climb_common x y)"

definition elpis_name_prepend :: "buffer \<Rightarrow> elpis_name \<Rightarrow> (elpis_rc, elpis_name) outcome" where
  "elpis_name_prepend label parent =
     (let llen = length label in
      if llen = 0 \<or> ELPIS_MAX_LABEL < llen then Err ELPIS_EFORMAT
      else if ELPIS_MAX_NAME < 1 + llen + nlen parent then Err ELPIS_EFORMAT
      else if ELPIS_MAX_LABELS < nlabels parent + 1 then Err ELPIS_EFORMAT
      else Ok \<lparr>nlen = u8 (1 + llen + nlen parent), nlabels = u8 (nlabels parent + 1),
               nd = word_of_nat llen # label @ take (nlen parent) (nd parent)\<rparr>)"

definition elpis_name_substitute ::
  "elpis_name \<Rightarrow> elpis_name \<Rightarrow> elpis_name \<Rightarrow> (elpis_rc, elpis_name) outcome" where
  "elpis_name_substitute n owner target =
     (if \<not> elpis_name_is_subdomain n owner then Err ELPIS_EFORMAT
      else let prefix = nlen n - nlen owner; prefix_labels = nlabels n - nlabels owner in
        if ELPIS_MAX_NAME < prefix + nlen target then Err ELPIS_EFORMAT
        else if ELPIS_MAX_LABELS < prefix_labels + nlabels target then Err ELPIS_EFORMAT
        else Ok \<lparr>nlen = u8 (prefix + nlen target), nlabels = u8 (prefix_labels + nlabels target),
                 nd = take prefix (nd n) @ take (nlen target) (nd target)\<rparr>)"

text \<open>\<open>elpis_name_canon_cmp\<close>: the label offsets, then the labels from the right.\<close>

function label_offsets :: "elpis_name \<Rightarrow> nat \<Rightarrow> nat list \<Rightarrow> nat list" where
  "label_offsets a i ao =
     (if i < nlen a \<and> dget a i \<noteq> 0 \<and> length ao < ELPIS_MAX_LABELS
      then label_offsets a (i + 1 + unat (dget a i)) (ao @ [i])
      else ao)"
  by pat_completeness auto
termination
  by (relation "measure (\<lambda>(a, i, ao). nlen a - i)") auto

text \<open>The octets of two labels up to the shorter length: the first difference decides.\<close>

fun cmp_octets :: "nat \<Rightarrow> nat \<Rightarrow> elpis_name \<Rightarrow> nat \<Rightarrow> elpis_name \<Rightarrow> nat \<Rightarrow> int" where
  "cmp_octets 0 j a pa b pb = 0"
| "cmp_octets (Suc m) j a pa b pb =
     (let ca = lower_byte (dget a (pa + 1 + j)); cb = lower_byte (dget b (pb + 1 + j)) in
      if ca \<noteq> cb then (if ca < cb then -1 else 1) else cmp_octets m (Suc j) a pa b pb)"

function cmp_labels :: "elpis_name \<Rightarrow> nat list \<Rightarrow> elpis_name \<Rightarrow> nat list \<Rightarrow> nat \<Rightarrow> int" where
  "cmp_labels a ao b bo k =
     (if k < length ao \<and> k < length bo then
        let pa = ao ! (length ao - 1 - k); pb = bo ! (length bo - 1 - k);
            la = unat (dget a pa); lb = unat (dget b pb);
            r = cmp_octets (if la < lb then la else lb) 0 a pa b pb
        in if r \<noteq> 0 then r
           else if la \<noteq> lb then (if la < lb then -1 else 1)
           else cmp_labels a ao b bo (Suc k)
      else if length ao = length bo then 0
      else if length ao < length bo then -1 else 1)"
  by pat_completeness auto
termination
  by (relation "measure (\<lambda>(a, ao, b, bo, k). length ao - k)") auto

definition elpis_name_canon_cmp :: "elpis_name \<Rightarrow> elpis_name \<Rightarrow> int" where
  "elpis_name_canon_cmp a b =
     cmp_labels a (label_offsets a 0 []) b (label_offsets b 0 []) 0"

definition elpis_name_is_wildcard :: "elpis_name \<Rightarrow> bool" where
  "elpis_name_is_wildcard n \<longleftrightarrow> 3 \<le> nlen n \<and> dget n 0 = 1 \<and> dget n 1 = 0x2A"

declare name_parse_loop.simps [simp del] name_parse_nocomp_loop.simps [simp del]
  from_text_loop.simps [simp del] count_labels.simps [simp del] to_text_loop.simps [simp del]
  boundary_walk.simps [simp del] trim_labels.simps [simp del] climb_common.simps [simp del]
  label_offsets.simps [simp del] cmp_labels.simps [simp del]

section \<open>The label view\<close>

type_synonym label = buffer

definition wire_label :: "label \<Rightarrow> buffer" where
  "wire_label l = word_of_nat (length l) # l"

definition wire_prefix :: "label list \<Rightarrow> buffer" where
  "wire_prefix ls = concat (map wire_label ls)"

definition wire :: "label list \<Rightarrow> buffer" where
  "wire ls = wire_prefix ls @ [0]"

definition valid_labels :: "label list \<Rightarrow> bool" where
  "valid_labels ls \<longleftrightarrow> list_all (\<lambda>l. 1 \<le> length l \<and> length l \<le> 63) ls"

definition name_of :: "label list \<Rightarrow> elpis_name" where
  "name_of ls = \<lparr>nlen = length (wire ls), nlabels = length ls, nd = wire ls\<rparr>"

text \<open>Reading the labels off the wire octets.\<close>

function split_labels :: "buffer \<Rightarrow> label list" where
  "split_labels d =
     (case d of [] \<Rightarrow> []
      | c # r \<Rightarrow> if c = 0 then [] else take (unat c) r # split_labels (drop (unat c) r))"
  by pat_completeness auto
termination
  by (relation "measure length") auto

declare split_labels.simps [simp del]

definition name_labels :: "elpis_name \<Rightarrow> label list" where
  "name_labels n = split_labels (nd n)"

definition ok_labels :: "label list \<Rightarrow> bool" where
  "ok_labels ls \<longleftrightarrow> valid_labels ls \<and> length (wire ls) \<le> ELPIS_MAX_NAME"

definition wf_name :: "elpis_name \<Rightarrow> bool" where
  "wf_name n \<longleftrightarrow> ok_labels (name_labels n) \<and> n = name_of (name_labels n)"

definition fold_label :: "label \<Rightarrow> label" where
  "fold_label l = map lower_byte l"

definition fold_labels :: "label list \<Rightarrow> label list" where
  "fold_labels ls = map fold_label ls"

lemma valid_labels_simps [simp]:
  "valid_labels []"
  "valid_labels (l # ls) \<longleftrightarrow> 1 \<le> length l \<and> length l \<le> 63 \<and> valid_labels ls"
  "valid_labels (xs @ ys) \<longleftrightarrow> valid_labels xs \<and> valid_labels ys"
  by (auto simp: valid_labels_def)

lemma valid_labels_drop: "valid_labels ls \<Longrightarrow> valid_labels (drop k ls)"
  by (metis append_take_drop_id valid_labels_simps(3))

lemma length_wire_label [simp]: "length (wire_label l) = Suc (length l)"
  by (simp add: wire_label_def)

lemma wire_prefix_simps [simp]:
  "wire_prefix [] = []"
  "wire_prefix (l # ls) = wire_label l @ wire_prefix ls"
  "wire_prefix (xs @ ys) = wire_prefix xs @ wire_prefix ys"
  by (simp_all add: wire_prefix_def)

lemma wire_simps [simp]:
  "wire [] = [0]"
  "wire (l # ls) = wire_label l @ wire ls"
  by (simp_all add: wire_def)

lemma wire_append: "wire (xs @ ys) = wire_prefix xs @ wire ys"
  by (simp add: wire_def)

lemma length_wire: "length (wire ls) = Suc (length (wire_prefix ls))"
  by (simp add: wire_def)

lemma wire_not_Nil [simp]: "wire ls \<noteq> []"
  by (simp add: wire_def)

lemma length_wire_prefix_ge: "valid_labels ls \<Longrightarrow> 2 * length ls \<le> length (wire_prefix ls)"
  by (induction ls) auto

lemma ok_labels_count: "ok_labels ls \<Longrightarrow> length ls \<le> 127"
  using length_wire_prefix_ge [of ls] by (auto simp: ok_labels_def length_wire)

lemma label_byte:
  assumes "1 \<le> length l" and "length l \<le> 63"
  shows "unat (word_of_nat (length l) :: byte) = length l" and "(word_of_nat (length l) :: byte) \<noteq> 0"
proof -
  show u: "unat (word_of_nat (length l) :: byte) = length l" using assms by simp
  show "(word_of_nat (length l) :: byte) \<noteq> 0"
    using u assms by (metis not_one_le_zero unsigned_0)
qed

lemma split_labels_wire: "valid_labels ls \<Longrightarrow> split_labels (wire ls @ rest) = ls"
proof (induction ls)
  case Nil
  then show ?case by (simp add: split_labels.simps [of "0 # rest"])
next
  case (Cons l ls)
  then show ?case
    by (simp add: wire_label_def label_byte split_labels.simps [of "word_of_nat (length l) # l @ wire ls @ rest"])
qed

lemma wire_inj: "valid_labels xs \<Longrightarrow> valid_labels ys \<Longrightarrow> wire xs = wire ys \<longleftrightarrow> xs = ys"
  by (metis append_Nil2 split_labels_wire)

lemma name_labels_name_of [simp]: "valid_labels ls \<Longrightarrow> name_labels (name_of ls) = ls"
  using split_labels_wire [of ls "[]"] by (simp add: name_labels_def name_of_def)

lemma name_of_sel [simp]:
  "nlen (name_of ls) = length (wire ls)" "nlabels (name_of ls) = length ls" "nd (name_of ls) = wire ls"
  by (simp_all add: name_of_def)

lemma ok_labels_valid [dest]: "ok_labels ls \<Longrightarrow> valid_labels ls"
  by (simp add: ok_labels_def)

lemma ok_labels_len: "ok_labels ls \<Longrightarrow> length (wire ls) \<le> 255"
  by (simp add: ok_labels_def)

lemma wf_name_of [simp]: "ok_labels ls \<Longrightarrow> wf_name (name_of ls)"
  by (simp add: wf_name_def ok_labels_valid)

lemma wf_nameE: "wf_name n \<Longrightarrow> (\<And>ls. n = name_of ls \<Longrightarrow> ok_labels ls \<Longrightarrow> P) \<Longrightarrow> P"
  by (auto simp: wf_name_def)

lemma ok_labels_Nil [simp]: "ok_labels []"
  by (simp add: ok_labels_def)

lemma ok_labels_Cons: "ok_labels (l # ls) \<Longrightarrow> ok_labels ls"
  by (simp add: ok_labels_def)

lemma ok_labels_append: "ok_labels (xs @ ys) \<Longrightarrow> ok_labels ys"
  by (simp add: ok_labels_def wire_append)

lemma ok_labels_drop: "ok_labels ls \<Longrightarrow> ok_labels (drop k ls)"
  by (metis append_take_drop_id ok_labels_append)

lemma u8_small [simp]: "x < 256 \<Longrightarrow> u8 x = x"
  by (simp add: u8_def)

lemma dget_Cons: "nd n = c # r \<Longrightarrow> dget n 0 = c"
  by (simp add: dget_def)

text \<open>Octet access at a label boundary.\<close>

lemma dget_boundary:
  "dget (name_of (xs @ ys)) (length (wire_prefix xs) + i) =
     (if i < length (wire ys) then wire ys ! i else 0)"
  by (auto simp: dget_def wire_append nth_append)

lemma dget_boundary_Nil [simp]: "dget (name_of xs) (length (wire_prefix xs)) = 0"
  using dget_boundary [of xs "[]" 0] by simp

lemma dget_boundary_Cons [simp]:
  "dget (name_of (xs @ l # ys)) (length (wire_prefix xs)) = word_of_nat (length l)"
  using dget_boundary [of xs "l # ys" 0] by (simp add: wire_label_def)

subsection \<open>Folding\<close>

lemma length_fold_label [simp]: "length (fold_label l) = length l"
  by (simp add: fold_label_def)

lemma fold_labels_simps [simp]:
  "fold_labels [] = []"
  "fold_labels (l # ls) = fold_label l # fold_labels ls"
  "fold_labels (xs @ ys) = fold_labels xs @ fold_labels ys"
  "length (fold_labels ls) = length ls"
  by (simp_all add: fold_labels_def)

lemma fold_labels_idem [simp]: "fold_labels (fold_labels ls) = fold_labels ls"
  by (simp add: fold_labels_def fold_label_def o_def)

lemma valid_fold_labels [simp]: "valid_labels (fold_labels ls) \<longleftrightarrow> valid_labels ls"
  by (simp add: valid_labels_def fold_labels_def list_all_iff)

lemma lower_len_byte: "length l \<le> 63 \<Longrightarrow> lower_byte (word_of_nat (length l)) = word_of_nat (length l)"
  by (auto simp: lower_byte_def word_le_nat_alt)

lemma lower_wire: "valid_labels ls \<Longrightarrow> map lower_byte (wire ls) = wire (fold_labels ls)"
  by (induction ls) (auto simp: wire_label_def fold_label_def lower_len_byte)

lemma length_wire_fold [simp]: "length (wire (fold_labels ls)) = length (wire ls)"
  by (induction ls) auto

lemma ok_fold_labels [simp]: "ok_labels (fold_labels ls) \<longleftrightarrow> ok_labels ls"
  by (simp add: ok_labels_def)

section \<open>Parsing\<close>

definition pointer_target :: "buffer \<Rightarrow> nat \<Rightarrow> nat" where
  "pointer_target msg off = 256 * (unat (msg ! off) - 192) + unat (msg ! (off + 1))"

lemma byte_zero_iff: "(c :: byte) = 0 \<longleftrightarrow> unat c = 0"
  by (simp add: unat_eq_zero)

lemma and_3F: "192 \<le> unat c \<Longrightarrow> unat (c AND 0x3F :: byte) = unat c - 192"
proof -
  have "c AND 0x3F = take_bit 6 c" by (simp add: take_bit_eq_mask mask_eq_exp_minus_1)
  then have "unat (c AND 0x3F) = unat c mod 64"
    by (simp only: unsigned_take_bit_eq) (simp add: take_bit_eq_mod)
  moreover assume "192 \<le> unat c"
  then obtain d where "unat c = 192 + d" using le_Suc_ex by blast
  moreover have "unat c < 256" by (rule unat_byte_less)
  ultimately show ?thesis using mod_mult_self2 [of d 64 3] by (simp add: add.commute)
qed

lemma name_parse_loop_step:
  "name_parse_loop msg off limit jumps fe labels d =
     (if length msg \<le> off then Err (ELPIS_EFORMAT, DROP_NAME)
      else if 192 \<le> unat (msg ! off) then
        (if length msg \<le> off + 1 then Err (ELPIS_EFORMAT, DROP_NAME)
         else if limit \<le> pointer_target msg off \<or> 128 \<le> jumps then Err (ELPIS_EFORMAT, DROP_COMPRESS)
         else name_parse_loop msg (pointer_target msg off) (pointer_target msg off) (Suc jumps)
                (if fe = 0 then off + 2 else fe) labels d)
      else if msg ! off = 0 \<and> length d < 255 then
        Ok (\<lparr>nlen = u8 (length d + 1), nlabels = u8 labels, nd = d @ [0]\<rparr>,
            if fe = 0 then off + 1 else fe)
      else if 0 < unat (msg ! off) \<and> unat (msg ! off) < 64 \<and> off + 1 + unat (msg ! off) \<le> length msg \<and>
              length d + unat (msg ! off) + 2 \<le> 255 \<and> labels < 128 then
        name_parse_loop msg (off + 1 + unat (msg ! off)) limit jumps fe (Suc labels)
          (d @ msg ! off # take (unat (msg ! off)) (drop (off + 1) msg))
      else Err (ELPIS_EFORMAT, DROP_NAME))"
proof -
  let ?c = "msg ! off"
  note u = name_parse_loop.simps [of msg off limit jumps fe labels d]
  consider "length msg \<le> off" | "off < length msg" "192 \<le> unat ?c" "length msg \<le> off + 1"
    | "off < length msg" "192 \<le> unat ?c" "off + 1 < length msg"
    | "off < length msg" "unat ?c < 192" "64 \<le> unat ?c"
    | "off < length msg" "unat ?c = 0"
    | "off < length msg" "0 < unat ?c" "unat ?c < 64"
    by linarith
  then show ?thesis
  proof cases
    case 3
    then show ?thesis
      by (simp add: u Let_def unat_join16 and_3F pointer_target_def)
  next
    case 4
    then have "?c \<noteq> 0" by auto
    with 4 show ?thesis by (simp add: u)
  next
    case 5
    then have "?c = 0" by (simp add: byte_zero_iff)
    with 5 show ?thesis by (simp add: u)
  next
    case 6
    then have "?c \<noteq> 0" by auto
    with 6 show ?thesis by (simp add: u not_le)
  qed (simp_all add: u)
qed

text \<open>A successful parse, step by step.\<close>

inductive parses :: "buffer \<Rightarrow> nat \<Rightarrow> nat \<Rightarrow> nat \<Rightarrow> nat \<Rightarrow> nat \<Rightarrow> buffer \<Rightarrow> elpis_name \<Rightarrow> nat \<Rightarrow> bool"
  for msg where
  root: "off < length msg \<Longrightarrow> msg ! off = 0 \<Longrightarrow> length d < 255 \<Longrightarrow>
    parses msg off limit jumps fe labels d
      \<lparr>nlen = u8 (length d + 1), nlabels = u8 labels, nd = d @ [0]\<rparr> (if fe = 0 then off + 1 else fe)"
| pointer: "off + 1 < length msg \<Longrightarrow> 192 \<le> unat (msg ! off) \<Longrightarrow> pointer_target msg off < limit \<Longrightarrow>
    jumps < 128 \<Longrightarrow>
    parses msg (pointer_target msg off) (pointer_target msg off) (Suc jumps)
      (if fe = 0 then off + 2 else fe) labels d n e \<Longrightarrow>
    parses msg off limit jumps fe labels d n e"
| label: "0 < unat (msg ! off) \<Longrightarrow> unat (msg ! off) < 64 \<Longrightarrow> off + 1 + unat (msg ! off) \<le> length msg \<Longrightarrow>
    length d + unat (msg ! off) + 2 \<le> 255 \<Longrightarrow> labels < 128 \<Longrightarrow>
    parses msg (off + 1 + unat (msg ! off)) limit jumps fe (Suc labels)
      (d @ msg ! off # take (unat (msg ! off)) (drop (off + 1) msg)) n e \<Longrightarrow>
    parses msg off limit jumps fe labels d n e"

lemma parses_loop:
  "parses msg off limit jumps fe labels d n e \<Longrightarrow>
     name_parse_loop msg off limit jumps fe labels d = Ok (n, e)"
proof (induction rule: parses.induct)
  case (root off d limit jumps fe labels)
  then show ?case by (subst name_parse_loop_step) simp
next
  case (pointer off limit jumps fe labels d n e)
  then show ?case by (subst name_parse_loop_step) simp
next
  case (label off d labels limit jumps fe n e)
  then have "msg ! off \<noteq> 0" by auto
  with label show ?case by (subst name_parse_loop_step) simp
qed

lemma loop_parses:
  "name_parse_loop msg off limit jumps fe labels d = Ok (n, e) \<Longrightarrow>
     parses msg off limit jumps fe labels d n e"
proof (induction "300 * limit + (256 - length d)" arbitrary: off limit jumps fe labels d rule: less_induct)
  case less
  let ?c = "msg ! off" and ?t = "pointer_target msg off"
  consider "off + 1 < length msg" "192 \<le> unat ?c" "?t < limit" "jumps < 128"
      "name_parse_loop msg ?t ?t (Suc jumps) (if fe = 0 then off + 2 else fe) labels d = Ok (n, e)"
    | "off < length msg" "?c = 0" "length d < 255"
      "n = \<lparr>nlen = u8 (length d + 1), nlabels = u8 labels, nd = d @ [0]\<rparr>" "e = (if fe = 0 then off + 1 else fe)"
    | "0 < unat ?c" "unat ?c < 64" "off + 1 + unat ?c \<le> length msg" "length d + unat ?c + 2 \<le> 255" "labels < 128"
      "name_parse_loop msg (off + 1 + unat ?c) limit jumps fe (Suc labels)
          (d @ ?c # take (unat ?c) (drop (off + 1) msg)) = Ok (n, e)"
    using less.prems by (subst (asm) name_parse_loop_step) (auto simp: not_le split: if_splits)
  then show ?case
  proof cases
    case 1
    then show ?thesis by (auto intro!: parses.pointer [OF _ _ _ _ less.hyps])
  next
    case 2
    then show ?thesis by (simp only: parses.root)
  next
    case 3
    then show ?thesis by (auto intro!: parses.label [OF _ _ _ _ _ less.hyps])
  qed
qed

text \<open>
  What a compressed name stands for, independent of the loop: \<open>decodes msg off limit ls k e\<close> when
  the labels \<open>ls\<close> stand at \<open>off\<close>, following \<open>k\<close> pointers that each aim below the start of the
  segment they stand in (\<open>limit\<close>), and the name's own octets end at \<open>e\<close>.
\<close>

inductive decodes :: "buffer \<Rightarrow> nat \<Rightarrow> nat \<Rightarrow> label list \<Rightarrow> nat \<Rightarrow> nat \<Rightarrow> bool" for msg where
  root: "off < length msg \<Longrightarrow> msg ! off = 0 \<Longrightarrow> decodes msg off limit [] 0 (off + 1)"
| pointer: "off + 1 < length msg \<Longrightarrow> 192 \<le> unat (msg ! off) \<Longrightarrow> pointer_target msg off < limit \<Longrightarrow>
    decodes msg (pointer_target msg off) (pointer_target msg off) ls k e \<Longrightarrow>
    decodes msg off limit ls (Suc k) (off + 2)"
| label: "0 < unat (msg ! off) \<Longrightarrow> unat (msg ! off) < 64 \<Longrightarrow> off + 1 + unat (msg ! off) \<le> length msg \<Longrightarrow>
    decodes msg (off + 1 + unat (msg ! off)) limit ls k e \<Longrightarrow>
    decodes msg off limit (take (unat (msg ! off)) (drop (off + 1) msg) # ls) k e"

lemma decodes_valid: "decodes msg off limit ls k e \<Longrightarrow> valid_labels ls"
  by (induction rule: decodes.induct) auto

lemma decodes_end: "decodes msg off limit ls k e \<Longrightarrow> off < e \<and> e \<le> length msg"
  by (induction rule: decodes.induct) auto

lemma parses_decodes:
  "parses msg off limit jumps fe labels d n e \<Longrightarrow>
   \<exists>ls k e'. decodes msg off limit ls k e' \<and> jumps + k \<le> max jumps 128 \<and>
     length d + length (wire ls) \<le> 255 \<and> labels + length ls \<le> max labels 128 \<and>
     n = \<lparr>nlen = u8 (length (d @ wire ls)), nlabels = u8 (labels + length ls), nd = d @ wire ls\<rparr> \<and>
     e = (if fe = 0 then e' else fe)"
proof (induction rule: parses.induct)
  case (root off d limit jumps fe labels)
  show ?case
  proof (intro exI conjI)
    show "decodes msg off limit [] 0 (off + 1)" using root by (simp only: decodes.root)
  qed (use root in auto)
next
  case (pointer off limit jumps fe labels d n e)
  then obtain ls k e' where *: "decodes msg (pointer_target msg off) (pointer_target msg off) ls k e'"
    "Suc jumps + k \<le> 128" "length d + length (wire ls) \<le> 255" "labels + length ls \<le> max labels 128"
    "n = \<lparr>nlen = u8 (length (d @ wire ls)), nlabels = u8 (labels + length ls), nd = d @ wire ls\<rparr>"
    "e = (if (if fe = 0 then off + 2 else fe) = 0 then e' else (if fe = 0 then off + 2 else fe))"
    by (auto simp: max_def)
  have "decodes msg off limit ls (Suc k) (off + 2)"
    using pointer.hyps by (intro decodes.pointer [OF _ _ _ *(1)]) simp_all
  with * show ?case by (intro exI [of _ ls] exI [of _ "Suc k"] exI [of _ "off + 2"]) auto
next
  case (label off d labels limit jumps fe n e)
  let ?l = "take (unat (msg ! off)) (drop (off + 1) msg)"
  have len: "length ?l = unat (msg ! off)" using label by simp
  then have wl: "wire_label ?l = msg ! off # ?l" by (simp add: wire_label_def)
  from label obtain ls k e' where *: "decodes msg (off + 1 + unat (msg ! off)) limit ls k e'"
    "jumps + k \<le> max jumps 128" "length (d @ msg ! off # ?l) + length (wire ls) \<le> 255"
    "Suc labels + length ls \<le> 128"
    "n = \<lparr>nlen = u8 (length ((d @ msg ! off # ?l) @ wire ls)), nlabels = u8 (Suc labels + length ls),
          nd = (d @ msg ! off # ?l) @ wire ls\<rparr>" "e = (if fe = 0 then e' else fe)"
    by (auto simp: max_def)
  have "decodes msg off limit (?l # ls) k e'" using label * by (intro decodes.label) auto
  with * len wl show ?case by (intro exI [of _ "?l # ls"] exI [of _ k] exI [of _ e']) auto
qed

lemma decodes_parses:
  "decodes msg off limit ls k e \<Longrightarrow> jumps + k \<le> 128 \<Longrightarrow> length d + length (wire ls) \<le> 255 \<Longrightarrow>
   labels + length ls \<le> 128 \<Longrightarrow>
   parses msg off limit jumps fe labels d
     \<lparr>nlen = u8 (length (d @ wire ls)), nlabels = u8 (labels + length ls), nd = d @ wire ls\<rparr>
     (if fe = 0 then e else fe)"
proof (induction arbitrary: jumps d labels fe rule: decodes.induct)
  case (root off limit)
  then show ?case using parses.root [of off msg d limit jumps fe labels] by simp
next
  case (pointer off limit ls k e)
  have IH: "f \<noteq> 0 \<Longrightarrow> parses msg (pointer_target msg off) (pointer_target msg off) (Suc jumps) f labels d
      \<lparr>nlen = u8 (length (d @ wire ls)), nlabels = u8 (labels + length ls), nd = d @ wire ls\<rparr> f" for f
    using pointer.IH [of "Suc jumps" d labels f] pointer.prems by simp
  show ?case
    by (rule parses.pointer [OF pointer.hyps(1-3) _ IH]) (use pointer.prems in auto)
next
  case (label off limit ls k e)
  let ?l = "take (unat (msg ! off)) (drop (off + 1) msg)"
  have len: "length ?l = unat (msg ! off)" using label by simp
  then have wl: "wire_label ?l = msg ! off # ?l" by (simp add: wire_label_def)
  have "parses msg (off + 1 + unat (msg ! off)) limit jumps fe (Suc labels) (d @ msg ! off # ?l)
      \<lparr>nlen = u8 (length (d @ wire (?l # ls))), nlabels = u8 (labels + length (?l # ls)),
       nd = d @ wire (?l # ls)\<rparr> (if fe = 0 then e else fe)"
    using label.prems len label.IH [of jumps "d @ msg ! off # ?l" "Suc labels" fe] wl
    by (simp split del: if_split)
  from parses.label [OF label.hyps(1-3) _ _ this] label.prems len show ?case
    by (simp add: length_wire)
qed

lemma parse_iff:
  "elpis_name_parse msg off = Ok (n, e) \<longleftrightarrow>
     (\<exists>ls k. decodes msg off off ls k e \<and> k \<le> 128 \<and> ok_labels ls \<and> n = name_of ls)"
proof
  assume "elpis_name_parse msg off = Ok (n, e)"
  then have "parses msg off off 0 0 0 [] n e"
    by (simp add: elpis_name_parse_def loop_parses)
  from parses_decodes [OF this] obtain ls k where *: "decodes msg off off ls k e" "k \<le> 128"
    "length (wire ls) \<le> 255" "length ls \<le> 128"
    "n = \<lparr>nlen = u8 (length (wire ls)), nlabels = u8 (length ls), nd = wire ls\<rparr>" by auto
  then show "\<exists>ls k. decodes msg off off ls k e \<and> k \<le> 128 \<and> ok_labels ls \<and> n = name_of ls"
    by (intro exI [of _ ls] exI [of _ k]) (auto simp: ok_labels_def name_of_def dest: decodes_valid)
next
  assume "\<exists>ls k. decodes msg off off ls k e \<and> k \<le> 128 \<and> ok_labels ls \<and> n = name_of ls"
  then obtain ls k where *: "decodes msg off off ls k e" "k \<le> 128" "ok_labels ls" "n = name_of ls" by blast
  then show "elpis_name_parse msg off = Ok (n, e)"
    using parses_loop [OF decodes_parses [of msg off off ls k e 0 "[]" 0 0]]
      ok_labels_count [of ls] ok_labels_len [of ls]
    by (simp add: elpis_name_parse_def name_of_def)
qed

lemma name_parse_loop_errors:
  "name_parse_loop msg off limit jumps fe labels d \<noteq> Fault \<and>
   (\<forall>x. name_parse_loop msg off limit jumps fe labels d = Err x \<longrightarrow>
     x \<in> {(ELPIS_EFORMAT, DROP_NAME), (ELPIS_EFORMAT, DROP_COMPRESS)})"
proof (induction "300 * limit + (256 - length d)" arbitrary: off limit jumps fe labels d rule: less_induct)
  case less
  let ?c = "msg ! off" and ?t = "pointer_target msg off" and ?fe = "if fe = 0 then off + 2 else fe"
  let ?d = "d @ ?c # take (unat ?c) (drop (off + 1) msg)"
  consider (ptr) "off + 1 < length msg" "192 \<le> unat ?c" "?t < limit" "jumps < 128"
    | (lab) "0 < unat ?c" "unat ?c < 64" "off + 1 + unat ?c \<le> length msg" "length d + unat ?c + 2 \<le> 255" "labels < 128"
    | (stop) "\<not> (off + 1 < length msg \<and> 192 \<le> unat ?c \<and> ?t < limit \<and> jumps < 128)"
      "\<not> (0 < unat ?c \<and> unat ?c < 64 \<and> off + 1 + unat ?c \<le> length msg \<and> length d + unat ?c + 2 \<le> 255 \<and> labels < 128)"
    by linarith
  then show ?case
  proof cases
    case ptr
    with less [of ?t d ?t "Suc jumps" ?fe labels] show ?thesis
      by (subst (1 2) name_parse_loop_step) (simp split del: if_split)
  next
    case lab
    then have "?c \<noteq> 0" by auto
    with lab less [of limit ?d "off + 1 + unat ?c" jumps fe "Suc labels"] show ?thesis
      by (subst (1 2) name_parse_loop_step) simp
  next
    case stop
    then show ?thesis by (subst (1 2) name_parse_loop_step) (simp only: if_False simp_thms split: if_splits, auto)
  qed
qed

lemma decodes_extend:
  assumes "decodes msg off limit ls k e" and l: "length msg \<le> length msg'"
    and a: "\<And>i. i < length msg \<Longrightarrow> msg' ! i = msg ! i"
  shows "decodes msg' off limit ls k e"
  using assms(1)
proof (induction rule: decodes.induct)
  case (root off limit)
  with l a show ?case by (intro decodes.root) auto
next
  case (pointer off limit ls k e)
  have "pointer_target msg' off = pointer_target msg off"
    using pointer.hyps(1) by (simp add: pointer_target_def a)
  then show ?case
    using decodes.pointer [of off msg' limit ls k e] pointer.hyps pointer.IH l by (simp add: a)
next
  case (label off limit ls k e)
  have o: "msg' ! off = msg ! off" using label.hyps by (intro a) simp
  have "take (unat (msg ! off)) (drop (off + 1) msg') = take (unat (msg ! off)) (drop (off + 1) msg)"
    using label.hyps(3) l by (intro nth_equalityI) (auto simp: a)
  with label.hyps label.IH l o show ?case using decodes.label [of msg' off limit ls k e] by simp
qed

lemma decodes_wire:
  "valid_labels ls \<Longrightarrow> decodes (pre @ wire ls @ post) (length pre) limit ls 0 (length pre + length (wire ls))"
proof (induction ls arbitrary: pre)
  case Nil
  then show ?case using decodes.root [of "length pre" "pre @ 0 # post"] by simp
next
  case (Cons l ls)
  let ?m = "pre @ wire (l # ls) @ post"
  have c: "?m ! length pre = word_of_nat (length l)" by (simp add: wire_label_def)
  have u: "unat (?m ! length pre) = length l" using Cons.prems by (simp only: c label_byte valid_labels_simps)
  have t: "take (length l) (drop (length pre + 1) ?m) = l" by (simp add: wire_label_def)
  have "decodes ((pre @ wire_label l) @ wire ls @ post) (length (pre @ wire_label l)) limit ls 0
          (length (pre @ wire_label l) + length (wire ls))"
    using Cons by (intro Cons.IH) simp
  then have "decodes ?m (length pre + 1 + unat (?m ! length pre)) limit ls 0 (length pre + length (wire (l # ls)))"
    unfolding u by (simp add: add.assoc)
  moreover have "l \<noteq> []" using Cons.prems by auto
  ultimately show ?case
    using decodes.label [of ?m "length pre" limit ls 0 "length pre + length (wire (l # ls))"] Cons.prems
    unfolding u t by simp
qed

lemma nocomp_loop_step:
  "name_parse_nocomp_loop p off labels d =
     (if off < length p \<and> p ! off = 0 \<and> length d < 255 then
        Ok (\<lparr>nlen = u8 (length d + 1), nlabels = u8 labels, nd = d @ [0]\<rparr>, off + 1)
      else if 0 < unat (p ! off) \<and> unat (p ! off) < 64 \<and> off + 1 + unat (p ! off) \<le> length p \<and>
              length d + unat (p ! off) + 2 \<le> 255 \<and> labels < 128 then
        name_parse_nocomp_loop p (off + 1 + unat (p ! off)) (Suc labels)
          (d @ p ! off # take (unat (p ! off)) (drop (off + 1) p))
      else Err ELPIS_EFORMAT)"
proof -
  let ?c = "p ! off"
  note u = name_parse_nocomp_loop.simps [of p off labels d]
  consider "length p \<le> off" | "off < length p" "64 \<le> unat ?c"
    | "off < length p" "unat ?c = 0" | "off < length p" "0 < unat ?c" "unat ?c < 64"
    by linarith
  then show ?thesis
  proof cases
    case 2
    then have "?c \<noteq> 0" by auto
    with 2 show ?thesis by (simp add: u)
  next
    case 3
    then have "?c = 0" by (simp add: byte_zero_iff)
    with 3 show ?thesis by (simp add: u)
  next
    case 4
    then have "?c \<noteq> 0" by auto
    with 4 show ?thesis by (simp add: u not_le)
  qed (simp_all add: u)
qed

lemma drop_Cons_iff: "drop off p = c # r \<longleftrightarrow> off < length p \<and> p ! off = c \<and> drop (Suc off) p = r"
  by (cases "off < length p") (auto simp flip: Cons_nth_drop_Suc)

lemma nocomp_loop_wire:
  "valid_labels ls \<Longrightarrow> drop off p = wire ls @ rest \<Longrightarrow> length d + length (wire ls) \<le> 255 \<Longrightarrow>
   labels + length ls \<le> 128 \<Longrightarrow>
   name_parse_nocomp_loop p off labels d =
     Ok (\<lparr>nlen = u8 (length (d @ wire ls)), nlabels = u8 (labels + length ls), nd = d @ wire ls\<rparr>,
         off + length (wire ls))"
proof (induction ls arbitrary: off d labels)
  case Nil
  then have "off < length p" "p ! off = 0" by (auto simp: drop_Cons_iff)
  with Nil show ?case by (subst nocomp_loop_step) simp
next
  case (Cons l ls)
  then have o: "off < length p" "p ! off = word_of_nat (length l)" "drop (off + 1) p = l @ wire ls @ rest"
    by (auto simp: drop_Cons_iff wire_label_def)
  then have u: "unat (p ! off) = length l" using Cons.prems by (simp add: label_byte)
  then have "p ! off \<noteq> 0" using Cons.prems by auto
  moreover have "length (drop (off + 1) p) = length l + length (wire ls) + length rest" by (simp only: o) simp
  moreover have "drop (off + 1 + length l) p = wire ls @ rest"
    using arg_cong [OF o(3), of "drop (length l)"] by (simp add: add.commute)
  ultimately show ?case using o u Cons.prems
    by (subst nocomp_loop_step) (auto simp: Cons.IH wire_label_def length_wire)
qed

lemma nocomp_loop_Ok:
  "name_parse_nocomp_loop p off labels d = Ok (n, e) \<Longrightarrow>
   \<exists>ls rest. valid_labels ls \<and> drop off p = wire ls @ rest \<and> length d + length (wire ls) \<le> 255"
proof (induction "256 - length d" arbitrary: off labels d rule: less_induct)
  case less
  let ?c = "p ! off"
  let ?l = "take (unat ?c) (drop (off + 1) p)"
  consider "off < length p" "?c = 0" "length d < 255"
    | "0 < unat ?c" "unat ?c < 64" "off + 1 + unat ?c \<le> length p" "length d + unat ?c + 2 \<le> 255"
      "name_parse_nocomp_loop p (off + 1 + unat ?c) (Suc labels) (d @ ?c # ?l) = Ok (n, e)"
    using less.prems by (subst (asm) nocomp_loop_step) (auto split: if_splits)
  then show ?case
  proof cases
    case 1
    then have "drop off p = wire [] @ drop (off + 1) p" by (simp flip: Cons_nth_drop_Suc)
    with 1 show ?thesis by (intro exI [of _ "[]"] exI [of _ "drop (off + 1) p"]) auto
  next
    case 2
    then have "256 - length (d @ ?c # ?l) < 256 - length d" by simp
    then obtain ls rest where *: "valid_labels ls" "drop (off + 1 + unat ?c) p = wire ls @ rest"
      "length (d @ ?c # ?l) + length (wire ls) \<le> 255"
      using 2 less.hyps [of "d @ ?c # ?l" "off + 1 + unat ?c" "Suc labels"] by blast
    have "drop off p = ?c # ?l @ drop (unat ?c) (drop (off + 1) p)"
      using 2 by (simp only: append_take_drop_id drop_Cons_iff) simp
    also have "drop (unat ?c) (drop (off + 1) p) = wire ls @ rest" using *(2) by (simp add: add.commute)
    finally have "drop off p = wire (?l # ls) @ rest" using 2 by (simp add: wire_label_def)
    with 2 * show ?thesis by (intro exI [of _ "?l # ls"] exI [of _ rest]) auto
  qed
qed

lemma nocomp_iff:
  "elpis_name_parse_nocomp p = Ok (n, e) \<longleftrightarrow>
     (\<exists>ls rest. ok_labels ls \<and> p = wire ls @ rest \<and> n = name_of ls \<and> e = length (wire ls))"
proof -
  have ok: "elpis_name_parse_nocomp (wire ls @ rest) = Ok (name_of ls, length (wire ls))" if "ok_labels ls" for ls rest
    using nocomp_loop_wire [of ls 0 "wire ls @ rest" rest "[]" 0] ok_labels_count [OF that] that
    by (simp add: elpis_name_parse_nocomp_def ok_labels_def name_of_def)
  moreover have "\<exists>ls rest. ok_labels ls \<and> p = wire ls @ rest" if "elpis_name_parse_nocomp p = Ok (n, e)"
    using nocomp_loop_Ok [of p 0 0 "[]" n e] that by (auto simp: elpis_name_parse_nocomp_def ok_labels_def)
  ultimately show ?thesis by fastforce
qed

lemma nocomp_loop_errors:
  "name_parse_nocomp_loop p off labels d \<noteq> Fault \<and>
   (\<forall>x. name_parse_nocomp_loop p off labels d = Err x \<longrightarrow> x = ELPIS_EFORMAT)"
proof (induction "256 - length d" arbitrary: off labels d rule: less_induct)
  case less
  have "length d + unat (p ! off) + 2 \<le> 255 \<Longrightarrow>
      256 - length (d @ p ! off # take (unat (p ! off)) (drop (off + 1) p)) < 256 - length d" by simp
  then show ?case
    using less.hyps [of "d @ p ! off # take (unat (p ! off)) (drop (off + 1) p)" "off + 1 + unat (p ! off)" "Suc labels"]
    by (subst (1 2) nocomp_loop_step) (simp split: if_splits)
qed

section \<open>Presentation format\<close>

definition text_label :: "label \<Rightarrow> buffer" where
  "text_label l = concat (map text_of_byte l)"

definition text_name :: "label list \<Rightarrow> buffer" where
  "text_name ls = concat (map (\<lambda>l. text_label l @ [0x2E]) ls)"

lemma text_label_simps [simp]: "text_label [] = []" "text_label (c # l) = text_of_byte c @ text_label l"
  by (simp_all add: text_label_def)

lemma text_name_simps [simp]: "text_name [] = []" "text_name (l # ls) = text_label l @ 0x2E # text_name ls"
  by (simp_all add: text_name_def)

lemma text_of_byte_length: "1 \<le> length (text_of_byte c)" "length (text_of_byte c) \<le> 4"
  by (simp_all add: text_of_byte_def)

lemma text_of_label_eq:
  "text_of_label cs sz buf =
     (if cs = [] \<or> length buf + length (text_label cs) < sz then Ok (buf @ text_label cs) else Err ELPIS_ETRUNC)"
proof (induction cs arbitrary: buf)
  case (Cons c cs)
  then show ?case using text_of_byte_length [of c] by (auto simp: Let_def)
qed simp

lemma to_text_loop_eq:
  "valid_labels (xs @ ls) \<Longrightarrow> length buf + length (text_name ls) < sz \<or> ls = [] \<Longrightarrow>
   to_text_loop (name_of (xs @ ls)) (length (wire_prefix xs)) sz buf = Ok (buf @ text_name ls)"
proof (induction ls arbitrary: xs buf)
  case Nil
  then show ?case by (subst to_text_loop.simps) (simp add: fetch_def wire_def nth_append)
next
  case (Cons l ls)
  let ?n = "name_of (xs @ l # ls)" and ?i = "length (wire_prefix xs)"
  have n: "nd ?n = wire_prefix xs @ word_of_nat (length l) # l @ wire ls"
    by (simp add: wire_append wire_label_def)
  have 1: "fetch (nd ?n) ?i = (Ok (word_of_nat (length l)) :: (elpis_rc, byte) outcome)" by (simp only: n) (simp add: fetch_def)
  have 2: "fetch_bytes (nd ?n) (?i + 1) (length l) = (Ok l :: (elpis_rc, buffer) outcome)" by (simp only: n) (simp add: fetch_bytes_def)
  have 3: "?i < nlen ?n" by (simp add: wire_append)
  have 4: "?i + 1 + length l = length (wire_prefix (xs @ [l]))" by simp
  have 5: "to_text_loop ?n (?i + 1 + length l) sz (buf @ text_label l @ [0x2E]) =
      Ok (buf @ text_name (l # ls))"
    using Cons.IH [of "xs @ [l]" "buf @ text_label l @ [0x2E]"] Cons.prems unfolding 4 by simp
  have u: "unat (word_of_nat (length l) :: byte) = length l" "word_of_nat (length l) \<noteq> (0 :: byte)"
    using Cons.prems by (simp_all add: label_byte)
  show ?case
    using Cons.prems 1 2 3 5 by (subst to_text_loop.simps) (simp del: fetch_ok fetch_bytes_ok name_of_sel obind_eq_Ok add: u text_of_label_eq)
qed

lemma text_label_length: "length l \<le> length (text_label l) \<and> length (text_label l) \<le> 4 * length l"
proof (induction l)
  case (Cons c l)
  then show ?case using text_of_byte_length [of c] by simp
qed simp

lemma text_name_length: "length (text_name ls) \<le> 4 * length (wire_prefix ls)"
proof (induction ls)
  case (Cons l ls)
  then show ?case using text_label_length [of l] by simp
qed simp

lemma to_text_fits:
  assumes "ok_labels ls" and "length (text_name ls) < sz" and "2 \<le> sz"
  shows "elpis_name_to_text (name_of ls) sz = Ok (if ls = [] then [0x2E] else text_name ls)"
  using assms to_text_loop_eq [of "[]" ls "[]" sz]
  by (cases ls) (auto simp: elpis_name_to_text_def length_wire ok_labels_def)


text \<open>Reading back one character.\<close>

lemma text_plain: "text_of_byte c = [c] \<Longrightarrow> c \<noteq> 0x2E \<and> c \<noteq> 0x5C"
  by (auto simp: text_of_byte_def split: if_splits)

lemma special_bytes:
  "c \<in> {0x2E, 0x5C, 0x3B, 0x28, 0x29, 0x22, 0x40, 0x24} \<Longrightarrow> \<not> is_digit c \<and> c \<noteq> (0 :: byte)"
  by (auto simp: is_digit_def)

lemma decimal_unat:
  "unat (48 + c div 100 :: byte) = 48 + unat c div 100"
  "unat (48 + (c div 10) mod 10 :: byte) = 48 + (unat c div 10) mod 10"
  "unat (48 + c mod 10 :: byte) = 48 + unat c mod 10"
proof -
  have "unat c < 256" by (rule unat_byte_less)
  moreover have "unat c div 100 < 3" using calculation by linarith
  moreover have "(unat c div 10) mod 10 < 10" "unat c mod 10 < 10" by simp_all
  ultimately show "unat (48 + c div 100 :: byte) = 48 + unat c div 100"
    "unat (48 + (c div 10) mod 10 :: byte) = 48 + (unat c div 10) mod 10"
    "unat (48 + c mod 10 :: byte) = 48 + unat c mod 10"
    by (simp_all add: unat_word_ariths unat_div unat_mod)
qed

lemma decimal_bytes:
  "is_digit (48 + c div 100) \<and> is_digit (48 + (c div 10) mod 10) \<and> is_digit (48 + c mod 10) \<and>
   (unat (48 + c div 100) - 48) * 100 + (unat (48 + (c div 10) mod 10) - 48) * 10 +
   (unat (48 + c mod 10) - 48) = unat (c :: byte)"
proof -
  let ?u = "unat c"
  have 1: "?u div 100 < 3" using unat_byte_less [of c] by linarith
  have 2: "v mod 10 \<le> 9" for v :: nat by (simp add: less_Suc_eq_le [symmetric])
  have "?u div 100 * 100 + (?u div 10) mod 10 * 10 + ?u mod 10 = ?u"
  proof -
    have "?u div 100 = ?u div 10 div 10" by (simp flip: div_mult2_eq)
    moreover have "?u div 10 div 10 * 10 + ?u div 10 mod 10 = ?u div 10" by simp
    moreover have "?u div 10 * 10 + ?u mod 10 = ?u" by simp
    ultimately show ?thesis by linarith
  qed
  with 1 2 show ?thesis by (simp add: is_digit_def word_le_nat_alt decimal_unat unat_div)
qed

lemma read_escape_decimal:
  "read_escape ([48 + c div 100, 48 + (c div 10) mod 10, 48 + c mod 10] @ s) = Some (c, s)"
  using decimal_bytes [of c] unat_byte_less [of c] by (simp add: read_escape_def sget_def Let_def)

lemma read_escape_special:
  "\<not> is_digit c \<Longrightarrow> c \<noteq> 0 \<Longrightarrow> read_escape (c # s) = Some (c, s)"
  by (simp add: read_escape_def sget_def)

lemma text_of_byte_cases:
  obtains (special) "text_of_byte c = [0x5C, c]" "\<not> is_digit c" "c \<noteq> 0"
    | (plain) "text_of_byte c = [c]" "c \<noteq> 0x2E" "c \<noteq> 0x5C"
    | (decimal) "text_of_byte c = 0x5C # [48 + c div 100, 48 + (c div 10) mod 10, 48 + c mod 10]"
proof (cases "c \<in> {0x2E, 0x5C, 0x3B, 0x28, 0x29, 0x22, 0x40, 0x24}")
  case True
  then show ?thesis by (intro special) (simp_all add: special_bytes text_of_byte_def)
next
  case False
  then show ?thesis by (cases "0x20 < c \<and> c < 0x7F") (auto intro: plain decimal simp: text_of_byte_def)
qed

lemma from_text_byte:
  "from_text_loop (text_of_byte c @ s) d lenpos labels =
     (if 63 \<le> unat (d ! lenpos) then None else if 255 < length d + 2 then None
      else from_text_loop s ((d @ [c]) [lenpos := d ! lenpos + 1]) lenpos labels)"
proof (cases c rule: text_of_byte_cases)
  case decimal
  then show ?thesis
    using read_escape_decimal [of c s] by (subst from_text_loop.simps) simp
qed (subst from_text_loop.simps, simp add: read_escape_special)+

lemma from_text_label:
  "unat (d ! lenpos) + length l \<le> 63 \<Longrightarrow> length d + length l + 1 \<le> 255 \<Longrightarrow> lenpos < length d \<Longrightarrow>
   from_text_loop (text_label l @ s) d lenpos labels =
     from_text_loop s ((d @ l) [lenpos := d ! lenpos + word_of_nat (length l)]) lenpos labels"
proof (induction l arbitrary: d)
  case Nil
  then show ?case by simp
next
  case (Cons c l)
  have "unat (d ! lenpos + 1) = unat (d ! lenpos) + 1"
    using Cons.prems by (simp add: unat_word_ariths)
  then show ?case
    using Cons.prems
    by (simp add: from_text_byte Cons.IH nth_append list_update_append add.commute add.left_commute)
qed

lemma from_text_name:
  "valid_labels (l # ls) \<Longrightarrow> length pre + length (wire (l # ls)) \<le> 255 \<Longrightarrow> labels + length (l # ls) \<le> 128 \<Longrightarrow>
   \<exists>lp. from_text_loop (text_name (l # ls)) (pre @ [0]) (length pre) labels =
          Some (pre @ wire_prefix (l # ls), lp) \<and> (pre @ wire_prefix (l # ls)) ! lp \<noteq> 0"
proof (induction ls arbitrary: l pre labels)
  case Nil
  let ?d = "pre @ word_of_nat (length l) # l"
  have "from_text_loop (text_label l @ [0x2E]) (pre @ [0]) (length pre) labels =
      from_text_loop [0x2E] ?d (length pre) labels"
    using Nil from_text_label [of "pre @ [0]" "length pre" l "[0x2E]" labels] by simp
  also have "\<dots> = Some (?d, length pre)"
    using Nil by (subst from_text_loop.simps) (simp add: label_byte)
  finally show ?case using Nil by (simp add: wire_label_def label_byte)
next
  case (Cons m ls)
  let ?d = "pre @ word_of_nat (length l) # l"
  have "from_text_loop (text_name (l # m # ls)) (pre @ [0]) (length pre) labels =
      from_text_loop (0x2E # text_name (m # ls)) ?d (length pre) labels"
    using Cons.prems from_text_label [of "pre @ [0]" "length pre" l "0x2E # text_name (m # ls)" labels] by simp
  also have "\<dots> = from_text_loop (text_name (m # ls)) (?d @ [0]) (length ?d) (Suc labels)"
    using Cons.prems by (subst from_text_loop.simps) (simp add: label_byte length_wire)
  finally show ?case
    using Cons.IH [of m ?d "Suc labels"] Cons.prems by (simp add: wire_label_def)
qed

lemma count_labels_wire:
  "valid_labels ls \<Longrightarrow> count_labels (pre @ wire_prefix ls) (length pre) k = (k + length ls, length (pre @ wire_prefix ls))"
proof (induction ls arbitrary: pre k)
  case Nil
  then show ?case by (subst count_labels.simps) simp
next
  case (Cons l ls)
  then show ?case using Cons.IH [of "pre @ wire_label l" "Suc k"]
    by (subst count_labels.simps) (simp add: wire_label_def label_byte)
qed

lemma from_text_of_name:
  assumes "ok_labels ls" and "ls \<noteq> []"
  shows "elpis_name_from_text (text_name ls) = Ok (name_of ls)"
proof -
  obtain l ms where ls: "ls = l # ms" using assms(2) by (cases ls) auto
  have v: "valid_labels ls" "length ls \<le> 127" "length (wire ls) \<le> 255"
    using assms ok_labels_count by (auto simp: ok_labels_def)
  obtain lp where lp: "from_text_loop (text_name ls) [0] 0 0 = Some (wire_prefix ls, lp)" "wire_prefix ls ! lp \<noteq> 0"
    using from_text_name [of l ms "[]" 0] v unfolding ls by auto
  have "2 \<le> length (text_name ls)" "text_name ls \<noteq> []"
    using text_label_length [of l] v unfolding ls by auto
  then have "text_name ls \<noteq> [0x2E]" by auto
  with lp \<open>text_name ls \<noteq> []\<close> show ?thesis
    using count_labels_wire [of ls "[]" 0] v
    by (simp add: elpis_name_from_text_def length_wire name_of_def) (simp add: wire_def)
qed

text \<open>What the loop has read so far: whole labels and the label it is in.\<close>

definition text_state :: "buffer \<Rightarrow> nat \<Rightarrow> bool" where
  "text_state d lenpos \<longleftrightarrow>
     (\<exists>xs acc. valid_labels xs \<and> length acc \<le> 63 \<and> d = wire_prefix xs @ word_of_nat (length acc) # acc \<and>
        lenpos = length (wire_prefix xs) \<and> length d \<le> 254)"

lemma text_state_loop:
  "from_text_loop s d lenpos labels = Some (d', lp) \<Longrightarrow> text_state d lenpos \<Longrightarrow> text_state d' lp"
proof (induction s d lenpos labels rule: from_text_loop.induct)
  case (1 s d lenpos labels)
  from 1(4) obtain xs acc where st: "valid_labels xs" "length acc \<le> 63"
    "d = wire_prefix xs @ word_of_nat (length acc) # acc" "lenpos = length (wire_prefix xs)" "length d \<le> 254"
    by (auto simp: text_state_def)
  then have u: "d ! lenpos = word_of_nat (length acc)" "unat (d ! lenpos) = length acc" by simp_all
  show ?case
  proof (cases s)
    case Nil
    with 1(3,4) show ?thesis by (simp add: from_text_loop.simps [of "[]"])
  next
    case (Cons ch s1)
    show ?thesis
    proof (cases "ch = 0x2E")
      case True
      then consider "d' = d" "lp = lenpos"
        | "d ! lenpos \<noteq> 0" "\<not> ELPIS_MAX_LABELS < labels + 1" "s1 \<noteq> []" "\<not> ELPIS_MAX_NAME \<le> length d + 1"
          "from_text_loop s1 (d @ [0]) (length d) (labels + 1) = Some (d', lp)"
        using 1(3) Cons by (auto simp: from_text_loop.simps [of "_ # s1" d lenpos labels] split: if_splits)
      then show ?thesis
      proof cases
        case 2
        have "acc \<noteq> []" using 2(1) u by auto
        then have "text_state (d @ [0]) (length d)"
          using st 2(4) unfolding text_state_def
          by (intro exI [of _ "xs @ [acc]"] exI [of _ "[]"]) (auto simp: wire_label_def Suc_le_eq)
        with 1(1) [OF Cons True 2(1-4)] 2(5) show ?thesis by simp
      qed (use 1(4) in simp)
    next
      case False
      then obtain c s2 where 2: "(if ch = 0x5C then read_escape s1 else Some (ch, s1)) = Some (c, s2)"
        "\<not> ELPIS_MAX_LABEL \<le> unat (d ! lenpos)" "\<not> ELPIS_MAX_NAME < length d + 2"
        "from_text_loop s2 ((d @ [c]) [lenpos := d ! lenpos + 1]) lenpos labels = Some (d', lp)"
        using 1(3) Cons by (auto simp: from_text_loop.simps [of "_ # s1" d lenpos labels] split: if_splits option.splits)
      have "text_state ((d @ [c]) [lenpos := d ! lenpos + 1]) lenpos"
        using st 2 u unfolding text_state_def
        by (intro exI [of _ xs] exI [of _ "acc @ [c]"]) (auto simp: list_update_append)
      with 1(2) [OF Cons False 2(1) refl 2(2,3)] 2(4) show ?thesis by simp
    qed
  qed
qed

lemma from_text_wf:
  assumes "elpis_name_from_text s = Ok n"
  shows "wf_name n"
proof (cases "s = [0x2E] \<or> s = []")
  case True
  then show ?thesis using assms wf_name_of [of "[]"]
    by (auto simp: elpis_name_from_text_def elpis_name_init_root_def elpis_name_root_def name_of_def)
next
  case False
  then obtain d lp where d: "from_text_loop s [0] 0 0 = Some (d, lp)" "d ! lp \<noteq> 0"
    "n = \<lparr>nlen = u8 (length d + 1), nlabels = u8 (fst (count_labels d 0 0)), nd = d @ [0]\<rparr>"
    using assms by (auto simp: elpis_name_from_text_def Let_def split: if_splits option.splits prod.splits)
  have "text_state [0] 0" unfolding text_state_def
    by (intro exI [of _ "[]"]) simp
  from text_state_loop [OF d(1) this] obtain xs acc where st: "valid_labels xs" "length acc \<le> 63"
    "d = wire_prefix xs @ word_of_nat (length acc) # acc" "lp = length (wire_prefix xs)" "length d \<le> 254"
    by (auto simp: text_state_def)
  then have "acc \<noteq> []" using d(2) by auto
  with st have ok: "ok_labels (xs @ [acc])" "d = wire_prefix (xs @ [acc])"
    by (auto simp: ok_labels_def length_wire wire_label_def Suc_le_eq)
  then have "n = name_of (xs @ [acc])"
    using d(3) st(5) ok_labels_count [OF ok(1)] count_labels_wire [of "xs @ [acc]" "[]" 0]
    by (auto simp: name_of_def wire_def)
  with ok show ?thesis by simp
qed

section \<open>Operations on labels\<close>

lemma name_lower_of: "ok_labels ls \<Longrightarrow> elpis_name_lower (name_of ls) = name_of (fold_labels ls)"
proof -
  assume ok: "ok_labels ls"
  let ?n = "length (wire ls)" and ?m = "((length (wire ls) + 15) div 16) * 16"
  have m: "?n \<le> ?m" "16 dvd ?m" by simp_all
  have "take ?n (elpis_lower_pad16 (take ?m (wire ls @ replicate (?m - ?n) 0))) = map lower_byte (wire ls)"
    using m by (simp add: elpis_lower_pad16_eq)
  with ok show ?thesis
    by (simp add: elpis_name_lower_def name_of_def Let_def lower_wire ok_labels_valid)
qed

lemma name_eq_of:
  assumes "ok_labels xs" and "ok_labels ys"
  shows "elpis_name_eq (name_of xs) (name_of ys) \<longleftrightarrow> fold_labels xs = fold_labels ys"
proof -
  have "length (wire xs) = length (wire ys) \<and> map lower_byte (wire xs) = map lower_byte (wire ys) \<longleftrightarrow>
      fold_labels xs = fold_labels ys"
    using assms by (metis length_wire_fold lower_wire ok_labels_valid valid_fold_labels wire_inj)
  then show ?thesis by (auto simp: elpis_name_eq_def elpis_eq_ci_eq)
qed

lemma name_parent_of: "ok_labels (l # ls) \<Longrightarrow> elpis_name_parent (name_of (l # ls)) = Some (name_of ls)"
proof -
  assume ok: "ok_labels (l # ls)"
  have "dget (name_of (l # ls)) 0 = word_of_nat (length l)"
    using dget_boundary_Cons [of "[]" l ls] by simp
  with ok ok_labels_count [OF ok] show ?thesis
    by (simp add: elpis_name_parent_def name_of_def length_wire wire_label_def u8_def ok_labels_def Let_def)
qed

lemma name_parent_root: "elpis_name_parent (name_of []) = None"
  by (simp add: elpis_name_parent_def)

lemma suffix_skip_of:
  "ok_labels (xs @ ys @ zs) \<Longrightarrow>
   suffix_skip (name_of (xs @ ys @ zs)) (length (wire_prefix xs)) (length ys) = Some (length (wire_prefix (xs @ ys)))"
proof (induction ys arbitrary: xs)
  case Nil
  then show ?case by simp
next
  case (Cons l ys)
  have "length l \<le> 63" "1 \<le> length l" using Cons.prems by (auto simp: ok_labels_def)
  with Cons.prems Cons.IH [of "xs @ [l]"] dget_boundary_Cons [of xs l "ys @ zs"] show ?case
    by (simp add: wire_append label_byte add.assoc)
qed

lemma name_suffix_of:
  assumes "ok_labels (xs @ ys)"
  shows "elpis_name_suffix (name_of (xs @ ys)) (length ys) = Some (name_of ys)"
proof (cases "xs = []")
  case False
  then show ?thesis
    using suffix_skip_of [of "[]" xs ys] assms ok_labels_count [OF assms] ok_labels_append [OF assms]
    by (simp add: elpis_name_suffix_def name_of_def wire_append length_wire u8_def ok_labels_def)
qed (simp add: elpis_name_suffix_def)

lemma name_suffix_drop:
  assumes "ok_labels ls" and "k \<le> length ls"
  shows "elpis_name_suffix (name_of ls) k = Some (name_of (drop (length ls - k) ls))"
  using name_suffix_of [of "take (length ls - k) ls" "drop (length ls - k) ls"] assms by simp

text \<open>Being at or below a name, on labels: a suffix up to case.\<close>

definition below :: "label list \<Rightarrow> label list \<Rightarrow> bool" where
  "below xs zs \<longleftrightarrow> length zs \<le> length xs \<and> fold_labels (drop (length xs - length zs) xs) = fold_labels zs"

lemma below_iff: "below xs zs \<longleftrightarrow> (\<exists>ps. fold_labels xs = ps @ fold_labels zs)"
proof
  assume "below xs zs"
  then have "fold_labels xs = fold_labels (take (length xs - length zs) xs) @ fold_labels zs"
    unfolding below_def by (metis append_take_drop_id fold_labels_simps(3))
  then show "\<exists>ps. fold_labels xs = ps @ fold_labels zs" ..
next
  assume "\<exists>ps. fold_labels xs = ps @ fold_labels zs"
  then obtain ps where ps: "fold_labels xs = ps @ fold_labels zs" ..
  then have l: "length xs = length ps + length zs" by (metis fold_labels_simps(4) length_append)
  have "fold_labels (drop (length xs - length zs) xs) = drop (length xs - length zs) (fold_labels xs)"
    by (simp add: fold_labels_def drop_map)
  with l ps show "below xs zs" by (simp add: below_def)
qed

lemma name_covers_of:
  assumes "ok_labels zs" and "ok_labels xs"
  shows "elpis_name_covers (name_of zs) (name_of xs) \<longleftrightarrow> below xs zs"
  using assms name_suffix_drop [of xs "length zs"] name_eq_of [of "drop (length xs - length zs) xs" zs]
    ok_labels_drop [of xs]
  by (auto simp: elpis_name_covers_def below_def not_less)

lemma boundary_walk_split:
  assumes "ok_labels (xs @ ys)"
  shows "(\<exists>i. boundary_walk (name_of (xs @ ys)) (length (wire_prefix xs)) off = Some i \<and> i = off) \<longleftrightarrow>
    (\<exists>as bs. ys = as @ bs \<and> off = length (wire_prefix (xs @ as))) \<and> length (wire_prefix xs) \<le> off"
  using assms
proof (induction ys arbitrary: xs)
  case Nil
  then show ?case by (subst boundary_walk.simps) auto
next
  case (Cons l ys)
  have l: "length l \<le> 63" "1 \<le> length l" using Cons.prems by (auto simp: ok_labels_def)
  show ?case
  proof (cases "length (wire_prefix xs) < off")
    case True
    have "(\<exists>as bs. l # ys = as @ bs \<and> off = length (wire_prefix (xs @ as))) \<longleftrightarrow>
        (\<exists>as bs. ys = as @ bs \<and> off = length (wire_prefix ((xs @ [l]) @ as))) \<and> length (wire_prefix (xs @ [l])) \<le> off"
      (is "?L = ?R")
    proof
      assume ?L
      then obtain as bs where *: "l # ys = as @ bs" "off = length (wire_prefix (xs @ as))" by blast
      with True obtain as' where "as = l # as'" by (cases as) auto
      with * show ?R by auto
    next
      assume ?R
      then obtain as bs where "ys = as @ bs" "off = length (wire_prefix ((xs @ [l]) @ as))" by blast
      then show ?L by (intro exI [of _ "l # as"] exI [of _ bs]) simp
    qed
    with True Cons.IH [of "xs @ [l]"] Cons.prems l dget_boundary_Cons [of xs l ys] show ?thesis
      by (subst boundary_walk.simps) (simp add: label_byte add.assoc)
  next
    case False
    then show ?thesis by (subst boundary_walk.simps) (auto intro: exI [of _ "[]"])
  qed
qed

lemma name_is_subdomain_of:
  assumes "ok_labels xs" and "ok_labels zs"
  shows "elpis_name_is_subdomain (name_of xs) (name_of zs) \<longleftrightarrow> below xs zs"
proof -
  let ?off = "length (wire xs) - length (wire zs)"
  have eq: "elpis_eq_ci (wire bs) (wire zs) (length (wire zs)) \<longleftrightarrow> fold_labels bs = fold_labels zs"
    if "xs = as @ bs" "length (wire bs) = length (wire zs)" for as bs
    using name_eq_of [of bs zs] assms that ok_labels_append [of as bs] by (simp add: elpis_name_eq_def)
  have walk: "(\<exists>i. boundary_walk (name_of xs) 0 ?off = Some i \<and> i = ?off) \<longleftrightarrow>
      (\<exists>as bs. xs = as @ bs \<and> ?off = length (wire_prefix as))"
    using boundary_walk_split [of "[]" xs ?off] assms(1) by simp
  have sub: "below xs zs \<longleftrightarrow> length (wire zs) \<le> length (wire xs) \<and> length zs \<le> length xs \<and>
      (\<exists>as bs. xs = as @ bs \<and> ?off = length (wire_prefix as) \<and> fold_labels bs = fold_labels zs)"
  proof
    assume b: "below xs zs"
    let ?as = "take (length xs - length zs) xs" and ?bs = "drop (length xs - length zs) xs"
    have "fold_labels ?bs = fold_labels zs" using b by (simp add: below_def)
    moreover from this have "length (wire ?bs) = length (wire zs)" by (metis length_wire_fold)
    moreover have "length (wire xs) = length (wire_prefix ?as) + length (wire ?bs)"
      by (metis append_take_drop_id length_append wire_append)
    moreover have "xs = ?as @ ?bs" by simp
    moreover have "length zs \<le> length xs" using b by (simp add: below_def)
    ultimately show "length (wire zs) \<le> length (wire xs) \<and> length zs \<le> length xs \<and>
      (\<exists>as bs. xs = as @ bs \<and> ?off = length (wire_prefix as) \<and> fold_labels bs = fold_labels zs)"
      by (metis add_diff_cancel_right' le_add2)
  next
    assume "length (wire zs) \<le> length (wire xs) \<and> length zs \<le> length xs \<and>
      (\<exists>as bs. xs = as @ bs \<and> ?off = length (wire_prefix as) \<and> fold_labels bs = fold_labels zs)"
    then show "below xs zs" by (auto simp: below_iff)
  qed
  have dr: "drop ?off (wire xs) = wire bs \<and> length (wire bs) = length (wire zs)"
    if "xs = as @ bs" "?off = length (wire_prefix as)" "length (wire zs) \<le> length (wire xs)" for as bs
    using that by (auto simp: wire_append)
  have root: "length (wire zs) = Suc 0 \<longleftrightarrow> zs = []" by (cases zs) (auto simp: length_wire)
  show ?thesis
  proof (cases "length (wire zs) \<le> length (wire xs) \<and> length zs \<le> length xs \<and> zs \<noteq> []")
    case True
    then have *: "elpis_name_is_subdomain (name_of xs) (name_of zs) \<longleftrightarrow>
        (\<exists>i. boundary_walk (name_of xs) 0 ?off = Some i \<and> i = ?off) \<and>
        elpis_eq_ci (drop ?off (wire xs)) (wire zs) (length (wire zs))"
      using root by (auto simp: elpis_name_is_subdomain_def Let_def split: option.splits if_splits)
    show ?thesis unfolding * walk sub using True dr eq by metis
  next
    case False
    then show ?thesis
    proof (cases "zs = []")
      case True
      then show ?thesis by (simp add: elpis_name_is_subdomain_def below_def length_wire)
    qed (use False root in \<open>auto simp: elpis_name_is_subdomain_def sub not_le\<close>)
  qed
qed

lemma trim_labels_of:
  "ok_labels xs \<Longrightarrow> trim_labels (name_of xs) k = name_of (drop (length xs - k) xs)"
proof (induction xs)
  case Nil
  then show ?case by (subst trim_labels.simps) simp
next
  case (Cons l ls)
  then show ?case
    by (subst trim_labels.simps) (auto simp: name_parent_of ok_labels_Cons Suc_diff_le)
qed

lemma lcp_snoc:
  "length us = length vs \<Longrightarrow> us @ [u] \<noteq> vs @ [v] \<Longrightarrow>
   longest_common_prefix (us @ [u]) (vs @ [v]) = longest_common_prefix us vs"
  by (induction us vs rule: list_induct2) auto

lemma lcp_self: "longest_common_prefix us us = us"
  by (induction us) auto

lemma climb_common_of:
  "length xs = length ys \<Longrightarrow> ok_labels xs \<Longrightarrow> ok_labels ys \<Longrightarrow>
   climb_common (name_of xs) (name_of ys) =
     length (longest_common_prefix (rev (fold_labels xs)) (rev (fold_labels ys)))"
proof (induction xs ys rule: list_induct2)
  case Nil
  then show ?case by (subst climb_common.simps) simp
next
  case (Cons x xs y ys)
  show ?case
  proof (cases "fold_labels (x # xs) = fold_labels (y # ys)")
    case True
    with Cons.prems Cons.hyps show ?thesis
      by (subst climb_common.simps) (simp add: name_eq_of lcp_self length_wire)
  next
    case False
    with Cons.hyps have "longest_common_prefix (rev (fold_labels (x # xs))) (rev (fold_labels (y # ys))) =
        longest_common_prefix (rev (fold_labels xs)) (rev (fold_labels ys))"
      using lcp_snoc [of "rev (fold_labels xs)" "rev (fold_labels ys)" "fold_label x" "fold_label y"] by auto
    moreover have "climb_common (name_of (x # xs)) (name_of (y # ys)) = climb_common (name_of xs) (name_of ys)"
    proof -
      have "\<not> elpis_name_eq (name_of (x # xs)) (name_of (y # ys))"
        using False Cons.prems name_eq_of [of "x # xs" "y # ys"] by blast
      then show ?thesis using Cons.prems
        by (subst climb_common.simps) (simp add: name_parent_of length_wire)
    qed
    ultimately show ?thesis using Cons.IH Cons.prems by (simp only: ok_labels_Cons)
  qed
qed

lemma lcp_take:
  "length (longest_common_prefix (take (length vs) us) (take (length us) vs)) = length (longest_common_prefix us vs)"
  by (induction us vs rule: longest_common_prefix.induct) auto

lemma name_common_labels_of:
  assumes "ok_labels xs" and "ok_labels ys"
  shows "elpis_name_common_labels (name_of xs) (name_of ys) =
    length (longest_common_prefix (rev (fold_labels xs)) (rev (fold_labels ys)))"
proof -
  let ?a = "drop (length xs - length ys) xs"
  let ?b = "drop (length ys - length ?a) ys"
  have "elpis_name_common_labels (name_of xs) (name_of ys) = climb_common (name_of ?a) (name_of ?b)"
    using assms by (simp add: elpis_name_common_labels_def trim_labels_of Let_def)
  also have "\<dots> = length (longest_common_prefix (rev (fold_labels ?a)) (rev (fold_labels ?b)))"
    using assms by (intro climb_common_of) (auto simp: ok_labels_drop)
  also have "rev (fold_labels ?a) = take (length (rev (fold_labels ys))) (rev (fold_labels xs))"
    by (simp add: fold_labels_def rev_map take_map take_rev drop_map)
  also have "rev (fold_labels ?b) = take (length (rev (fold_labels xs))) (rev (fold_labels ys))"
  proof -
    have "length ys - length ?a = length ys - length xs" by simp
    then show ?thesis by (simp only: fold_labels_def rev_map take_map take_rev length_map length_rev)
  qed
  finally show ?thesis by (simp only: lcp_take)
qed

lemma name_prepend_of:
  assumes "ok_labels ls"
  shows "elpis_name_prepend l (name_of ls) =
    (if ok_labels (l # ls) then Ok (name_of (l # ls)) else Err ELPIS_EFORMAT)"
  using assms ok_labels_count [OF assms] ok_labels_count [of "l # ls"]
  by (auto simp: elpis_name_prepend_def ok_labels_def Let_def name_of_def wire_label_def Suc_le_eq)

lemma name_substitute_of:
  assumes "ok_labels xs" and "ok_labels os" and "ok_labels ts"
  defines "ys \<equiv> take (length xs - length os) xs @ ts"
  shows "elpis_name_substitute (name_of xs) (name_of os) (name_of ts) =
    (if below xs os \<and> length (wire ys) \<le> 255 then Ok (name_of ys) else Err ELPIS_EFORMAT)"
proof (cases "below xs os")
  case True
  let ?k = "length xs - length os"
  have "fold_labels (drop ?k xs) = fold_labels os" using True by (simp add: below_def)
  then have "length (wire (drop ?k xs)) = length (wire os)" by (metis length_wire_fold)
  then have p: "length (wire xs) - length (wire os) = length (wire_prefix (take ?k xs))"
    by (metis add_diff_cancel_right' append_take_drop_id length_append wire_append)
  have t: "take (length (wire_prefix (take ?k xs))) (wire xs) = wire_prefix (take ?k xs)"
    by (metis append_eq_conv_conj append_take_drop_id wire_append)
  have v: "valid_labels ys" 
  proof -
    have "valid_labels (take ?k xs @ drop ?k xs)" using assms(1) by (simp add: ok_labels_def)
    then show ?thesis using assms(3) by (simp only: ys_def valid_labels_simps ok_labels_def)
  qed
  have c: "length (wire ys) \<le> 255 \<Longrightarrow> length ys \<le> 127" using v ok_labels_count [of ys] by (simp add: ok_labels_def)
  have l: "length os \<le> length xs" using True by (simp add: below_def)
  have w: "wire_prefix (take ?k xs) @ wire ts = wire ys" by (simp add: ys_def wire_append)
  then have w': "length (wire_prefix (take ?k xs)) + length (wire ts) = length (wire ys)"
    by (metis length_append)
  have n: "length xs - length os + length ts = length ys" by (simp add: ys_def)
  have "elpis_name_substitute (name_of xs) (name_of os) (name_of ts) =
      (if 255 < length (wire ys) then Err ELPIS_EFORMAT else if 128 < length ys then Err ELPIS_EFORMAT
       else Ok \<lparr>nlen = u8 (length (wire ys)), nlabels = u8 (length ys), nd = wire ys\<rparr>)"
    using True name_is_subdomain_of [of xs os] assms(1,2)
    by (simp add: elpis_name_substitute_def Let_def p t w w' n)
  with True c show ?thesis by (auto simp: name_of_def)
next
  case False
  then show ?thesis using assms name_is_subdomain_of [of xs os] by (simp add: elpis_name_substitute_def)
qed

section \<open>Canonical order\<close>

text \<open>Three-way comparison of lists, and the lexicographic order of the library.\<close>

fun cmp3 :: "'a::linorder list \<Rightarrow> 'a list \<Rightarrow> int" where
  "cmp3 [] [] = 0"
| "cmp3 [] (y # ys) = -1"
| "cmp3 (x # xs) [] = 1"
| "cmp3 (x # xs) (y # ys) = (if x < y then -1 else if y < x then 1 else cmp3 xs ys)"

lemma cmp3_lex: "cmp3 xs ys = (if xs < ys then -1 else if xs = ys then 0 else 1)"
  by (induction xs ys rule: cmp3.induct) auto

lemma cmp3_Cons: "cmp3 (u # us) (v # vs) = (let c = cmp3 u v in if c \<noteq> 0 then c else cmp3 us vs)"
  by (auto simp: cmp3_lex [of u] Let_def)

lemma cmp3_cut:
  "cmp3 us vs =
     (let r = cmp3 (take (min (length us) (length vs)) us) (take (min (length us) (length vs)) vs) in
      if r \<noteq> 0 then r else if length us \<noteq> length vs then (if length us < length vs then -1 else 1) else 0)"
  by (induction us vs rule: cmp3.induct) (simp_all add: Let_def)

lemma cmp_octets_eq:
  "(\<And>i. i < length us \<Longrightarrow> lower_byte (dget a (pa + 1 + i)) = us ! i) \<Longrightarrow>
   (\<And>i. i < length vs \<Longrightarrow> lower_byte (dget b (pb + 1 + i)) = vs ! i) \<Longrightarrow>
   j + m \<le> length us \<Longrightarrow> j + m \<le> length vs \<Longrightarrow>
   cmp_octets m j a pa b pb = cmp3 (take m (drop j us)) (take m (drop j vs))"
proof (induction m arbitrary: j)
  case (Suc m)
  then have "drop j us = us ! j # drop (Suc j) us" "drop j vs = vs ! j # drop (Suc j) vs"
    by (simp_all add: Cons_nth_drop_Suc)
  with Suc show ?case by (auto simp: Let_def)
qed simp

lemma label_offsets_of:
  "ok_labels (xs @ ys) \<Longrightarrow> length ao + length ys \<le> 128 \<Longrightarrow>
   label_offsets (name_of (xs @ ys)) (length (wire_prefix xs)) ao =
     ao @ map (\<lambda>i. length (wire_prefix (xs @ take i ys))) [0..<length ys]"
proof (induction ys arbitrary: xs ao)
  case Nil
  then show ?case by (subst label_offsets.simps) simp
next
  case (Cons l ys)
  have l: "length l \<le> 63" "1 \<le> length l" using Cons.prems by (auto simp: ok_labels_def)
  have m: "map (\<lambda>i. length (wire_prefix (xs @ take i (l # ys)))) [0..<length (l # ys)] =
      length (wire_prefix xs) # map (\<lambda>i. length (wire_prefix ((xs @ [l]) @ take i ys))) [0..<length ys]"
    by (simp add: upt_conv_Cons map_Suc_upt [symmetric] del: upt_Suc)
  show ?case
    unfolding m using Cons.IH [of "xs @ [l]" "ao @ [length (wire_prefix xs)]"] Cons.prems l
      dget_boundary_Cons [of xs l ys]
    by (subst label_offsets.simps) (simp add: label_byte add.assoc wire_append)
qed

lemma dget_label:
  assumes "ok_labels (xs @ l # ys)" and "i < length (fold_label l)"
  shows "lower_byte (dget (name_of (xs @ l # ys)) (length (wire_prefix xs) + 1 + i)) = fold_label l ! i"
  using dget_boundary [of xs "l # ys" "1 + i"] assms
  by (simp add: wire_label_def fold_label_def nth_append)

text \<open>Two labels compared the way the inner loop of \<open>elpis_name_canon_cmp\<close> does.\<close>

lemma label_cmp:
  assumes a: "ok_labels (xs @ l # ys)" and b: "ok_labels (us @ m # vs)"
  defines "pa \<equiv> length (wire_prefix xs)" and "pb \<equiv> length (wire_prefix us)"
  shows "cmp_octets (if length l < length m then length l else length m) 0
      (name_of (xs @ l # ys)) pa (name_of (us @ m # vs)) pb =
    cmp3 (take (min (length l) (length m)) (fold_label l)) (take (min (length l) (length m)) (fold_label m))"
proof -
  have m: "(if length l < length m then length l else length m) = min (length l) (length m)" by simp
  show ?thesis
    unfolding m pa_def pb_def
    using cmp_octets_eq [OF dget_label [OF a] dget_label [OF b], of 0 "min (length l) (length m)"] by simp
qed

lemma split_nth: "k < length xs \<Longrightarrow> xs = take k xs @ xs ! k # drop (Suc k) xs"
  by (simp add: id_take_nth_drop)

lemma dget_nth:
  "i < length ls \<Longrightarrow> dget (name_of ls) (length (wire_prefix (take i ls))) = word_of_nat (length (ls ! i))"
  by (metis dget_boundary_Cons split_nth)

lemma cmp_labels_of:
  fixes xs ys
  assumes "ok_labels xs" and "ok_labels ys"
  defines "ao \<equiv> map (\<lambda>i. length (wire_prefix (take i xs))) [0..<length xs]"
    and "bo \<equiv> map (\<lambda>i. length (wire_prefix (take i ys))) [0..<length ys]"
  shows "k \<le> length xs \<Longrightarrow> k \<le> length ys \<Longrightarrow> cmp_labels (name_of xs) ao (name_of ys) bo k =
    cmp3 (drop k (rev (fold_labels xs))) (drop k (rev (fold_labels ys)))"
proof (induction "length xs - k" arbitrary: k)
  case 0
  then show ?case
    by (subst cmp_labels.simps) (cases "drop k (rev (fold_labels ys))", auto simp: ao_def bo_def drop_eq_Nil dest: arg_cong [of _ _ length])
next
  case (Suc n)
  then have k: "k < length xs" by simp
  show ?case
  proof (cases "k < length ys")
    case False
    with k have "drop k (rev (fold_labels xs)) \<noteq> []" "drop k (rev (fold_labels ys)) = []" by auto
    with False k show ?thesis
      by (subst cmp_labels.simps) (cases "drop k (rev (fold_labels xs))", auto simp: ao_def bo_def)
  next
    case True
    let ?i = "length xs - 1 - k" and ?j = "length ys - 1 - k"
    let ?l = "xs ! ?i" and ?m = "ys ! ?j"
    have i: "?i < length xs" "?j < length ys" using k True by auto
    have x: "xs = take ?i xs @ ?l # drop (Suc ?i) xs" and y: "ys = take ?j ys @ ?m # drop (Suc ?j) ys"
      by (rule split_nth [OF i(1)], rule split_nth [OF i(2)])
    have ln: "1 \<le> length ?l" "length ?l \<le> 63" "1 \<le> length ?m" "length ?m \<le> 63"
      using assms(1,2) i by (auto simp: ok_labels_def valid_labels_def list_all_iff)
    have dx: "drop k (rev (fold_labels xs)) = fold_label ?l # drop (Suc k) (rev (fold_labels xs))"
      using k by (subst Cons_nth_drop_Suc [symmetric]) (simp_all add: rev_nth fold_labels_def Suc_le_eq)
    have dy: "drop k (rev (fold_labels ys)) = fold_label ?m # drop (Suc k) (rev (fold_labels ys))"
      using True by (subst Cons_nth_drop_Suc [symmetric]) (simp_all add: rev_nth fold_labels_def Suc_le_eq)
    have da: "unat (dget (name_of xs) (ao ! ?i)) = length ?l"
      using i ln dget_nth [of ?i xs] by (simp add: ao_def label_byte)
    have db: "unat (dget (name_of ys) (bo ! ?j)) = length ?m"
      using i ln dget_nth [of ?j ys] by (simp add: bo_def label_byte)
    have oc: "cmp_octets (if length ?l < length ?m then length ?l else length ?m) 0 (name_of xs) (ao ! ?i)
        (name_of ys) (bo ! ?j) =
        cmp3 (take (min (length ?l) (length ?m)) (fold_label ?l)) (take (min (length ?l) (length ?m)) (fold_label ?m))"
      using label_cmp [of "take ?i xs" ?l "drop (Suc ?i) xs" "take ?j ys" ?m "drop (Suc ?j) ys"] assms(1,2) i
      unfolding x [symmetric] y [symmetric] by (simp add: ao_def bo_def)
    have "cmp_labels (name_of xs) ao (name_of ys) bo k =
        (let r = cmp3 (take (min (length ?l) (length ?m)) (fold_label ?l)) (take (min (length ?l) (length ?m)) (fold_label ?m))
         in if r \<noteq> 0 then r else if length ?l \<noteq> length ?m then (if length ?l < length ?m then -1 else 1)
         else cmp_labels (name_of xs) ao (name_of ys) bo (Suc k))"
    proof -
      have la: "length ao - 1 - k = ?i" "length bo - 1 - k = ?j" "length ao = length xs" "length bo = length ys"
        by (simp_all add: ao_def bo_def)
      show ?thesis
        by (subst cmp_labels.simps) (simp only: la k True da db oc Let_def if_True simp_thms)
    qed
    also have "\<dots> = (let c = cmp3 (fold_label ?l) (fold_label ?m)
        in if c \<noteq> 0 then c else cmp_labels (name_of xs) ao (name_of ys) bo (Suc k))"
      unfolding cmp3_cut [of "fold_label ?l" "fold_label ?m"] length_fold_label Let_def by simp
    also have "\<dots> = cmp3 (drop k (rev (fold_labels xs))) (drop k (rev (fold_labels ys)))"
    proof -
      have "cmp_labels (name_of xs) ao (name_of ys) bo (Suc k) =
          cmp3 (drop (Suc k) (rev (fold_labels xs))) (drop (Suc k) (rev (fold_labels ys)))"
        using Suc.hyps(1) [of "Suc k"] Suc.hyps(2) k True by simp
      then show ?thesis by (simp only: dx dy cmp3_Cons)
    qed
    finally show ?thesis .
  qed
qed

definition canon_key :: "label list \<Rightarrow> label list" where
  "canon_key ls = rev (fold_labels ls)"

lemma name_canon_cmp_of:
  assumes "ok_labels xs" and "ok_labels ys"
  shows "elpis_name_canon_cmp (name_of xs) (name_of ys) = cmp3 (canon_key xs) (canon_key ys)"
  using cmp_labels_of [OF assms, of 0] label_offsets_of [of "[]" xs "[]"] label_offsets_of [of "[]" ys "[]"]
    assms ok_labels_count [of xs] ok_labels_count [of ys]
  by (simp add: elpis_name_canon_cmp_def canon_key_def)

lemma canon_key_eq: "canon_key xs = canon_key ys \<longleftrightarrow> fold_labels xs = fold_labels ys"
  by (simp add: canon_key_def)

lemma is_wildcard_of:
  "ok_labels ls \<Longrightarrow> elpis_name_is_wildcard (name_of ls) \<longleftrightarrow> ls \<noteq> [] \<and> hd ls = [0x2A]"
proof (cases ls)
  case (Cons l ms)
  assume ok: "ok_labels ls"
  then have l: "1 \<le> length l" "length l \<le> 63" using Cons by (auto simp: ok_labels_def)
  have 0: "dget (name_of ls) 0 = word_of_nat (length l)"
    using dget_boundary_Cons [of "[]" l ms] Cons by simp
  have 1: "dget (name_of ls) 1 = l ! 0"
    using dget_boundary [of "[]" ls 1] Cons l by (simp add: wire_label_def nth_append Suc_le_eq)
  have "word_of_nat (length l) = (1 :: byte) \<longleftrightarrow> length l = 1"
    using l label_byte [of l] by (metis of_nat_1 unsigned_1)
  then show ?thesis using Cons l 0 1
    by (auto simp: elpis_name_is_wildcard_def length_wire length_Suc_conv nth_Cons')
qed (simp add: elpis_name_is_wildcard_def)

section \<open>Properties\<close>

text \<open>
  Property C10. \<open>elpis_name_parse\<close> is total, reads only inside the message, and accepts exactly the names that
  stand at \<open>off\<close>: labels of 1 to 63 octets, at most 255 octets in all, reached through at most 128
  pointers each of which aims strictly below the start of the segment it stands in.  The name it
  returns is well formed and spells those labels, and the end offset is inside the message; every
  refusal is a format error with one of the two name drop reasons.
\<close>

theorem name_parse_spec:
  "case elpis_name_parse msg off of
     Ok (n, e) \<Rightarrow> wf_name n \<and> off < e \<and> e \<le> length msg \<and>
       (\<exists>k. k \<le> ELPIS_MAX_LABELS \<and> decodes msg off off (name_labels n) k e)
   | Err (rc, dr) \<Rightarrow> rc = ELPIS_EFORMAT \<and> (dr = DROP_NAME \<or> dr = DROP_COMPRESS) \<and>
       \<not> (\<exists>ls k e. decodes msg off off ls k e \<and> k \<le> ELPIS_MAX_LABELS \<and> ok_labels ls)
   | Fault \<Rightarrow> False"
proof (cases "elpis_name_parse msg off")
  case (Ok p)
  then obtain n e where p: "p = (n, e)" "elpis_name_parse msg off = Ok (n, e)" by (cases p) simp
  then obtain ls k where "decodes msg off off ls k e" "k \<le> 128" "ok_labels ls" "n = name_of ls"
    using parse_iff by blast
  with Ok p decodes_end show ?thesis by (auto simp: ok_labels_valid)
next
  case (Err x)
  then have "\<not> (\<exists>ls k e. decodes msg off off ls k e \<and> k \<le> 128 \<and> ok_labels ls)"
    using parse_iff [of msg off] by auto
  with Err name_parse_loop_errors [of msg off off 0 0 0 "[]"] show ?thesis
    by (auto simp: elpis_name_parse_def)
next
  case Fault
  with name_parse_loop_errors [of msg off off 0 0 0 "[]"] show ?thesis
    by (simp add: elpis_name_parse_def)
qed

text \<open>
  Property C15. \<open>elpis_name_parse_nocomp\<close> accepts exactly a buffer that starts with an uncompressed name of
  at most 255 octets, consumes just its octets, and agrees with \<open>elpis_name_parse\<close> wherever it
  succeeds; otherwise it is a format error.
\<close>

theorem name_parse_nocomp_spec:
  "case elpis_name_parse_nocomp p of
     Ok (n, e) \<Rightarrow> wf_name n \<and> take e p = nd n \<and> e = nlen n \<and> elpis_name_parse p 0 = Ok (n, e)
   | Err rc \<Rightarrow> rc = ELPIS_EFORMAT \<and> \<not> (\<exists>ls rest. ok_labels ls \<and> p = wire ls @ rest)
   | Fault \<Rightarrow> False"
proof (cases "elpis_name_parse_nocomp p")
  case (Ok x)
  then obtain n e where x: "x = (n, e)" "elpis_name_parse_nocomp p = Ok (n, e)" by (cases x) simp
  then obtain ls rest where *: "ok_labels ls" "p = wire ls @ rest" "n = name_of ls" "e = length (wire ls)"
    using nocomp_iff by blast
  then have "decodes p 0 0 ls 0 e" using decodes_wire [of ls "[]" rest 0] by auto
  with * have "elpis_name_parse p 0 = Ok (n, e)" using parse_iff [of p 0 n e] by auto
  with * x Ok show ?thesis by simp
next
  case (Err x)
  then have "\<not> (\<exists>ls rest. ok_labels ls \<and> p = wire ls @ rest)" using nocomp_iff [of p] by auto
  with Err nocomp_loop_errors [of p 0 0 "[]"] show ?thesis by (auto simp: elpis_name_parse_nocomp_def)
next
  case Fault
  with nocomp_loop_errors [of p 0 0 "[]"] show ?thesis by (simp add: elpis_name_parse_nocomp_def)
qed

text \<open>
  Property C12. Presentation round trip: every well-formed name prints into a buffer of \<open>4 * 255\<close> octets
  without truncation, and reading the text back gives the same octets, escapes and all.
\<close>

theorem name_text_roundtrip:
  assumes "wf_name n" and "4 * ELPIS_MAX_NAME \<le> sz"
  shows "\<exists>t. elpis_name_to_text n sz = Ok t \<and> elpis_name_from_text t = Ok n"
  using assms(1)
proof (rule wf_nameE)
  fix ls assume *: "n = name_of ls" "ok_labels ls"
  have "length (text_name ls) < sz"
    using text_name_length [of ls] ok_labels_len [OF *(2)] assms(2) by (simp add: length_wire)
  then have "elpis_name_to_text n sz = Ok (if ls = [] then [0x2E] else text_name ls)"
    using * assms(2) by (simp add: to_text_fits)
  moreover have "elpis_name_from_text (if ls = [] then [0x2E] else text_name ls) = Ok n"
    using * from_text_of_name [of ls]
    by (auto simp: elpis_name_from_text_def elpis_name_init_root_def elpis_name_root_def name_of_def)
  ultimately show ?thesis by blast
qed

theorem name_text_roundtrip_witness:
  "\<exists>t. elpis_name_to_text (name_of [[0x61, 0x2E, 0xFF], [0x62]]) 1020 = Ok t \<and>
       elpis_name_from_text t = Ok (name_of [[0x61, 0x2E, 0xFF], [0x62]])"
  by (rule name_text_roundtrip) (simp_all add: ok_labels_def)

text \<open>
  Property C13. Zone membership: for well-formed names the two tests \<open>elpis_name_is_subdomain\<close> (a compare at
  a label boundary) and \<open>elpis_name_covers\<close> (a suffix copy and a compare) agree, and both hold
  exactly when the labels of the zone are, up to ASCII case, the last labels of the name.
\<close>

theorem name_subdomain_spec:
  assumes "wf_name sub" and "wf_name zone"
  shows "(elpis_name_is_subdomain sub zone \<longleftrightarrow>
      (\<exists>ps. fold_labels (name_labels sub) = ps @ fold_labels (name_labels zone))) \<and>
    (elpis_name_covers zone sub \<longleftrightarrow> elpis_name_is_subdomain sub zone)"
  using assms
  by (elim wf_nameE) (simp add: name_is_subdomain_of name_covers_of below_iff ok_labels_valid)

theorem name_subdomain_spec_witness:
  "(elpis_name_is_subdomain (name_of [[0x61], [0x62]]) (name_of [[0x42]]) \<longleftrightarrow>
      (\<exists>ps. fold_labels (name_labels (name_of [[0x61], [0x62]])) =
         ps @ fold_labels (name_labels (name_of [[0x42]])))) \<and>
    (elpis_name_covers (name_of [[0x42]]) (name_of [[0x61], [0x62]]) \<longleftrightarrow>
     elpis_name_is_subdomain (name_of [[0x61], [0x62]]) (name_of [[0x42]]))"
  by (rule name_subdomain_spec) (simp_all add: ok_labels_def)

text \<open>
  Property C14. DNAME substitution: replacing the suffix \<open>owner\<close> of a name by \<open>target\<close> keeps the labels in
  front of it and appends those of the target; it fails exactly when the name is not below the
  owner or the result would pass 255 octets, and what it returns is well formed.
\<close>

theorem name_substitute_spec:
  assumes "wf_name n" and "wf_name owner" and "wf_name target"
  shows "elpis_name_substitute n owner target =
    (let ls = take (length (name_labels n) - length (name_labels owner)) (name_labels n) @ name_labels target in
     if elpis_name_is_subdomain n owner \<and> length (wire ls) \<le> ELPIS_MAX_NAME then Ok (name_of ls)
     else Err ELPIS_EFORMAT)"
  using assms
  by (elim wf_nameE) (simp add: name_substitute_of name_is_subdomain_of ok_labels_valid Let_def)

theorem name_substitute_spec_witness:
  "elpis_name_substitute (name_of [[0x61], [0x62]]) (name_of [[0x42]]) (name_of [[0x63], [0x64]]) =
     Ok (name_of [[0x61], [0x63], [0x64]])"
  by (subst name_substitute_spec)
     (simp_all add: ok_labels_def name_is_subdomain_of below_def fold_labels_def fold_label_def lower_byte_def)

text \<open>
  Property C11. The canonical order of RFC 4034: \<open>elpis_name_canon_cmp\<close> is the lexicographic comparison of
  the label sequences read from the root, each label compared as case-folded unsigned octets.  So it
  is a total order on names up to case, and its zero is \<open>elpis_name_eq\<close>.
\<close>

theorem name_canon_order:
  assumes "wf_name a" and "wf_name b"
  shows "elpis_name_canon_cmp a b =
      (if canon_key (name_labels a) < canon_key (name_labels b) then -1
       else if canon_key (name_labels a) = canon_key (name_labels b) then 0 else 1) \<and>
    (elpis_name_canon_cmp a b = 0 \<longleftrightarrow> elpis_name_eq a b)"
  using assms
  by (elim wf_nameE) (auto simp: name_canon_cmp_of cmp3_lex name_eq_of ok_labels_valid simp flip: canon_key_eq)

theorem name_canon_order_witness:
  "elpis_name_canon_cmp (name_of [[0x61], [0x62]]) (name_of [[0x5A], [0x42]]) = -1"
proof -
  have "canon_key [[0x61], [0x62]] < canon_key [[0x5A], [0x42]]"
    by (simp add: canon_key_def fold_labels_def fold_label_def lower_byte_def)
  then show ?thesis
    using name_canon_order [of "name_of [[0x61], [0x62]]" "name_of [[0x5A], [0x42]]"]
    by (simp add: ok_labels_def)
qed

text \<open>
  Property C16. \<open>elpis_name_common_labels\<close> counts the labels of the longest common ancestor: the longest
  common prefix, up to case, of the two label sequences read from the root.
\<close>

theorem name_common_labels_spec:
  assumes "wf_name a" and "wf_name b"
  shows "elpis_name_common_labels a b =
    length (longest_common_prefix (canon_key (name_labels a)) (canon_key (name_labels b)))"
  using assms by (elim wf_nameE) (simp add: name_common_labels_of ok_labels_valid canon_key_def)

theorem name_common_labels_spec_witness:
  "elpis_name_common_labels (name_of [[0x61], [0x62], [0x63]]) (name_of [[0x64], [0x42], [0x63]]) = 2"
  by (subst name_common_labels_spec)
     (simp_all add: ok_labels_def canon_key_def fold_labels_def fold_label_def lower_byte_def)

end
