(* ===== verification/Elpis_Util.thy ===== *)
theory Elpis_Util
  imports Elpis_Base
begin

unbundle bit_operations_syntax

text \<open>
  Strings, numbers and addresses, the second half of \<open>src/util.c\<close>: the locale-independent
  comparison, the decimal, size and duration parsers of the configuration, address literals of
  both families and CIDR prefixes.

  A C string is the list of its octets without the terminator, so that \<open>*s == 0\<close> is the empty
  list.  A pointer that may be NULL is an option.  A result of 0 with an output parameter is
  \<open>Some\<close>, a result of -1 is \<open>None\<close>.  What \<open>snprintf\<close> writes for \<open>%u\<close> and \<open>%x\<close> is
  \<open>udec\<close> and \<open>uhex\<close>.
\<close>

section \<open>Definitions\<close>

definition lit :: "string \<Rightarrow> buffer" where
  "lit s = map of_char s"

definition ascii_lower :: "byte \<Rightarrow> byte" where
  "ascii_lower c = (if 0x41 \<le> c \<and> c \<le> 0x5A then c + 32 else c)"

text \<open>The difference of the first octets that differ, the terminator included.\<close>

fun elpis_strcasecmp_ascii :: "buffer \<Rightarrow> buffer \<Rightarrow> int" where
  "elpis_strcasecmp_ascii [] [] = 0"
| "elpis_strcasecmp_ascii (a # as) [] = int (unat (ascii_lower a))"
| "elpis_strcasecmp_ascii [] (b # bs) = - int (unat (ascii_lower b))"
| "elpis_strcasecmp_ascii (a # as) (b # bs) =
     (if ascii_lower a \<noteq> ascii_lower b then int (unat (ascii_lower a)) - int (unat (ascii_lower b))
      else elpis_strcasecmp_ascii as bs)"

definition is_blank :: "byte \<Rightarrow> bool" where
  "is_blank c \<longleftrightarrow> c = 0x20 \<or> c = 0x09"

definition is_digit :: "byte \<Rightarrow> bool" where
  "is_digit c \<longleftrightarrow> 0x30 \<le> c \<and> c \<le> 0x39"

definition skip_blank :: "buffer \<Rightarrow> buffer" where
  "skip_blank s = dropWhile is_blank s"

text \<open>The digit loop of \<open>elpis_parse_u32\<close> and \<open>elpis_parse_duration\<close>: value, digits read, rest.\<close>

fun digits32 :: "u64 \<Rightarrow> nat \<Rightarrow> buffer \<Rightarrow> (u64 \<times> nat \<times> buffer) option" where
  "digits32 v k [] = Some (v, k, [])"
| "digits32 v k (c # s) =
     (if is_digit c then
        let v' = v * 10 + ucast (c - 0x30) in
        if 0xFFFFFFFF < v' then None else digits32 v' (k + 1) s
      else Some (v, k, c # s))"

definition elpis_parse_u32 :: "buffer option \<Rightarrow> u32 option" where
  "elpis_parse_u32 sp =
     (case sp of None \<Rightarrow> None
      | Some s \<Rightarrow>
        (case digits32 0 0 (skip_blank s) of None \<Rightarrow> None
         | Some (v, k, r) \<Rightarrow> if k = 0 \<or> skip_blank r \<noteq> [] then None else Some (ucast v)))"

text \<open>The digit loop of \<open>elpis_parse_size\<close>, whose only overflow test is that the value grew.\<close>

fun digits64 :: "u64 \<Rightarrow> nat \<Rightarrow> buffer \<Rightarrow> (u64 \<times> nat \<times> buffer) option" where
  "digits64 v k [] = Some (v, k, [])"
| "digits64 v k (c # s) =
     (if is_digit c then
        let nv = v * 10 + ucast (c - 0x30) in
        if nv < v then None else digits64 nv (k + 1) s
      else Some (v, k, c # s))"

definition size_unit :: "buffer \<Rightarrow> u64 \<times> buffer" where
  "size_unit s =
     (case s of [] \<Rightarrow> (1, s)
      | c # r \<Rightarrow>
        if c = 0x6B \<or> c = 0x4B then (1024, r)
        else if c = 0x6D \<or> c = 0x4D then (1024 * 1024, r)
        else if c = 0x67 \<or> c = 0x47 then (1024 * 1024 * 1024, r)
        else if c = 0x74 \<or> c = 0x54 then (1024 * 1024 * 1024 * 1024, r)
        else (1, s))"

definition skip_b :: "buffer \<Rightarrow> buffer" where
  "skip_b s = (case s of c # r \<Rightarrow> if c = 0x62 \<or> c = 0x42 then r else s | [] \<Rightarrow> s)"

definition elpis_parse_size :: "buffer option \<Rightarrow> u64 option" where
  "elpis_parse_size sp =
     (case sp of None \<Rightarrow> None
      | Some s \<Rightarrow>
        (case digits64 0 0 (skip_blank s) of None \<Rightarrow> None
         | Some (v, k, r) \<Rightarrow>
           if k = 0 then None
           else let (mul, r') = size_unit r in
             if skip_blank (skip_b r') \<noteq> [] then None
             else if (- 1) div mul < v then None
             else Some (v * mul)))"

definition duration_unit :: "buffer \<Rightarrow> u64 \<times> buffer" where
  "duration_unit s =
     (case s of [] \<Rightarrow> (1, s)
      | c # r \<Rightarrow>
        if c = 0x73 \<or> c = 0x53 then (1, r)
        else if c = 0x6D \<or> c = 0x4D then (60, r)
        else if c = 0x68 \<or> c = 0x48 then (3600, r)
        else if c = 0x64 \<or> c = 0x44 then (86400, r)
        else if c = 0x77 \<or> c = 0x57 then (604800, r)
        else (1, s))"

definition elpis_parse_duration :: "buffer option \<Rightarrow> u32 option" where
  "elpis_parse_duration sp =
     (case sp of None \<Rightarrow> None
      | Some s \<Rightarrow>
        (case digits32 0 0 (skip_blank s) of None \<Rightarrow> None
         | Some (v, k, r) \<Rightarrow>
           if k = 0 then None
           else let (mul, r') = duration_unit r in
             if skip_blank r' \<noteq> [] then None
             else let v' = v * mul in
               Some (ucast (if 0xFFFFFFFF < v' then 0xFFFFFFFF else v'))))"

definition elpis_parse_bool :: "buffer option \<Rightarrow> bool option" where
  "elpis_parse_bool sp =
     (case sp of None \<Rightarrow> None
      | Some s \<Rightarrow>
        if elpis_strcasecmp_ascii s (lit ''yes'') = 0 \<or> elpis_strcasecmp_ascii s (lit ''true'') = 0 \<or>
           elpis_strcasecmp_ascii s (lit ''on'') = 0 \<or> s = lit ''1'' then Some True
        else if elpis_strcasecmp_ascii s (lit ''no'') = 0 \<or> elpis_strcasecmp_ascii s (lit ''false'') = 0 \<or>
           elpis_strcasecmp_ascii s (lit ''off'') = 0 \<or> s = lit ''0'' then Some False
        else None)"

text \<open>The accumulated difference of \<open>n\<close> octets of both buffers.\<close>

fun ct_diff :: "buffer \<Rightarrow> buffer \<Rightarrow> nat \<Rightarrow> byte \<Rightarrow> byte" where
  "ct_diff x y 0 d = d"
| "ct_diff x y (Suc n) d = ct_diff (tl x) (tl y) n (d OR (hd x XOR hd y))"

definition elpis_ct_memcmp :: "buffer \<Rightarrow> buffer \<Rightarrow> nat \<Rightarrow> bool" where
  "elpis_ct_memcmp x y n \<longleftrightarrow> ct_diff x y n 0 \<noteq> 0"

section \<open>Address literals\<close>

text \<open>\<open>tmp\<close> holds the octets finished so far, so that \<open>octet\<close> is its length.\<close>

fun pton4_loop :: "buffer \<Rightarrow> nat \<Rightarrow> nat \<Rightarrow> buffer \<Rightarrow> buffer option" where
  "pton4_loop tmp v digits [] =
     (if digits = 0 \<or> 3 < length tmp then None
      else if length tmp + 1 \<noteq> 4 then None
      else Some (tmp @ [word_of_nat v]))"
| "pton4_loop tmp v digits (c # s) =
     (if is_digit c then
        if digits = 3 then None
        else if digits = 1 \<and> v = 0 then None
        else let v' = v * 10 + (unat c - 0x30) in
          if 255 < v' then None else pton4_loop tmp v' (digits + 1) s
      else if c = 0x2E then
        if digits = 0 \<or> 3 < length tmp then None
        else if length tmp + 1 = 4 then None
        else pton4_loop (tmp @ [word_of_nat v]) 0 0 s
      else None)"

definition elpis_pton4 :: "buffer \<Rightarrow> buffer option" where
  "elpis_pton4 s = pton4_loop [] 0 0 s"

definition is_xdigit :: "byte \<Rightarrow> bool" where
  "is_xdigit c \<longleftrightarrow> is_digit c \<or> (0x61 \<le> c \<and> c \<le> 0x66) \<or> (0x41 \<le> c \<and> c \<le> 0x46)"

definition xdigit :: "byte \<Rightarrow> nat" where
  "xdigit c = (if is_digit c then unat c - 0x30
               else if 0x61 \<le> c \<and> c \<le> 0x66 then unat c - 0x61 + 10 else unat c - 0x41 + 10)"

text \<open>The hexadecimal digits of one group: value, digits read, rest.\<close>

fun hex_group :: "u32 \<Rightarrow> nat \<Rightarrow> buffer \<Rightarrow> (u32 \<times> nat \<times> buffer) option" where
  "hex_group g k [] = Some (g, k, [])"
| "hex_group g k (c # s) =
     (if is_xdigit c then
        if 4 < k + 1 then None
        else hex_group (push_bit 4 g OR word_of_nat (xdigit c)) (k + 1) s
      else Some (g, k, c # s))"

lemma hex_group_length: "hex_group g k s = Some (g', k', r) \<Longrightarrow> k \<le> k' \<and> length r + (k' - k) = length s"
  by (induction g k s rule: hex_group.induct) (auto split: if_splits)

text \<open>
  The groups of an IPv6 literal.  \<open>tmp\<close> and \<open>after\<close> hold the octets before and after the
  double colon, \<open>gap\<close> says whether it was seen; the octets go to \<open>after\<close> once it was.
\<close>

function pton6_loop :: "buffer \<Rightarrow> buffer \<Rightarrow> bool \<Rightarrow> buffer \<Rightarrow> (buffer \<times> buffer \<times> bool) option" where
  "pton6_loop tmp after gap start =
     (case hex_group 0 0 start of None \<Rightarrow> None
      | Some (grp, digits, s) \<Rightarrow>
        let cnt = length (if gap then after else tmp);
            put = (\<lambda>b. if gap then (tmp, after @ b) else (tmp @ b, after)) in
        if s \<noteq> [] \<and> hd s = 0x2E \<and> 0 < digits then
          if 16 < cnt + 4 then None
          else (case elpis_pton4 start of None \<Rightarrow> None
                | Some v4 \<Rightarrow> let (tmp', after') = put v4 in Some (tmp', after', gap))
        else if digits = 0 then None
        else if 16 < cnt + 2 then None
        else let (tmp', after') = put [ucast (drop_bit 8 grp), ucast grp] in
          (case s of [] \<Rightarrow> Some (tmp', after', gap)
           | c # s1 \<Rightarrow>
             if c \<noteq> 0x3A then None
             else if s1 \<noteq> [] \<and> hd s1 = 0x3A then
               if gap then None
               else if tl s1 = [] then Some (tmp', after', True)
               else pton6_loop tmp' after' True (tl s1)
             else pton6_loop tmp' after' gap s1))"
  by pat_completeness auto
termination
proof (relation "measure (\<lambda>(tmp, after, gap, s). length s)", simp)
qed (auto dest!: hex_group_length)

declare pton6_loop.simps [simp del]

definition pton6_done :: "buffer \<times> buffer \<times> bool \<Rightarrow> buffer option" where
  "pton6_done r =
     (case r of (tmp, after, gap) \<Rightarrow>
        if \<not> gap then (if length tmp \<noteq> 16 then None else Some tmp)
        else if 14 < length tmp + length after then None
        else Some (tmp @ replicate (16 - length tmp - length after) 0 @ after))"

definition elpis_pton6 :: "buffer \<Rightarrow> buffer option" where
  "elpis_pton6 s =
     (if s \<noteq> [] \<and> hd s = 0x3A then
        (case tl s of
           c # r \<Rightarrow> if c \<noteq> 0x3A then None
                    else if r = [] then pton6_done ([], [], True)
                    else Option.bind (pton6_loop [] [] True r) pton6_done
         | [] \<Rightarrow> None)
      else Option.bind (pton6_loop [] [] False s) pton6_done)"

text \<open>\<open>printf\<close> of an unsigned integer, decimal and hexadecimal.\<close>

fun udec :: "nat \<Rightarrow> buffer" where
  "udec n = (if n < 10 then [word_of_nat (48 + n)] else udec (n div 10) @ [word_of_nat (48 + n mod 10)])"

definition hexchar :: "nat \<Rightarrow> byte" where
  "hexchar d = word_of_nat (if d < 10 then 48 + d else 87 + d)"

fun uhex :: "nat \<Rightarrow> buffer" where
  "uhex n = (if n < 16 then [hexchar n] else uhex (n div 16) @ [hexchar (n mod 16)])"

declare udec.simps [simp del] uhex.simps [simp del]

text \<open>An \<open>snprintf\<close> at the end of what a buffer of \<open>sz\<close> octets holds, refused when it is cut.\<close>

definition sappend :: "nat \<Rightarrow> buffer \<Rightarrow> buffer \<Rightarrow> buffer option" where
  "sappend sz buf t = (if length buf + length t < sz then Some (buf @ t) else None)"

definition elpis_ntop4 :: "buffer \<Rightarrow> nat \<Rightarrow> buffer option" where
  "elpis_ntop4 ip sz =
     sappend sz [] (udec (unat (ip ! 0)) @ [0x2E] @ udec (unat (ip ! 1)) @ [0x2E] @
       udec (unat (ip ! 2)) @ [0x2E] @ udec (unat (ip ! 3)))"

definition groups6 :: "buffer \<Rightarrow> u16 list" where
  "groups6 ip = map (\<lambda>i. push_bit 8 (ucast (ip ! (i * 2))) OR ucast (ip ! (i * 2 + 1))) [0..<8]"

text \<open>The longest run of zero groups: where it starts and how long it is.\<close>

fun zero_run :: "u16 list \<Rightarrow> nat \<Rightarrow> int \<Rightarrow> nat \<Rightarrow> int \<Rightarrow> nat \<Rightarrow> int \<times> nat" where
  "zero_run [] i best bestlen cur curlen = (best, bestlen)"
| "zero_run (g # gs) i best bestlen cur curlen =
     (if g = 0 then
        let (cur', curlen') = (if cur < 0 then (int i, 1) else (cur, curlen + 1)) in
        if bestlen < curlen' then zero_run gs (i + 1) cur' curlen' cur' curlen'
        else zero_run gs (i + 1) best bestlen cur' curlen'
      else zero_run gs (i + 1) best bestlen (- 1) 0)"

function ntop6_loop :: "u16 list \<Rightarrow> int \<Rightarrow> nat \<Rightarrow> nat \<Rightarrow> nat \<Rightarrow> buffer \<Rightarrow> buffer option" where
  "ntop6_loop g best bestlen sz i buf =
     (if \<not> i < 8 then Some buf
      else if 0 \<le> best \<and> int i = best then
        Option.bind (sappend sz buf [0x3A, 0x3A]) (ntop6_loop g best bestlen sz (i + (bestlen - 1) + 1))
      else
        Option.bind
          (sappend sz buf
             ((if 0 < i \<and> \<not> (0 \<le> best \<and> int i = best + int bestlen) then [0x3A] else []) @ uhex (unat (g ! i))))
          (ntop6_loop g best bestlen sz (i + 1)))"
  by pat_completeness auto
termination
  by (relation "measure (\<lambda>(g, best, bestlen, sz, i, buf). 8 - i)") auto

declare ntop6_loop.simps [simp del]

definition elpis_ntop6 :: "buffer \<Rightarrow> nat \<Rightarrow> buffer option" where
  "elpis_ntop6 ip sz =
     (let g = groups6 ip;
          (best0, bestlen) = zero_run g 0 (- 1) 0 (- 1) 0;
          best = (if bestlen < 2 then - 1 else best0)
      in map_option (\<lambda>buf. if buf = [] \<and> 1 < sz then [0x3A, 0x3A] else buf)
           (ntop6_loop g best bestlen sz 0 []))"

text \<open>A socket address: its family with the address octets and the port in host order.\<close>

datatype elpis_addr = AF_INET buffer u16 | AF_INET6 buffer u16 | AF_OTHER

definition elpis_addr_from4 :: "buffer \<Rightarrow> u16 \<Rightarrow> elpis_addr" where
  "elpis_addr_from4 ip port = AF_INET ip port"

definition elpis_addr_from6 :: "buffer \<Rightarrow> u16 \<Rightarrow> elpis_addr" where
  "elpis_addr_from6 ip port = AF_INET6 ip port"

definition strchr :: "byte \<Rightarrow> buffer \<Rightarrow> nat option" where
  "strchr c s = (if c \<in> set s then Some (length (takeWhile (\<lambda>x. x \<noteq> c) s)) else None)"

definition strrchr :: "byte \<Rightarrow> buffer \<Rightarrow> nat option" where
  "strrchr c s = map_option (\<lambda>i. length s - 1 - i) (strchr c (rev s))"

text \<open>Host part and port part of an address literal.\<close>

definition split_port :: "buffer \<Rightarrow> (buffer \<times> buffer option) option" where
  "split_port s =
     (if hd s = 0x5B then
        (case strchr 0x5D s of None \<Rightarrow> None
         | Some e \<Rightarrow>
           let hl = e - 1; rest = drop (e + 1) s in
           if 128 \<le> hl then None
           else if rest \<noteq> [] \<and> (hd rest = 0x3A \<or> hd rest = 0x40) then Some (take hl (tl s), Some (tl rest))
           else if rest \<noteq> [] then None
           else Some (take hl (tl s), None))
      else
        let sep = (case strchr 0x40 s of Some i \<Rightarrow> Some i
                   | None \<Rightarrow> (case strrchr 0x3A s of None \<Rightarrow> None
                             | Some i \<Rightarrow> if strchr 0x3A s = Some i then Some i else None));
            (hl, pstr) = (case sep of Some i \<Rightarrow> (i, Some (drop (i + 1) s)) | None \<Rightarrow> (length s, None))
        in if 128 \<le> hl then None else Some (take hl s, pstr))"

definition elpis_addr_parse :: "buffer option \<Rightarrow> u16 \<Rightarrow> elpis_addr option" where
  "elpis_addr_parse sp defport =
     (if sp = None \<or> sp = Some [] then None
      else
        (case split_port (the sp) of None \<Rightarrow> None
         | Some (host, pstr) \<Rightarrow>
           (case (case pstr of None \<Rightarrow> Some defport
                  | Some ps \<Rightarrow>
                    (case elpis_parse_u32 (Some ps) of None \<Rightarrow> None
                     | Some v \<Rightarrow> if v = 0 \<or> 65535 < v then None else Some (ucast v))) of
              None \<Rightarrow> None
            | Some port \<Rightarrow>
              (case elpis_pton4 host of Some ip4 \<Rightarrow> Some (elpis_addr_from4 ip4 port)
               | None \<Rightarrow>
                 (case elpis_pton6 host of Some ip6 \<Rightarrow> Some (elpis_addr_from6 ip6 port)
                  | None \<Rightarrow> None)))))"

text \<open>What a buffer of \<open>sz\<close> octets keeps of a string, \<open>dst\<close> when it has none.\<close>

definition elpis_strlcpy :: "buffer \<Rightarrow> buffer \<Rightarrow> nat \<Rightarrow> buffer \<times> nat" where
  "elpis_strlcpy dst src sz =
     (if sz \<noteq> 0 then take (if sz \<le> length src then sz - 1 else length src) src else dst, length src)"

definition elpis_strlcat :: "buffer \<Rightarrow> buffer \<Rightarrow> nat \<Rightarrow> buffer \<times> nat" where
  "elpis_strlcat dst src sz =
     (let dl = min (length dst) sz in
      if dl = sz then (dst, sz + length src)
      else (dst @ fst (elpis_strlcpy [] src (sz - dl)), dl + length src))"

definition is_space :: "byte \<Rightarrow> bool" where
  "is_space c \<longleftrightarrow> c = 0x20 \<or> c = 0x09 \<or> c = 0x0D \<or> c = 0x0A"

definition elpis_strtrim :: "buffer \<Rightarrow> buffer" where
  "elpis_strtrim s = rev (dropWhile is_space (rev (dropWhile is_space s)))"

definition elpis_addr_str :: "elpis_addr option \<Rightarrow> nat \<Rightarrow> buffer" where
  "elpis_addr_str a sz =
     (case a of None \<Rightarrow> fst (elpis_strlcpy [] (lit ''(null)'') sz)
      | Some (AF_INET ip port) \<Rightarrow>
          let t = (case elpis_ntop4 ip 64 of Some t \<Rightarrow> t | None \<Rightarrow> lit ''?'') in
          take (sz - 1) (t @ [0x3A] @ udec (unat port))
      | Some (AF_INET6 ip port) \<Rightarrow>
          let t = (case elpis_ntop6 ip 64 of Some t \<Rightarrow> t | None \<Rightarrow> lit ''?'') in
          take (sz - 1) ([0x5B] @ t @ [0x5D, 0x3A] @ udec (unat port))
      | Some AF_OTHER \<Rightarrow> fst (elpis_strlcpy [] (lit ''(unspec)'') sz))"

definition elpis_addr_host_str :: "elpis_addr option \<Rightarrow> nat \<Rightarrow> buffer" where
  "elpis_addr_host_str a sz =
     (case (case a of Some (AF_INET ip _) \<Rightarrow> elpis_ntop4 ip sz
            | Some (AF_INET6 ip _) \<Rightarrow> elpis_ntop6 ip sz | _ \<Rightarrow> None) of
        Some t \<Rightarrow> t | None \<Rightarrow> elpis_addr_str a sz)"

definition elpis_addr_port :: "elpis_addr \<Rightarrow> u16" where
  "elpis_addr_port a = (case a of AF_INET _ p \<Rightarrow> p | AF_INET6 _ p \<Rightarrow> p | AF_OTHER \<Rightarrow> 0)"

definition elpis_addr_eq_ip :: "elpis_addr \<Rightarrow> elpis_addr \<Rightarrow> bool" where
  "elpis_addr_eq_ip a b =
     (case (a, b) of (AF_INET x _, AF_INET y _) \<Rightarrow> take 4 x = take 4 y
      | (AF_INET6 x _, AF_INET6 y _) \<Rightarrow> take 16 x = take 16 y
      | _ \<Rightarrow> False)"

definition elpis_addr_eq :: "elpis_addr \<Rightarrow> elpis_addr \<Rightarrow> bool" where
  "elpis_addr_eq a b \<longleftrightarrow> elpis_addr_eq_ip a b \<and> elpis_addr_port a = elpis_addr_port b"

definition fnv_step :: "u64 \<Rightarrow> u64 \<Rightarrow> u64" where
  "fnv_step h x = (h XOR x) * 0x100000001b3"

definition elpis_addr_hash :: "elpis_addr \<Rightarrow> u64" where
  "elpis_addr_hash a =
     (let h = 0xcbf29ce484222325 in
      case a of AF_OTHER \<Rightarrow> h
      | AF_INET ip p \<Rightarrow> fnv_step (foldl (\<lambda>h x. fnv_step h (ucast x)) h (take 4 ip)) (ucast p)
      | AF_INET6 ip p \<Rightarrow> fnv_step (foldl (\<lambda>h x. fnv_step h (ucast x)) h (take 16 ip)) (ucast p))"

section \<open>Prefixes\<close>

datatype af = AF_unspec | AF_v4 | AF_v6

record elpis_prefix =
  pip :: buffer
  pbits :: byte
  pfamily :: af

definition prefix_bits :: "buffer option \<Rightarrow> u32 \<Rightarrow> u32 option" where
  "prefix_bits tail most =
     (case tail of None \<Rightarrow> Some most
      | Some t \<Rightarrow> (case elpis_parse_u32 (Some t) of None \<Rightarrow> None
                  | Some b \<Rightarrow> if most < b then None else Some b))"

definition elpis_prefix_parse :: "buffer \<Rightarrow> elpis_prefix option" where
  "elpis_prefix_parse s =
     (let slash = strchr 0x2F s;
          hl = (case slash of Some i \<Rightarrow> i | None \<Rightarrow> length s);
          tail = map_option (\<lambda>i. drop (i + 1) s) slash;
          host = take hl s
      in if 128 \<le> hl then None
         else (case elpis_pton4 host of
                 Some ip4 \<Rightarrow>
                   map_option (\<lambda>b. \<lparr>pip = overwrite (replicate 16 0) 0 ip4, pbits = ucast b, pfamily = AF_v4\<rparr>)
                     (prefix_bits tail 32)
               | None \<Rightarrow>
                 (case elpis_pton6 host of
                    Some ip6 \<Rightarrow>
                      map_option (\<lambda>b. \<lparr>pip = overwrite (replicate 16 0) 0 ip6, pbits = ucast b, pfamily = AF_v6\<rparr>)
                        (prefix_bits tail 128)
                  | None \<Rightarrow> None)))"

definition elpis_prefix_match :: "elpis_prefix \<Rightarrow> elpis_addr \<Rightarrow> bool" where
  "elpis_prefix_match p a =
     (case (case (pfamily p, a) of (AF_v4, AF_INET x _) \<Rightarrow> Some x | (AF_v6, AF_INET6 x _) \<Rightarrow> Some x | _ \<Rightarrow> None) of
        None \<Rightarrow> False
      | Some addr \<Rightarrow>
        let bytes = unat (pbits p) div 8; rem = unat (pbits p) mod 8 in
        if 0 < bytes \<and> take bytes addr \<noteq> take bytes (pip p) then False
        else if 0 < rem then
          let mask = (push_bit (8 - rem) 0xFF :: byte) in
          (addr ! bytes XOR pip p ! bytes) AND mask = 0
        else True)"

section \<open>Numbers\<close>

text \<open>The value of a string of digits read after the value \<open>v\<close>.\<close>

fun dval :: "nat \<Rightarrow> buffer \<Rightarrow> nat" where
  "dval v [] = v"
| "dval v (c # s) = dval (v * 10 + (unat c - 48)) s"

lemma unat_ucast: "unat (ucast (x :: 'a::len word) :: 'b::len word) = unat x mod 2 ^ LENGTH('b)"
  by (simp add: unsigned_ucast_eq take_bit_eq_mod)

lemma digit_range: "is_digit c \<longleftrightarrow> 48 \<le> unat c \<and> unat c \<le> 57"
  by (simp add: is_digit_def word_le_nat_alt)

lemma digit_value: "is_digit c \<Longrightarrow> unat (ucast (c - 0x30) :: u64) = unat c - 48"
proof -
  assume "is_digit c"
  then have "48 \<le> unat c" by (simp add: digit_range)
  then have "unat (c - 0x30) = unat c - 48" by (subst unat_sub) (auto simp: word_le_nat_alt)
  then show ?thesis using unat_byte_less [of c] by (simp add: unat_ucast)
qed

lemma dval_ge: "v \<le> dval v s"
proof (induction s arbitrary: v)
  case (Cons c s)
  show ?case using Cons [of "v * 10 + (unat c - 48)"] by simp
qed simp

lemma dval_append: "dval v (a @ b) = dval (dval v a) b"
  by (induction a arbitrary: v) auto

lemma unat_dec_step:
  assumes "unat v \<le> 0xFFFFFFFF" and "is_digit c"
  shows "unat (v * 10 + ucast (c - 0x30) :: u64) = unat v * 10 + (unat c - 48)"
proof -
  have "unat c - 48 \<le> 9" using assms(2) unfolding digit_range by linarith
  then have "unat v * 10 + (unat c - 48) < 2 ^ 64" using assms(1) by simp
  then show ?thesis using digit_value [OF assms(2)] by (simp add: unat_word_ariths)
qed

lemma digits32_spec:
  "unat v \<le> 0xFFFFFFFF \<Longrightarrow> digits32 v k s =
     (let n = dval (unat v) (takeWhile is_digit s) in
      if n \<le> 0xFFFFFFFF then Some (word_of_nat n, k + length (takeWhile is_digit s), dropWhile is_digit s) else None)"
proof (induction v k s rule: digits32.induct)
  case (1 v k)
  then show ?case by simp
next
  case (2 v k c s)
  show ?case
  proof (cases "is_digit c")
    case True
    define v' where "v' = v * 10 + ucast (c - 0x30)"
    have v': "unat v' = unat v * 10 + (unat c - 48)" using unat_dec_step [OF 2(2) True] by (simp add: v'_def)
    show ?thesis
    proof (cases "0xFFFFFFFF < v'")
      case big: True
      then have "0xFFFFFFFF < unat v'" by (simp add: word_less_nat_alt)
      then have "0xFFFFFFFF < dval (unat v') (takeWhile is_digit s)" using dval_ge le_less_trans less_le_trans by blast
      then show ?thesis using True big v' by (simp add: v'_def Let_def)
    next
      case False
      then have "unat v' \<le> 0xFFFFFFFF" by (simp add: word_less_nat_alt not_less)
      then show ?thesis using 2(1) [OF True v'_def False] True False v' by (simp add: v'_def [symmetric] Let_def)
    qed
  qed (use 2(2) in simp)
qed

lemma blank_not_digit: "is_blank c \<Longrightarrow> \<not> is_digit c"
  by (auto simp: is_blank_def is_digit_def)

lemma skip_blank_Nil: "skip_blank s = [] \<longleftrightarrow> list_all is_blank s"
  by (simp add: skip_blank_def list_all_iff)

lemma skip_blank_id: "s \<noteq> [] \<Longrightarrow> \<not> is_blank (hd s) \<Longrightarrow> skip_blank s = s"
  by (cases s) (auto simp: skip_blank_def)

text \<open>Blanks, digits and a rest that does not start with a digit.\<close>

lemma number_split:
  assumes "list_all is_blank a" and "ds \<noteq> []" and "list_all is_digit ds" and "b = [] \<or> \<not> is_digit (hd b)"
  shows "takeWhile is_digit (skip_blank (a @ ds @ b)) = ds" and "dropWhile is_digit (skip_blank (a @ ds @ b)) = b"
proof -
  have "skip_blank (a @ ds @ b) = ds @ b"
    using assms by (cases ds) (auto simp: skip_blank_def list_all_iff dropWhile_append3 dest: blank_not_digit)
  then show "takeWhile is_digit (skip_blank (a @ ds @ b)) = ds" "dropWhile is_digit (skip_blank (a @ ds @ b)) = b"
    using assms by (cases b; auto simp: list_all_iff takeWhile_append2 dropWhile_append2)+
qed

lemma number_cases: "s = takeWhile is_blank s @ takeWhile is_digit (skip_blank s) @ dropWhile is_digit (skip_blank s)"
  by (simp add: skip_blank_def)

lemma list_all_takeWhile: "list_all P (takeWhile P s)"
  by (auto simp: list_all_iff dest: set_takeWhileD)

lemma parse_u32_iff:
  "elpis_parse_u32 (Some s) = Some v \<longleftrightarrow>
     (\<exists>a ds b. s = a @ ds @ b \<and> list_all is_blank a \<and> list_all is_digit ds \<and> ds \<noteq> [] \<and> list_all is_blank b \<and>
        dval 0 ds = unat v)" (is "?l \<longleftrightarrow> ?r")
proof
  let ?ds = "takeWhile is_digit (skip_blank s)"
  assume ?l
  then have *: "dval 0 ?ds \<le> 0xFFFFFFFF" "?ds \<noteq> []" "list_all is_blank (dropWhile is_digit (skip_blank s))" "v = ucast (word_of_nat (dval 0 ?ds) :: u64)"
    by (auto simp: elpis_parse_u32_def digits32_spec Let_def skip_blank_Nil split: if_splits)
  then have "unat v = dval 0 ?ds" by (simp add: unat_ucast unat_of_nat)
  then show ?r using * number_cases [of s] list_all_takeWhile by metis
next
  assume ?r
  then obtain a ds b where s: "s = a @ ds @ b" "list_all is_blank a" "list_all is_digit ds" "ds \<noteq> []" "list_all is_blank b"
    "dval 0 ds = unat v" by blast
  have "b = [] \<or> \<not> is_digit (hd b)" using s(5) by (cases b) (auto dest: blank_not_digit)
  note n = number_split [OF s(2,4,3) this]
  have "unat v < 2 ^ 32" using unsigned_less [of v] by simp
  then have "unat v \<le> 0xFFFFFFFF" by simp
  moreover have "ucast (word_of_nat (unat v) :: u64) = v"
    by (rule word_unat_eq_iff [THEN iffD2]) (use \<open>unat v < 2 ^ 32\<close> in \<open>simp add: unat_ucast unat_of_nat\<close>)
  ultimately show ?l using n s(4,5,6) by (simp add: s(1) elpis_parse_u32_def digits32_spec skip_blank_Nil)
qed

text \<open>Printed decimals.\<close>

lemma udec_digit: "n < 10 \<Longrightarrow> is_digit (word_of_nat (48 + n)) \<and> unat (word_of_nat (48 + n) :: byte) = 48 + n"
  using unat_of_nat_byte [of "48 + n"] by (simp add: digit_range del: of_nat_add)

lemma udec_digits: "list_all is_digit (udec n) \<and> udec n \<noteq> [] \<and> dval v (udec n) = v * 10 ^ length (udec n) + n"
proof (induction n arbitrary: v rule: udec.induct)
  case (1 n)
  show ?case
  proof (cases "n < 10")
    case True
    then show ?thesis using udec_digit [of n] by (simp add: udec.simps [of n])
  next
    case False
    have d: "is_digit (word_of_nat (48 + n mod 10))" "unat (word_of_nat (48 + n mod 10) :: byte) = 48 + n mod 10"
      using udec_digit [of "n mod 10"] by auto
    have "dval v (udec (n div 10)) = v * 10 ^ length (udec (n div 10)) + n div 10" for v using 1 [OF False] by simp
    then show ?thesis using 1 [OF False] False d
      by (simp add: udec.simps [of n] dval_append algebra_simps)
  qed
qed

lemma dval_udec [simp]: "dval 0 (udec n) = n"
  using udec_digits [of n 0] by simp

lemma parse_u32_udec: "n < 2 ^ 32 \<Longrightarrow> elpis_parse_u32 (Some (udec n)) = Some (word_of_nat n)"
  unfolding parse_u32_iff using udec_digits [of n 0]
  by (intro exI [of _ "[]"] exI [of _ "udec n"] conjI) (auto simp: unat_of_nat)

lemma length_udec: "n < 10 ^ k \<Longrightarrow> 0 < k \<Longrightarrow> length (udec n) \<le> k"
proof (induction n arbitrary: k rule: udec.induct)
  case (1 n)
  show ?case
  proof (cases "n < 10")
    case True
    then show ?thesis using 1 by (simp add: udec.simps [of n])
  next
    case False
    then have "k \<noteq> 1" using 1(2) by auto
    then obtain j where j: "k = Suc j" "0 < j" using 1(3) by (cases k) auto
    then have "n div 10 < 10 ^ j" using 1(2) by (simp add: less_mult_imp_div_less mult.commute)
    then show ?thesis using 1(1) [OF False _ j(2)] False j(1) by (simp add: udec.simps [of n])
  qed
qed

text \<open>No leading zero.\<close>

lemma hd_udec: "0 < n \<Longrightarrow> unat (hd (udec n)) \<noteq> 48"
proof (induction n rule: udec.induct)
  case (1 n)
  show ?case
  proof (cases "n < 10")
    case True
    then show ?thesis using 1(2) udec_digit [of n] by (simp add: udec.simps [of n])
  next
    case False
    then show ?thesis using 1(1) [OF False] udec_digits [of "n div 10"] by (auto simp: udec.simps [of n] hd_append)
  qed
qed

section \<open>Dotted quads\<close>

text \<open>One octet: its digits take the state from empty to the octet's value.\<close>

lemma pton4_digits:
  assumes "list_all is_digit ds" and "k + length ds \<le> 3" and "ds \<noteq> [] \<Longrightarrow> k = 1 \<Longrightarrow> v \<noteq> 0"
    and "k = 0 \<Longrightarrow> v = 0" and "k = 0 \<Longrightarrow> 1 < length ds \<Longrightarrow> unat (hd ds) \<noteq> 48"
    and "dval v ds \<le> 255" and "1 < k \<Longrightarrow> 0 < v"
  shows "pton4_loop tmp v k (ds @ s) = pton4_loop tmp (dval v ds) (k + length ds) s"
  using assms
proof (induction ds arbitrary: v k)
  case (Cons c ds)
  let ?v = "v * 10 + (unat c - 48)"
  have c: "is_digit c" "48 \<le> unat c" using Cons.prems(1) by (auto simp: digit_range)
  have pos: "0 < k \<Longrightarrow> 0 < v" using Cons.prems(3,7) by (cases "k = 1") auto
  have v: "?v \<le> 255" using Cons.prems(6) dval_ge [of ?v ds] by simp
  have "pton4_loop tmp v k ((c # ds) @ s) = pton4_loop tmp ?v (k + 1) (ds @ s)"
    using c v Cons.prems by (auto simp: Let_def)
  also have "\<dots> = pton4_loop tmp (dval ?v ds) (k + 1 + length ds) s"
    using Cons.prems c pos by (intro Cons.IH) (auto simp: neq_Nil_conv)
  finally show ?case by simp
qed simp

lemma pton4_octet: "n \<le> 255 \<Longrightarrow> pton4_loop tmp 0 0 (udec n @ s) = pton4_loop tmp n (length (udec n)) s"
proof -
  assume n: "n \<le> 255"
  have "length (udec n) \<le> 3" using n by (intro length_udec) auto
  moreover have "1 < length (udec n) \<Longrightarrow> unat (hd (udec n)) \<noteq> 48"
    using hd_udec [of n] by (cases n) (auto simp: udec.simps [of 0])
  ultimately show ?thesis using pton4_digits [of "udec n" 0 0 tmp s] udec_digits [of n 0] n by auto
qed

definition dotted :: "buffer \<Rightarrow> buffer" where
  "dotted ip = udec (unat (ip ! 0)) @ [0x2E] @ udec (unat (ip ! 1)) @ [0x2E] @
       udec (unat (ip ! 2)) @ [0x2E] @ udec (unat (ip ! 3))"

lemma pton4_dotted:
  assumes "length ip = 4"
  shows "elpis_pton4 (dotted ip) = Some ip"
proof -
  obtain a b c d where ip: "ip = [a, b, c, d]" using assms by (auto simp: numeral_eq_Suc length_Suc_conv)
  have le: "unat x \<le> 255" for x :: byte using unat_byte_less [of x] by simp
  have nz: "length (udec n) \<noteq> 0" for n using udec_digits [of n 0] by simp
  have dot: "\<not> is_digit 0x2E" by (simp add: is_digit_def)
  show ?thesis
    using pton4_octet [OF le [of d], of _ "[]"] le nz dot
    by (simp add: ip dotted_def elpis_pton4_def pton4_octet)
qed

text \<open>Everything accepted is the dotted form of the result.\<close>

lemma udec_unique: "list_all is_digit ds \<Longrightarrow> ds \<noteq> [] \<Longrightarrow> (1 < length ds \<Longrightarrow> unat (hd ds) \<noteq> 48) \<Longrightarrow> udec (dval 0 ds) = ds"
proof (induction ds rule: rev_induct)
  case (snoc c ds)
  have c: "48 \<le> unat c" "unat c \<le> 57" using snoc.prems by (auto simp: digit_range)
  have w: "word_of_nat (48 + (unat c - 48)) = c" using c by simp
  show ?case
  proof (cases "ds = []")
    case True
    have "unat c - 48 < 10" using c by simp
    then show ?thesis using True w by (simp add: udec.simps [of "unat c - 48"])
  next
    case False
    have IH: "udec (dval 0 ds) = ds" using snoc False by (auto simp: hd_append)
    have "dval 0 ds \<noteq> 0"
    proof
      assume "dval 0 ds = 0"
      then have "ds = udec 0" using IH by simp
      then show False using snoc.prems(3) False by (simp add: udec.simps [of 0] hd_append)
    qed
    moreover define d where "d = unat c - 48"
    then have "d < 10" "word_of_nat (48 + d) = c" using c w by auto
    ultimately have "udec (dval 0 ds * 10 + d) = udec (dval 0 ds) @ [c]"
      by (subst udec.simps) (auto simp del: of_nat_add)
    then show ?thesis using IH by (simp add: dval_append d_def)
  qed
qed simp

fun dots :: "buffer \<Rightarrow> buffer" where
  "dots [] = []"
| "dots [x] = udec (unat x)"
| "dots (x # y # r) = udec (unat x) @ 0x2E # dots (y # r)"

definition plain_digits :: "buffer \<Rightarrow> bool" where
  "plain_digits ds \<longleftrightarrow> list_all is_digit ds \<and> (1 < length ds \<longrightarrow> unat (hd ds) \<noteq> 48) \<and> dval 0 ds \<le> 255"

lemma pton4_loop_Some:
  "pton4_loop tmp (dval 0 ds) (length ds) s = Some ip \<Longrightarrow> plain_digits ds \<Longrightarrow> length tmp \<le> 3 \<Longrightarrow>
   length ip = 4 \<and> (\<exists>r. ip = tmp @ r \<and> r \<noteq> [] \<and> ds @ s = dots r)"
proof (induction s arbitrary: tmp ds)
  case Nil
  then have "ip = tmp @ [word_of_nat (dval 0 ds)]" "length tmp = 3" "ds \<noteq> []" by (auto split: if_splits)
  moreover have "udec (dval 0 ds) = ds" using Nil \<open>ds \<noteq> []\<close> by (intro udec_unique) (auto simp: plain_digits_def)
  ultimately show ?case using Nil(2) by (auto simp: plain_digits_def)
next
  case (Cons c s)
  show ?case
  proof (cases "is_digit c")
    case True
    have "\<not> (length ds = 1 \<and> dval 0 ds = 0)" "dval 0 (ds @ [c]) \<le> 255" and
      l: "pton4_loop tmp (dval 0 (ds @ [c])) (length (ds @ [c])) s = Some ip"
      using Cons.prems(1) True by (auto simp: Let_def dval_append split: if_splits)
    moreover from this(1) have "1 < length (ds @ [c]) \<longrightarrow> unat (hd (ds @ [c])) \<noteq> 48"
      using Cons.prems(2) by (cases ds) (auto simp: plain_digits_def digit_range)
    ultimately have "plain_digits (ds @ [c])" using Cons.prems(2) True by (simp add: plain_digits_def)
    from Cons.IH [OF l this Cons.prems(3)] show ?thesis by simp
  next
    case False
    then have c: "c = 0x2E" "ds \<noteq> []" "length (tmp @ [word_of_nat (dval 0 ds)]) \<le> 3"
      and l: "pton4_loop (tmp @ [word_of_nat (dval 0 ds)]) (dval 0 []) (length []) s = Some ip"
      using Cons.prems by (auto split: if_splits)
    have "udec (dval 0 ds) = ds" using Cons.prems(2) c(2) by (intro udec_unique) (auto simp: plain_digits_def)
    moreover obtain r where "length ip = 4" "ip = (tmp @ [word_of_nat (dval 0 ds)]) @ r" "r \<noteq> []" "s = dots r"
      using Cons.IH [OF l _ c(3)] by (auto simp: plain_digits_def)
    ultimately show ?thesis using c(1) Cons.prems(2)
      by (auto simp: plain_digits_def neq_Nil_conv)
  qed
qed

lemma pton4_iff: "elpis_pton4 s = Some ip \<longleftrightarrow> length ip = 4 \<and> s = dotted ip"
proof
  assume "elpis_pton4 s = Some ip"
  then have "length ip = 4" "s = dots ip"
    using pton4_loop_Some [of "[]" "[]" s ip] by (auto simp: elpis_pton4_def plain_digits_def)
  then show "length ip = 4 \<and> s = dotted ip" by (auto simp: numeral_eq_Suc length_Suc_conv dotted_def)
qed (auto intro: pton4_dotted)

lemma length_dotted: "length (dotted ip) \<le> 15"
proof -
  have "length (udec (unat (x :: byte))) \<le> 3" for x using unat_byte_less [of x] by (intro length_udec) auto
  from this [of "ip ! 0"] this [of "ip ! 1"] this [of "ip ! 2"] this [of "ip ! 3"] show ?thesis by (simp add: dotted_def)
qed

lemma ntop4_dotted: "15 < sz \<Longrightarrow> elpis_ntop4 ip sz = Some (dotted ip)"
  using length_dotted [of ip] by (simp add: elpis_ntop4_def sappend_def dotted_def)

section \<open>Hexadecimal groups\<close>

lemma hexchar_props: "d < 16 \<Longrightarrow> is_xdigit (hexchar d) \<and> xdigit (hexchar d) = d"
proof -
  have "list_all (\<lambda>d. is_xdigit (hexchar d) \<and> xdigit (hexchar d) = d) [0..<16]" by code_simp
  then show "d < 16 \<Longrightarrow> is_xdigit (hexchar d) \<and> xdigit (hexchar d) = d" by (auto simp: list_all_iff)
qed

lemma uhex_props: "list_all is_xdigit (uhex n) \<and> uhex n \<noteq> []"
proof (induction n rule: uhex.induct)
  case (1 n)
  then show ?case by (subst (1 2) uhex.simps) (simp add: hexchar_props)
qed

lemma length_uhex: "n < 16 ^ k \<Longrightarrow> 0 < k \<Longrightarrow> length (uhex n) \<le> k"
proof (induction n arbitrary: k rule: uhex.induct)
  case (1 n)
  show ?case
  proof (cases "n < 16")
    case True
    then show ?thesis using 1 by (simp add: uhex.simps [of n])
  next
    case False
    then have "k \<noteq> 1" using 1(2) by auto
    then obtain j where j: "k = Suc j" "0 < j" using 1(3) by (cases k) auto
    then have "n div 16 < 16 ^ j" using 1(2) by (simp add: less_mult_imp_div_less mult.commute)
    then show ?thesis using 1(1) [OF False _ j(2)] False j(1) by (simp add: uhex.simps [of n])
  qed
qed

lemma hex_step: "g < 2 ^ 28 \<Longrightarrow> d < 16 \<Longrightarrow> push_bit 4 (word_of_nat g) OR word_of_nat d = (word_of_nat (g * 16 + d) :: u32)"
proof -
  assume "d < 16"
  have b: "\<not> bit d n" if "4 \<le> n" for n
  proof -
    have "d < 2 ^ n" using \<open>d < 16\<close> power_increasing [OF that, of "2 :: nat"] by simp
    then show ?thesis by (simp add: bit_iff_odd)
  qed
  have "push_bit 4 (word_of_nat g :: u32) OR word_of_nat d = push_bit 4 (word_of_nat g) + word_of_nat d"
    by (rule disjunctive_add [symmetric]) (auto simp: bit_simps dest: b)
  then show ?thesis by (simp add: push_bit_eq_mult)
qed

lemma hex_group_uhex:
  assumes "n < 65536" and "r = [] \<or> \<not> is_xdigit (hd r)"
  shows "hex_group 0 0 (uhex n @ r) = Some (word_of_nat n, length (uhex n), r)"
proof -
  have stop: "hex_group g k r = Some (g, k, r)" for g k using assms(2) by (cases r) auto
  have "hex_group 0 0 (uhex n @ s) = hex_group (word_of_nat n) (length (uhex n)) s" for s
    using assms(1)
  proof (induction n arbitrary: s rule: uhex.induct)
    case (1 n)
    show ?case
    proof (cases "n < 16")
      case True
      then show ?thesis using hexchar_props [of n] by (simp add: uhex.simps [of n])
    next
      case False
      have l: "length (uhex (n div 16)) \<le> 3" using 1(2) by (intro length_uhex) auto
      have "hex_group 0 0 (uhex n @ s) = hex_group (word_of_nat (n div 16)) (length (uhex (n div 16))) (hexchar (n mod 16) # s)"
        using 1(1) [OF False, of "hexchar (n mod 16) # s"] 1(2) False by (simp add: uhex.simps [of n])
      also have "\<dots> = hex_group (word_of_nat n) (length (uhex n)) s"
        using hexchar_props [of "n mod 16"] l hex_step [of "n div 16" "n mod 16"] 1(2) False by (simp add: uhex.simps [of n])
      finally show ?thesis .
    qed
  qed
  then show ?thesis using stop by simp
qed

section \<open>IPv6 literals\<close>

fun colons :: "u16 list \<Rightarrow> buffer" where
  "colons [] = []"
| "colons [x] = uhex (unat x)"
| "colons (x # y # r) = uhex (unat x) @ 0x3A # colons (y # r)"

definition octets6 :: "u16 list \<Rightarrow> buffer" where
  "octets6 gs = concat (map elpis_put16 gs)"

lemma length_octets6 [simp]: "length (octets6 gs) = 2 * length gs"
  by (induction gs) (auto simp: octets6_def)

lemma group_octets: "[ucast (drop_bit 8 (word_of_nat (unat x) :: u32)), ucast (word_of_nat (unat x) :: u32)] = elpis_put16 (x :: u16)"
proof -
  have u: "(word_of_nat (unat x) :: u32) = ucast x" by (simp add: unsigned_ucast_eq word_unat_eq_iff unat_of_nat take_bit_eq_mod)
  have 1: "(ucast (drop_bit 8 (ucast x :: u32)) :: byte) = ucast (drop_bit 8 x)" by (rule bit_word_eqI) (auto simp: bit_simps)
  have 2: "(ucast (ucast x :: u32) :: byte) = ucast x" by (rule bit_word_eqI) (auto simp: bit_simps)
  show ?thesis by (simp add: u 1 2 elpis_put16_def)
qed

text \<open>One group of a literal, followed by the end or by a colon.\<close>

lemma pton6_group:
  assumes "length (if gap then after else tmp) + 2 \<le> 16" and "r = [] \<or> hd r = 0x3A"
  shows "pton6_loop tmp after gap (uhex (unat (x :: u16)) @ r) =
    (let tmp' = (if gap then tmp else tmp @ elpis_put16 x); after' = (if gap then after @ elpis_put16 x else after) in
     case r of [] \<Rightarrow> Some (tmp', after', gap)
     | c # s1 \<Rightarrow> if s1 \<noteq> [] \<and> hd s1 = 0x3A then
           if gap then None else if tl s1 = [] then Some (tmp', after', True) else pton6_loop tmp' after' True (tl s1)
         else pton6_loop tmp' after' gap s1)"
proof -
  have "hex_group 0 0 (uhex (unat x) @ r) = Some (word_of_nat (unat x), length (uhex (unat x)), r)"
    using assms(2) unat_u16_less [of x] by (intro hex_group_uhex) (auto simp: is_xdigit_def is_digit_def)
  moreover have "uhex (unat x) \<noteq> []" by (simp add: uhex_props)
  ultimately show ?thesis
    using assms group_octets [of x] by (subst pton6_loop.simps) (auto simp: Let_def split: list.split)
qed

lemma hd_uhex: "hd (uhex n @ r) \<noteq> 0x3A \<and> uhex n @ r \<noteq> []"
  using uhex_props [of n] by (cases "uhex n") (auto simp: is_xdigit_def is_digit_def)

lemma colons_hd: "gs \<noteq> [] \<Longrightarrow> colons gs \<noteq> [] \<and> hd (colons gs @ r) \<noteq> 0x3A"
  using hd_uhex by (cases gs rule: colons.cases) auto

lemma octets6_simps [simp]: "octets6 [] = []" "octets6 (x # gs) = elpis_put16 x @ octets6 gs"
  by (simp_all add: octets6_def)

lemma pton6_colons:
  "gs \<noteq> [] \<Longrightarrow> length (if gap then after else tmp) + 2 * length gs \<le> 16 \<Longrightarrow>
   pton6_loop tmp after gap (colons gs) =
     Some (if gap then tmp else tmp @ octets6 gs, if gap then after @ octets6 gs else after, gap)"
proof (induction gs arbitrary: tmp after rule: colons.induct)
  case (2 x)
  then show ?case using pton6_group [of gap after tmp "[]" x] by (auto simp: Let_def)
next
  case (3 x y r)
  have "colons (y # r) \<noteq> []" "hd (colons (y # r)) \<noteq> 0x3A" using colons_hd [of "y # r" "[]"] by auto
  then have "pton6_loop tmp after gap (colons (x # y # r)) =
      pton6_loop (if gap then tmp else tmp @ elpis_put16 x) (if gap then after @ elpis_put16 x else after) gap (colons (y # r))"
    using pton6_group [of gap after tmp "0x3A # colons (y # r)" x] 3(3) by (auto simp: Let_def)
  then show ?case using 3(1) [of "if gap then after @ elpis_put16 x else after" "if gap then tmp else tmp @ elpis_put16 x"] 3(3)
    by (auto split: if_splits)
qed simp

lemma pton6_colons_gap:
  "gs \<noteq> [] \<Longrightarrow> length tmp + 2 * length gs \<le> 16 \<Longrightarrow>
   pton6_loop tmp [] False (colons gs @ 0x3A # 0x3A # r) =
     (if r = [] then Some (tmp @ octets6 gs, [], True) else pton6_loop (tmp @ octets6 gs) [] True r)"
proof (induction gs arbitrary: tmp rule: colons.induct)
  case (2 x)
  then show ?case using pton6_group [of False "[]" tmp "0x3A # 0x3A # r" x] by (auto simp: Let_def)
next
  case (3 x y s)
  have "colons (y # s) \<noteq> []" "hd (colons (y # s) @ 0x3A # 0x3A # r) \<noteq> 0x3A" using colons_hd [of "y # s" "0x3A # 0x3A # r"] by auto
  then have "pton6_loop tmp [] False (colons (x # y # s) @ 0x3A # 0x3A # r) =
      pton6_loop (tmp @ elpis_put16 x) [] False (colons (y # s) @ 0x3A # 0x3A # r)"
    using pton6_group [of False "[]" tmp "0x3A # colons (y # s) @ 0x3A # 0x3A # r" x] 3(3) by (auto simp: Let_def)
  then show ?case using 3(1) [of "tmp @ elpis_put16 x"] 3(3) by auto
qed simp

text \<open>The two shapes of a printed address parse to the octets.\<close>

lemma pton6_full: "length gs = 8 \<Longrightarrow> elpis_pton6 (colons gs) = Some (octets6 gs)"
proof -
  assume l: "length gs = 8"
  then have "gs \<noteq> []" by auto
  then show ?thesis using pton6_colons [of gs False "[]" "[]"] colons_hd [of gs "[]"] l
    by (simp add: elpis_pton6_def pton6_done_def)
qed

lemma pton6_gap:
  assumes "length as + length bs \<le> 7"
  shows "elpis_pton6 (colons as @ [0x3A, 0x3A] @ colons bs) =
    Some (octets6 as @ replicate (16 - 2 * length as - 2 * length bs) 0 @ octets6 bs)"
proof -
  have b: "Option.bind (if colons bs = [] then Some (octets6 as, [], True) else pton6_loop (octets6 as) [] True (colons bs)) pton6_done =
      Some (octets6 as @ replicate (16 - 2 * length as - 2 * length bs) 0 @ octets6 bs)"
    using pton6_colons [of bs True "[]" "octets6 as"] colons_hd [of bs "[]"] assms by (cases "bs = []") (auto simp: pton6_done_def)
  show ?thesis
  proof (cases "as = []")
    case True
    then show ?thesis using b by (auto simp: elpis_pton6_def split: if_splits)
  next
    case False
    then show ?thesis using b pton6_colons_gap [OF False, of "[]" "colons bs"] colons_hd [OF False, of "0x3A # 0x3A # colons bs"] assms
      by (auto simp: elpis_pton6_def split: if_splits)
  qed
qed

section \<open>Printing IPv6 addresses\<close>

definition run_ok :: "u16 list \<Rightarrow> int \<Rightarrow> nat \<Rightarrow> nat \<Rightarrow> bool" where
  "run_ok g b l e \<longleftrightarrow> 0 \<le> b \<and> nat b + l \<le> e \<and> (\<forall>j. nat b \<le> j \<longrightarrow> j < nat b + l \<longrightarrow> g ! j = 0)"

lemma zero_run_ok:
  "zero_run gs i best bestlen cur curlen = (b, l) \<Longrightarrow> gs = drop i g \<Longrightarrow>
   bestlen = 0 \<or> run_ok g best bestlen (length g) \<Longrightarrow>
   cur < 0 \<or> run_ok g cur curlen i \<and> nat cur + curlen = i \<Longrightarrow> l = 0 \<or> run_ok g b l (length g)"
proof (induction gs i best bestlen cur curlen rule: zero_run.induct)
  case (2 x gs i best bestlen cur curlen)
  have i: "i < length g" using 2(5) by (cases "i < length g") auto
  then have gi: "g ! i = x" "gs = drop (i + 1) g" using 2(5) by (auto simp: Cons_nth_drop_Suc [symmetric])
  show ?case
  proof (cases "x = 0")
    case False
    then show ?thesis using 2(3) [OF False _ gi(2) 2(6)] 2(4) by simp
  next
    case True
    define c where "c = (if cur < 0 then int i else cur)"
    define n where "n = (if cur < 0 then 1 else curlen + 1)"
    have r: "run_ok g c n (i + 1)" "nat c + n = i + 1"
      using 2(7) gi(1) True by (auto simp: c_def n_def run_ok_def less_Suc_eq)
    then have "run_ok g c n (length g)" using i by (auto simp: run_ok_def)
    with r show ?thesis
      using 2(1) [OF True _ refl, of c n] 2(2) [OF True _ refl, of c n] 2(4,6) gi(2) True
      by (auto simp: c_def n_def Let_def split: if_splits)
  qed
qed simp

definition sep6 :: "int \<Rightarrow> nat \<Rightarrow> nat \<Rightarrow> buffer" where
  "sep6 best bestlen j = (if 0 < j \<and> \<not> (0 \<le> best \<and> int j = best + int bestlen) then [0x3A] else [])"

definition pieces6 :: "u16 list \<Rightarrow> int \<Rightarrow> nat \<Rightarrow> nat \<Rightarrow> nat \<Rightarrow> buffer" where
  "pieces6 g best bestlen i e = concat (map (\<lambda>j. sep6 best bestlen j @ uhex (unat (g ! j))) [i..<e])"

lemma length_pieces6: "length (pieces6 g best bestlen i e) \<le> 5 * (e - i)"
proof -
  have p: "length (sep6 best bestlen j @ uhex (unat (g ! j))) \<le> 5" for j
    using length_uhex [of "unat (g ! j)" 4] unat_u16_less [of "g ! j"] by (simp add: sep6_def)
  have "length (concat (map (\<lambda>j. sep6 best bestlen j @ uhex (unat (g ! j))) js)) \<le> 5 * length js" for js
  proof (induction js)
    case (Cons j js)
    then show ?case using p [of j] by simp
  qed simp
  from this [of "[i..<e]"] show ?thesis by (simp add: pieces6_def)
qed

lemma pieces6_step: "i < e \<Longrightarrow> pieces6 g best bestlen i e = (sep6 best bestlen i @ uhex (unat (g ! i))) @ pieces6 g best bestlen (i + 1) e"
  by (simp add: pieces6_def upt_conv_Cons)

text \<open>Past the gap, or without one.\<close>

lemma ntop6_rest:
  "i \<le> 8 \<Longrightarrow> best < 0 \<or> best < int i \<Longrightarrow> length buf + length (pieces6 g best bestlen i 8) < sz \<Longrightarrow>
   ntop6_loop g best bestlen sz i buf = Some (buf @ pieces6 g best bestlen i 8)"
proof (induction "8 - i" arbitrary: i buf)
  case 0
  then show ?case by (simp add: ntop6_loop.simps pieces6_def)
next
  case (Suc n)
  then have i: "i < 8" by simp
  let ?t = "sep6 best bestlen i @ uhex (unat (g ! i))"
  have "sappend sz buf ?t = Some (buf @ ?t)" using Suc(5) pieces6_step [OF i] by (simp add: sappend_def)
  moreover have "ntop6_loop g best bestlen sz (i + 1) (buf @ ?t) = Some ((buf @ ?t) @ pieces6 g best bestlen (i + 1) 8)"
    using Suc(2-5) pieces6_step [OF i] by (intro Suc(1)) auto
  ultimately show ?case using i Suc(4) pieces6_step [OF i, of g best bestlen]
    by (subst ntop6_loop.simps) (auto simp: sep6_def)
qed

lemma ntop6_before:
  assumes "0 < bestlen" and "b + bestlen \<le> 8" and "5 * 8 + 2 < sz"
  shows "i \<le> b \<Longrightarrow> length buf \<le> 5 * i \<Longrightarrow> ntop6_loop g (int b) bestlen sz i buf =
    Some (buf @ pieces6 g (int b) bestlen i b @ [0x3A, 0x3A] @ pieces6 g (int b) bestlen (b + bestlen) 8)"
proof (induction "b - i" arbitrary: i buf)
  case 0
  then have "i = b" by simp
  have "ntop6_loop g (int b) bestlen sz (b + bestlen) (buf @ [0x3A, 0x3A]) =
      Some ((buf @ [0x3A, 0x3A]) @ pieces6 g (int b) bestlen (b + bestlen) 8)"
    using assms 0 \<open>i = b\<close> length_pieces6 [of g "int b" bestlen "b + bestlen" 8] by (intro ntop6_rest) auto
  then show ?case using \<open>i = b\<close> assms 0
    by (subst ntop6_loop.simps) (auto simp: sappend_def pieces6_def)
next
  case (Suc n)
  then have i: "i < b" by simp
  let ?t = "sep6 (int b) bestlen i @ uhex (unat (g ! i))"
  have l: "length ?t \<le> 5" using length_pieces6 [of g "int b" bestlen i "i + 1"] by (simp add: pieces6_def)
  then have "sappend sz buf ?t = Some (buf @ ?t)" using Suc(4) i assms by (simp add: sappend_def)
  moreover have "ntop6_loop g (int b) bestlen sz (i + 1) (buf @ ?t) = Some ((buf @ ?t) @ pieces6 g (int b) bestlen (i + 1) b @
      [0x3A, 0x3A] @ pieces6 g (int b) bestlen (b + bestlen) 8)"
    using Suc(2-4) l i by (intro Suc(1)) auto
  ultimately show ?case using i assms(2) pieces6_step [OF i, of g "int b" bestlen]
    by (subst ntop6_loop.simps) (auto simp: sep6_def)
qed

lemma pieces6_colons:
  "i < e \<Longrightarrow> e \<le> length g \<Longrightarrow> (\<And>j. i < j \<Longrightarrow> j < e \<Longrightarrow> sep6 best bestlen j = [0x3A]) \<Longrightarrow>
   pieces6 g best bestlen i e = sep6 best bestlen i @ colons (take (e - i) (drop i g))"
proof (induction "e - i" arbitrary: i)
  case (Suc n)
  show ?case
  proof (cases "i + 1 < e")
    case True
    have "take (e - i) (drop i g) = g ! i # take (e - (i + 1)) (drop (i + 1) g)"
      using Suc(3,4) by (simp add: Cons_nth_drop_Suc [symmetric] take_Cons')
    moreover have "take (e - (i + 1)) (drop (i + 1) g) = g ! (i + 1) # take (e - (i + 2)) (drop (i + 2) g)"
      using True Suc(4) by (simp add: Cons_nth_drop_Suc [symmetric, of "Suc i"] take_Cons')
    moreover have "pieces6 g best bestlen (i + 1) e = [0x3A] @ colons (take (e - (i + 1)) (drop (i + 1) g))"
      using Suc True by auto
    ultimately show ?thesis using pieces6_step [OF Suc(3), of g best bestlen] by simp
  next
    case False
    then have "e = i + 1" using Suc(3) by simp
    then show ?thesis using Suc(4) by (simp add: pieces6_def Cons_nth_drop_Suc [symmetric])
  qed
qed simp

lemma length_groups6 [simp]: "length (groups6 ip) = 8"
  by (simp add: groups6_def)

lemma octets6_groups6: "length ip = 16 \<Longrightarrow> octets6 (groups6 ip) = ip"
proof -
  assume "length ip = 16"
  then obtain x0 x1 x2 x3 x4 x5 x6 x7 x8 x9 x10 x11 x12 x13 x14 x15 where
    ip: "ip = [x0, x1, x2, x3, x4, x5, x6, x7, x8, x9, x10, x11, x12, x13, x14, x15]"
    by (auto simp: numeral_eq_Suc length_Suc_conv)
  have "elpis_put16 (push_bit 8 (ucast h) OR ucast l) = [h, l]" for h l :: byte
  proof -
    have "\<not> bit l (8 + n)" for n using bit_imp_le_length [of l "8 + n"] by auto
    then show ?thesis unfolding elpis_put16_def by (auto intro!: bit_word_eqI simp: bit_simps)
  qed
  then show ?thesis by (simp add: ip groups6_def upt_rec octets6_def)
qed

text \<open>The text of an address, with its gap if it has one.\<close>

definition text6 :: "u16 list \<Rightarrow> int \<Rightarrow> nat \<Rightarrow> buffer" where
  "text6 g b l = (if b < 0 then colons g else colons (take (nat b) g) @ [0x3A, 0x3A] @ colons (drop (nat b + l) g))"

lemma ntop6_text:
  assumes "42 < sz"
  obtains b l where "elpis_ntop6 ip sz = Some (text6 (groups6 ip) b l)" and "b < 0 \<or> run_ok (groups6 ip) b l 8 \<and> 2 \<le> l"
proof -
  let ?g = "groups6 ip"
  obtain b0 l where z: "zero_run ?g 0 (- 1) 0 (- 1) 0 = (b0, l)" by fastforce
  then have ok: "l = 0 \<or> run_ok ?g b0 l 8" using zero_run_ok [OF z, of ?g] by simp
  define b where "b = (if l < 2 then - 1 else b0)"
  have "ntop6_loop ?g b l sz 0 [] = Some (text6 ?g b l)"
  proof (cases "l < 2")
    case True
    have "length (pieces6 ?g (- 1) l 0 8) < sz" using length_pieces6 [of ?g "- 1" l 0 8] assms by simp
    moreover have "pieces6 ?g (- 1) l 0 8 = colons ?g"
      using pieces6_colons [of 0 8 ?g "- 1" l] by (simp add: sep6_def)
    ultimately show ?thesis using ntop6_rest [of 0 "- 1" "[]" ?g l sz] True by (simp add: b_def text6_def)
  next
    case False
    then have r: "0 \<le> b0" "nat b0 + l \<le> 8" using ok by (auto simp: run_ok_def)
    have 1: "pieces6 ?g b0 l 0 (nat b0) = colons (take (nat b0) ?g)"
      using pieces6_colons [of 0 "nat b0" ?g b0 l] r by (cases "nat b0 = 0") (auto simp: sep6_def pieces6_def)
    have 2: "pieces6 ?g b0 l (nat b0 + l) 8 = colons (drop (nat b0 + l) ?g)"
      using pieces6_colons [of "nat b0 + l" 8 ?g b0 l] r by (cases "nat b0 + l = 8") (auto simp: sep6_def pieces6_def)
    show ?thesis using ntop6_before [of l "nat b0" sz 0 "[]" ?g] r False assms 1 2 by (simp add: b_def text6_def)
  qed
  moreover have "?g \<noteq> []" using length_groups6 [of ip] by (metis list.size(3) zero_neq_numeral)
  then have "text6 ?g b l \<noteq> []" using colons_hd [of ?g "[]"] by (auto simp: text6_def)
  ultimately show ?thesis using that [of b l] ok z by (auto simp: elpis_ntop6_def b_def)
qed

lemma pton6_text:
  assumes "length ip = 16" and "b < 0 \<or> run_ok (groups6 ip) b l 8 \<and> 2 \<le> l"
  shows "elpis_pton6 (text6 (groups6 ip) b l) = Some ip"
proof (cases "b < 0")
  case True
  then show ?thesis using pton6_full [of "groups6 ip"] octets6_groups6 [OF assms(1)] by (simp add: text6_def)
next
  case False
  let ?g = "groups6 ip"
  define n where "n = nat b"
  have r: "n + l \<le> 8" "2 \<le> l" "\<And>j. n \<le> j \<Longrightarrow> j < n + l \<Longrightarrow> ?g ! j = 0" using assms(2) False by (auto simp: run_ok_def n_def)
  have "take l (drop n ?g) = replicate l 0" using r by (intro nth_equalityI) auto
  then have g: "?g = take n ?g @ replicate l 0 @ drop (n + l) ?g"
    by (metis append_take_drop_id drop_drop add.commute)
  have z: "octets6 (replicate l 0) = replicate (2 * l) 0" by (induction l) (auto simp: elpis_put16_def)
  have "ip = octets6 (take n ?g) @ octets6 (replicate l 0) @ octets6 (drop (n + l) ?g)"
    using octets6_groups6 [OF assms(1)] by (subst (asm) g) (simp add: octets6_def)
  moreover have "16 - 2 * n - 2 * (8 - (n + l)) = 2 * l" using r by simp
  ultimately show ?thesis using pton6_gap [of "take n ?g" "drop (n + l) ?g"] r z False
    by (simp add: text6_def n_def [symmetric])
qed

lemma pton6_ntop6: "length ip = 16 \<Longrightarrow> 42 < sz \<Longrightarrow> \<exists>t. elpis_ntop6 ip sz = Some t \<and> elpis_pton6 t = Some ip"
  using ntop6_text [of sz ip] pton6_text [of ip] by metis

section \<open>Addresses as text\<close>

lemma strchr_split: "c \<notin> set a \<Longrightarrow> strchr c (a @ c # b) = Some (length a)"
  by (induction a) (auto simp: strchr_def)

lemma strchr_none: "c \<notin> set a \<Longrightarrow> strchr c a = None"
  by (simp add: strchr_def)

lemma strrchr_split: "c \<notin> set b \<Longrightarrow> strrchr c (a @ c # b) = Some (length a)"
  using strchr_split [of c "rev b" "rev a"] by (simp add: strrchr_def)

lemma udec_set: "c \<in> set (udec n) \<Longrightarrow> is_digit c"
  using udec_digits [of n 0] by (auto simp: list_all_iff)

lemma dotted_set: "c \<in> set (dotted ip) \<Longrightarrow> is_digit c \<or> c = 0x2E"
  by (auto simp: dotted_def dest: udec_set)

lemma colons_set: "c \<in> set (colons gs) \<Longrightarrow> is_xdigit c \<or> c = 0x3A"
  by (induction gs rule: colons.induct) (auto dest: uhex_props [THEN conjunct1, unfolded list_all_iff, rule_format])

lemma text6_set: "c \<in> set (text6 g b l) \<Longrightarrow> is_xdigit c \<or> c = 0x3A"
  by (auto simp: text6_def dest: colons_set split: if_splits)

lemma colons_colon: "2 \<le> length gs \<Longrightarrow> 0x3A \<in> set (colons gs)"
  by (cases gs rule: colons.cases) auto

lemma text6_colon: "0x3A \<in> set (text6 (groups6 ip) b l)"
  using colons_colon [of "groups6 ip"] by (simp add: text6_def)

lemma length_colons: "length (colons gs) \<le> 5 * length gs"
proof (induction gs rule: colons.induct)
  case (2 x)
  then show ?case using length_uhex [of "unat x" 4] unat_u16_less [of x] by simp
next
  case (3 x y r)
  then show ?case using length_uhex [of "unat x" 4] unat_u16_less [of x] by simp
qed simp

lemma length_text6: "length (text6 (groups6 ip) b l) \<le> 42"
  using length_colons [of "groups6 ip"] length_colons [of "take (nat b) (groups6 ip)"] length_colons [of "drop (nat b + l) (groups6 ip)"]
  by (auto simp: text6_def)

lemma port_text:
  fixes p :: u16
  assumes "p \<noteq> 0"
  shows "(case elpis_parse_u32 (Some (udec (unat p))) of None \<Rightarrow> None
     | Some v \<Rightarrow> if v = 0 \<or> 65535 < v then None else Some (ucast v)) = Some p"
proof -
  have p: "unat p < 65536" "unat p \<noteq> 0" using unat_u16_less assms by (auto simp: unat_eq_0)
  define v :: u32 where "v = word_of_nat (unat p)"
  have u: "unat v = unat p" unfolding v_def using p by (subst unat_of_nat) simp
  then have "v \<noteq> 0" "\<not> 65535 < v" using p by (metis unsigned_0, simp add: word_less_nat_alt)
  moreover have "ucast v = p" using u p by (intro word_unat_eq_iff [THEN iffD2]) (simp add: unat_ucast)
  moreover have "elpis_parse_u32 (Some (udec (unat p))) = Some v" unfolding v_def using p by (intro parse_u32_udec) simp
  ultimately show ?thesis by simp
qed

lemma no_colon_v4: "elpis_pton4 s \<noteq> None \<Longrightarrow> 0x3A \<notin> set s"
  using dotted_set [of "0x3A"] by (auto simp: pton4_iff is_digit_def)

text \<open>What the printer writes for a usable address, the parser reads back.\<close>

definition wf_addr :: "elpis_addr \<Rightarrow> bool" where
  "wf_addr a = (case a of AF_INET ip p \<Rightarrow> length ip = 4 \<and> p \<noteq> 0 | AF_INET6 ip p \<Rightarrow> length ip = 16 \<and> p \<noteq> 0 | AF_OTHER \<Rightarrow> False)"

lemma parse_str4:
  assumes "length ip = 4" and "p \<noteq> 0" and "22 < sz"
  shows "elpis_addr_parse (Some (elpis_addr_str (Some (AF_INET ip p)) sz)) d = Some (AF_INET ip p)"
proof -
  let ?t = "dotted ip @ 0x3A # udec (unat p)"
  have l: "length (udec (unat p)) \<le> 5" using unat_u16_less [of p] by (intro length_udec) auto
  then have "length ?t \<le> sz - 1" using length_dotted [of ip] assms(3) by simp
  then have s: "elpis_addr_str (Some (AF_INET ip p)) sz = ?t"
    using ntop4_dotted [of 64 ip] by (simp add: elpis_addr_str_def)
  have c: "c \<notin> set (dotted ip)" "c \<notin> set (udec n)" if "c \<in> {0x5B, 0x40, 0x3A}" for c n
    using that by (auto dest!: dotted_set udec_set simp: is_digit_def)
  have "hd ?t \<in> set (udec (unat (ip ! 0)))" using udec_digits [of "unat (ip ! 0)" 0] by (simp add: dotted_def)
  then have h: "hd ?t \<noteq> 0x5B" by (metis c(2) insertI1)
  have "split_port ?t = Some (dotted ip, Some (udec (unat p)))"
    using h c strchr_none [of "0x40" ?t] strrchr_split [of "0x3A" "udec (unat p)" "dotted ip"] strchr_split [of "0x3A" "dotted ip"]
      length_dotted [of ip] by (simp add: split_port_def)
  then show ?thesis using s port_text [OF assms(2)] pton4_dotted [OF assms(1)]
    by (simp add: elpis_addr_parse_def elpis_addr_from4_def)
qed

lemma parse_str6:
  assumes "length ip = 16" and "p \<noteq> 0" and "50 < sz"
  shows "elpis_addr_parse (Some (elpis_addr_str (Some (AF_INET6 ip p)) sz)) d = Some (AF_INET6 ip p)"
proof -
  obtain b l where n: "elpis_ntop6 ip 64 = Some (text6 (groups6 ip) b l)" and r: "b < 0 \<or> run_ok (groups6 ip) b l 8 \<and> 2 \<le> l"
    using ntop6_text [of 64 ip] by auto
  let ?h = "text6 (groups6 ip) b l" and ?q = "udec (unat p)"
  have "length ?q \<le> 5" using unat_u16_less [of p] by (intro length_udec) auto
  then have s: "elpis_addr_str (Some (AF_INET6 ip p)) sz = 0x5B # ?h @ 0x5D # 0x3A # ?q"
    using n length_text6 [of ip b l] assms(3) by (simp add: elpis_addr_str_def)
  have "0x5D \<notin> set (0x5B # ?h)" using text6_set [of "0x5D" "groups6 ip" b l] by (auto simp: is_xdigit_def is_digit_def)
  then have "split_port (0x5B # ?h @ 0x5D # 0x3A # ?q) = Some (?h, Some ?q)"
    using strchr_split [of "0x5D" "0x5B # ?h" "0x3A # ?q"] length_text6 [of ip b l] by (simp add: split_port_def Let_def)
  moreover have "elpis_pton4 ?h = None" using no_colon_v4 [of ?h] text6_colon [of ip b l] by blast
  ultimately show ?thesis using s port_text [OF assms(2)] pton6_text [OF assms(1) r]
    by (simp add: elpis_addr_parse_def elpis_addr_from6_def)
qed

section \<open>Addresses as bits\<close>

text \<open>Most significant bit first.\<close>

definition abit :: "buffer \<Rightarrow> nat \<Rightarrow> bool" where
  "abit addr i \<longleftrightarrow> bit (addr ! (i div 8)) (7 - i mod 8)"

lemma bit_prefix_mask: "q < 8 \<Longrightarrow> bit (push_bit k 0xFF :: byte) q \<longleftrightarrow> k \<le> q"
proof -
  have "(0xFF :: byte) = mask 8" by (simp add: mask_eq_exp_minus_1)
  then show "q < 8 \<Longrightarrow> bit (push_bit k 0xFF :: byte) q \<longleftrightarrow> k \<le> q"
    by (simp only: bit_push_bit_iff bit_mask_iff) auto
qed

lemma abit_Cons: "abit (a # as) i = (if i < 8 then bit a (7 - i) else abit as (i - 8))"
proof (cases "i < 8")
  case False
  then obtain j where "i = 8 + j" using le_Suc_ex not_less by blast
  moreover have "(8 + j) div 8 = Suc (j div 8)" by simp
  ultimately show ?thesis by (simp add: abit_def del: div_add_self1)
qed (simp add: abit_def)

lemma byte_eqI: "(\<And>q. q < 8 \<Longrightarrow> bit (a :: byte) q = bit b q) \<Longrightarrow> a = b"
  by (rule bit_word_eqI) simp

lemma abit_eqI:
  "length a = length b \<Longrightarrow> (\<And>i. i < 8 * length a \<Longrightarrow> abit a i = abit b i) \<Longrightarrow> a = b"
proof (induction a b rule: list_induct2)
  case (Cons x xs y ys)
  have "bit x q = bit y q" if "q < 8" for q
  proof -
    have "7 - q < 8" "7 - (7 - q) = q" using that by auto
    then show ?thesis using Cons.prems [of "7 - q"] by (simp add: abit_Cons del: diff_diff_cancel)
  qed
  then have "x = y" by (rule byte_eqI)
  moreover have "abit xs i = abit ys i" if "i < 8 * length xs" for i
    using Cons.prems [of "i + 8"] that by (simp add: abit_Cons)
  then have "xs = ys" by (rule Cons.IH)
  ultimately show ?case by simp
qed simp

lemma and_eq_iff: "a AND m = b AND m \<longleftrightarrow> (\<forall>q<8. bit m q \<longrightarrow> bit a q = bit (b :: byte) q)"
  by (auto simp: bit_eq_iff bit_and_iff dest: bit_imp_le_length)

lemma all_rev8: "(\<forall>q<8. P q) \<longleftrightarrow> (\<forall>q<8. P (7 - q :: nat))"
proof
  assume a: "\<forall>q<8. P (7 - q)"
  show "\<forall>q<8. P q"
  proof (intro allI impI)
    fix q :: nat assume "q < 8"
    then show "P q" using a [rule_format, of "7 - q"] by simp
  qed
qed auto

lemma abit_byte: "q < 8 \<Longrightarrow> abit x (8 * i + q) = bit (x ! i) (7 - q)"
  by (simp add: abit_def)

lemma octet_eq:
  "a ! i AND (if 8 \<le> bits then 0xFF else push_bit (8 - bits) 0xFF) =
   b ! i AND (if 8 \<le> bits then 0xFF else push_bit (8 - bits) 0xFF) \<longleftrightarrow>
   (\<forall>q<8. q < bits \<longrightarrow> abit a (8 * i + q) = abit b (8 * i + q))"
proof -
  let ?m = "if 8 \<le> bits then 0xFF else push_bit (8 - bits) 0xFF :: byte"
  have m: "bit ?m q \<longleftrightarrow> 8 - bits \<le> q" if "q < 8" for q
    using bit_prefix_mask [OF that, of 0] bit_prefix_mask [OF that, of "8 - bits"] by simp
  show ?thesis
    unfolding and_eq_iff by (subst all_rev8) (auto simp: m abit_byte)
qed

text \<open>The comparison by whole octets and a masked remainder is the comparison of bits.\<close>

lemma take_bits:
  "n \<le> length a \<Longrightarrow> n \<le> length b \<Longrightarrow> take n a = take n b \<longleftrightarrow> (\<forall>j < 8 * n. abit a j = abit b j)"
proof -
  assume n: "n \<le> length a" "n \<le> length b"
  have t: "abit (take n x) j = abit x j" if "j < 8 * n" for x :: buffer and j
    using that by (simp add: abit_def)
  show ?thesis
  proof
    assume "take n a = take n b"
    then show "\<forall>j < 8 * n. abit a j = abit b j" using t by metis
  next
    assume "\<forall>j < 8 * n. abit a j = abit b j"
    then show "take n a = take n b" using n t by (intro abit_eqI) auto
  qed
qed

lemma split_less: "(\<forall>j < m + n. P j) \<longleftrightarrow> (\<forall>j < m. P j) \<and> (\<forall>q < n. P (m + q :: nat))"
  by (metis add_less_cancel_left le_add_diff_inverse not_less trans_less_add1)

lemma match_bits:
  assumes "k \<le> 8 * length a" and "k \<le> 8 * length b"
  shows "(if 0 < k div 8 \<and> take (k div 8) a \<noteq> take (k div 8) b then False
     else if 0 < k mod 8 then (a ! (k div 8) XOR b ! (k div 8)) AND push_bit (8 - k mod 8) 0xFF = 0 else True) \<longleftrightarrow>
    (\<forall>j<k. abit a j = abit b j)"
proof -
  let ?n = "k div 8" and ?r = "k mod 8"
  have t: "take ?n a = take ?n b \<longleftrightarrow> (\<forall>j < 8 * ?n. abit a j = abit b j)"
    using assms by (intro take_bits) auto
  have x: "(a ! ?n XOR b ! ?n) AND m = 0 \<longleftrightarrow> a ! ?n AND m = b ! ?n AND m" for m :: byte
    by (auto simp: bit_eq_iff bit_simps)
  have r: "?r < 8" by simp
  have m: "(a ! ?n XOR b ! ?n) AND push_bit (8 - ?r) 0xFF = 0 \<longleftrightarrow> (\<forall>q<?r. abit a (8 * ?n + q) = abit b (8 * ?n + q))"
  proof -
    have "(\<forall>q<8. q < ?r \<longrightarrow> abit a (8 * ?n + q) = abit b (8 * ?n + q)) \<longleftrightarrow> (\<forall>q<?r. abit a (8 * ?n + q) = abit b (8 * ?n + q))"
      using r by (meson less_trans)
    then show ?thesis using octet_eq [of a ?n ?r b] r unfolding x by (simp only: not_le [symmetric] if_False)
  qed
  have s: "(\<forall>j<k. P j) \<longleftrightarrow> (\<forall>j<8 * ?n. P j) \<and> (\<forall>q<?r. P (8 * ?n + q))" for P
    using split_less [of "8 * ?n" ?r P] by simp
  show ?thesis
    unfolding s [of "\<lambda>j. abit a j = abit b j"] t [symmetric] using m
    by (cases "?n = 0"; cases "?r = 0") simp_all
qed

section \<open>Properties\<close>

text \<open>
  Property C17. An IPv4 or IPv6 socket address with a port, printed by \<open>elpis_addr_str\<close> into a buffer
  that holds it, is parsed back by \<open>elpis_addr_parse\<close> to the same address, whatever the default
  port: zero runs compressed by the printer are expanded again.
\<close>

theorem addr_text_roundtrip:
  assumes "wf_addr a" and "50 < sz"
  shows "elpis_addr_parse (Some (elpis_addr_str (Some a) sz)) d = Some a"
  using assms parse_str4 parse_str6 by (cases a) (auto simp: wf_addr_def)

theorem addr_text_roundtrip_witness:
  "elpis_addr_parse (Some (elpis_addr_str (Some (AF_INET6 ([0x20, 1, 0xD, 0xB8] @ replicate 11 0 @ [1]) 53)) 64)) 853 =
     Some (AF_INET6 ([0x20, 1, 0xD, 0xB8] @ replicate 11 0 @ [1]) 53)"
  by (rule addr_text_roundtrip) (simp_all add: wf_addr_def)

text \<open>
  Property C20. \<open>elpis_pton4\<close> accepts exactly the strings \<open>elpis_ntop4\<close> prints: four decimal octets
  without leading zeros, spaces or a trailing dot.
\<close>

theorem ipv4_literals: "elpis_pton4 s = Some ip \<longleftrightarrow> length ip = 4 \<and> elpis_ntop4 ip 16 = Some s"
  using ntop4_dotted [of 16 ip] by (auto simp: pton4_iff)

lemma unat_u64_mult: "n \<le> 0xFFFFFFFF \<Longrightarrow> m \<le> 604800 \<Longrightarrow> unat (word_of_nat n * word_of_nat m :: u64) = n * m"
proof -
  assume a: "n \<le> 0xFFFFFFFF" "m \<le> 604800"
  then have "n * m \<le> 0xFFFFFFFF * 604800" by (rule mult_le_mono)
  then have "n * m < 2 ^ 64" by simp
  then have "unat (word_of_nat (n * m) :: u64) = n * m" by (simp add: unat_of_nat del: of_nat_mult)
  then show ?thesis by simp
qed





lemmas prefix_match_unfold = elpis_prefix_match_def prod.case af.case elpis_addr.case option.case 
  Let_def af.distinct simp_thms

text \<open>
  Property C18. A prefix matches an address exactly when they are of the same family and the address agrees
  with the prefix in its leading bits.
\<close>

theorem prefix_match_spec:
  assumes "length (pip p) = 16" and "case a of AF_INET x _ \<Rightarrow> length x = 4 \<and> unat (pbits p) \<le> 32
      | AF_INET6 x _ \<Rightarrow> length x = 16 \<and> unat (pbits p) \<le> 128 | AF_OTHER \<Rightarrow> True"
  shows "elpis_prefix_match p a \<longleftrightarrow>
    (case a of AF_INET x _ \<Rightarrow> pfamily p = AF_v4 \<and> (\<forall>j < unat (pbits p). abit x j = abit (pip p) j)
     | AF_INET6 x _ \<Rightarrow> pfamily p = AF_v6 \<and> (\<forall>j < unat (pbits p). abit x j = abit (pip p) j)
     | AF_OTHER \<Rightarrow> False)"
proof (cases a)
  case (AF_INET x port)
  then have "unat (pbits p) \<le> 8 * length x" "unat (pbits p) \<le> 8 * length (pip p)" using assms by auto
  from match_bits [OF this] show ?thesis using AF_INET by (cases "pfamily p") (simp_all only: prefix_match_unfold)
next
  case (AF_INET6 x port)
  then have "unat (pbits p) \<le> 8 * length x" "unat (pbits p) \<le> 8 * length (pip p)" using assms by auto
  from match_bits [OF this] show ?thesis using AF_INET6 by (cases "pfamily p") (simp_all only: prefix_match_unfold)
qed (cases "pfamily p"; simp add: elpis_prefix_match_def)

theorem prefix_match_spec_witness:
  "elpis_prefix_match \<lparr>pip = [10, 32] @ replicate 14 0, pbits = 11, pfamily = AF_v4\<rparr> (AF_INET [10, 33, 7, 7] 53) \<longleftrightarrow>
     AF_v4 = AF_v4 \<and> (\<forall>j < 11. abit [10, 33, 7, 7] j = abit ([10, 32] @ replicate 14 0) j)"
  using prefix_match_spec [of "\<lparr>pip = [10, 32] @ replicate 14 0, pbits = 11, pfamily = AF_v4\<rparr>" "AF_INET [10, 33, 7, 7] 53"]
  by simp


end
