(* ===== verification/Elpis_Ecs.thy ===== *)
theory Elpis_Ecs
  imports Elpis_Util
begin

unbundle bit_operations_syntax

text \<open>
  EDNS Client Subnet, \<open>src/dns/ecs.c\<close> and \<open>include/elpis/ecs.h\<close>: the option of RFC 7871, the
  subnets in it and which of them say where a client is.

  The model keeps the C structure.  An address is its 16 octets; a socket address is
  that of \<open>Elpis_Util\<close>.  The reads of
  the address array are checked, so that the absence of \<open>Fault\<close> says that the array bounds hold.
  The properties read an address as a sequence of bits (\<open>abit\<close>), most significant first.
\<close>

section \<open>Definitions\<close>

record elpis_ecs =
  efamily :: byte
  esource :: byte
  escope :: byte
  eaddr :: buffer

abbreviation ELPIS_ECS_IPV4 :: nat where "ELPIS_ECS_IPV4 \<equiv> 1"
abbreviation ELPIS_ECS_IPV6 :: nat where "ELPIS_ECS_IPV6 \<equiv> 2"

definition ELPIS_ECS_ADDRLEN :: "nat \<Rightarrow> nat" where
  "ELPIS_ECS_ADDRLEN bits = (bits + 7) div 8"

text \<open>The zeroed structure every function starts from.\<close>

definition ecs_zero :: elpis_ecs where
  "ecs_zero = \<lparr>efamily = 0, esource = 0, escope = 0, eaddr = replicate 16 0\<rparr>"

definition family_bits :: "nat \<Rightarrow> nat" where
  "family_bits family =
     (if family = ELPIS_ECS_IPV4 then 32 else if family = ELPIS_ECS_IPV6 then 128 else 0)"

fun mask_addr :: "buffer \<Rightarrow> nat \<Rightarrow> buffer" where
  "mask_addr [] bits = []"
| "mask_addr (a # as) bits =
     (if 8 \<le> bits then a # mask_addr as (bits - 8)
      else (a AND push_bit (8 - bits) 0xFF) # mask_addr as 0)"

definition elpis_ecs_parse :: "buffer \<Rightarrow> (elpis_rc, elpis_ecs) outcome" where
  "elpis_ecs_parse p =
     (if length p < 4 then Err ELPIS_EFORMAT
      else obind (elpis_get16 p 0) (\<lambda>f. obind (fetch p 2) (\<lambda>src. obind (fetch p 3) (\<lambda>sc.
        let family = unat f; n = length p - 4 in
        if family = 0 then
          (if src \<noteq> 0 \<or> sc \<noteq> 0 \<or> n \<noteq> 0 then Err ELPIS_EFORMAT else Ok ecs_zero)
        else
          let width = family_bits family in
          if width = 0 \<or> width < unat src \<or> width < unat sc then Err ELPIS_EFORMAT
          else if n \<noteq> ELPIS_ECS_ADDRLEN (unat src) then Err ELPIS_EFORMAT
          else obind (fetch_bytes p 4 n) (\<lambda>a.
            let addr = overwrite (replicate 16 0) 0 a in
            if mask_addr addr (unat src) \<noteq> addr then Err ELPIS_EFORMAT
            else Ok \<lparr>efamily = word_of_nat family, esource = src, escope = sc, eaddr = addr\<rparr>)))))"

text \<open>\<open>Err ()\<close> is the return value 0, the octets written are the result otherwise.\<close>

definition elpis_ecs_encode :: "elpis_ecs \<Rightarrow> nat \<Rightarrow> (unit, buffer) outcome" where
  "elpis_ecs_encode e cap =
     (let n = ELPIS_ECS_ADDRLEN (unat (esource e)) in
      if cap < 4 + n then Err ()
      else obind (fetch_bytes (eaddr e) 0 n) (\<lambda>a.
        Ok (elpis_put16 (if efamily e \<noteq> 0 then ucast (efamily e) else 1) @
            [esource e, escope e] @ a)))"

definition v4_mapped :: buffer where
  "v4_mapped = [0, 0, 0, 0, 0, 0, 0, 0, 0, 0, 0xFF, 0xFF]"

definition elpis_ecs_from_addr :: "elpis_addr \<Rightarrow> nat \<Rightarrow> nat \<Rightarrow> elpis_ecs option" where
  "elpis_ecs_from_addr a v4bits v6bits =
     (let v4 = (\<lambda>b. Some (\<lparr>efamily = 1, esource = 0, escope = 0,
                           eaddr = overwrite (replicate 16 0) 0 (take 4 b)\<rparr>));
          v6 = (\<lambda>b. Some (\<lparr>efamily = 2, esource = 0, escope = 0,
                           eaddr = overwrite (replicate 16 0) 0 (take 16 b)\<rparr>));
          e0 = (case a of AF_INET b _ \<Rightarrow> v4 b
                | AF_INET6 b _ \<Rightarrow> if take 12 b = v4_mapped then v4 (drop 12 b) else v6 b
                | AF_OTHER \<Rightarrow> None)
      in case e0 of None \<Rightarrow> None
         | Some e \<Rightarrow>
           let source = (if efamily e = 1 then (if 32 < v4bits then 32 else v4bits)
                         else (if 128 < v6bits then 128 else v6bits))
           in Some (e\<lparr>esource := word_of_nat source,
                      eaddr := mask_addr (eaddr e) (unat (word_of_nat source :: byte))\<rparr>))"

definition elpis_ecs_truncate :: "elpis_ecs \<Rightarrow> nat \<Rightarrow> nat \<Rightarrow> elpis_ecs" where
  "elpis_ecs_truncate e v4bits v6bits =
     (let cap = (if efamily e = 1 then v4bits else v6bits);
          source = (if cap < unat (esource e) then word_of_nat cap else esource e)
      in e\<lparr>escope := 0, esource := source, eaddr := mask_addr (eaddr e) (unat source)\<rparr>)"

function in_range :: "buffer \<Rightarrow> buffer \<Rightarrow> nat \<Rightarrow> nat \<Rightarrow> (unit, bool) outcome" where
  "in_range addr p i bits =
     (if bits = 0 then Ok True
      else obind (fetch addr i) (\<lambda>a. obind (fetch p i) (\<lambda>q.
        let m = (if 8 \<le> bits then 0xFF else push_bit (8 - bits) 0xFF) in
        if a AND m \<noteq> q AND m then Ok False
        else in_range addr p (Suc i) (if 8 \<le> bits then bits - 8 else 0))))"
  by pat_completeness auto
termination
  by (relation "measure (\<lambda>(addr, p, i, bits). bits)") auto

declare in_range.simps [simp del]

definition v4_special :: "(buffer \<times> nat) list" where
  "v4_special =
     [([0, 0, 0, 0], 8), ([10, 0, 0, 0], 8), ([100, 64, 0, 0], 10), ([127, 0, 0, 0], 8),
      ([169, 254, 0, 0], 16), ([172, 16, 0, 0], 12), ([192, 0, 0, 0], 24), ([192, 0, 2, 0], 24),
      ([192, 168, 0, 0], 16), ([198, 18, 0, 0], 15), ([198, 51, 100, 0], 24),
      ([203, 0, 113, 0], 24), ([224, 0, 0, 0], 3)]"

definition unicast6 :: buffer where "unicast6 = [0x20]"
definition doc6 :: buffer where "doc6 = [0x20, 0x01, 0x0D, 0xB8]"

text \<open>The loop over the table: false as soon as a range holds the subnet.\<close>

fun public_v4 :: "elpis_ecs \<Rightarrow> (buffer \<times> nat) list \<Rightarrow> (unit, bool) outcome" where
  "public_v4 e [] = Ok True"
| "public_v4 e ((p, bits) # rest) =
     (if bits \<le> unat (esource e) then
        obind (in_range (eaddr e) p 0 bits) (\<lambda>hit. if hit then Ok False else public_v4 e rest)
      else public_v4 e rest)"

definition elpis_ecs_is_public :: "elpis_ecs \<Rightarrow> (unit, bool) outcome" where
  "elpis_ecs_is_public e =
     (if esource e = 0 then Ok False
      else if efamily e = 1 then public_v4 e v4_special
      else if efamily e = 2 then
        (if unat (esource e) < 3 then Ok False
         else obind (in_range (eaddr e) unicast6 0 3) (\<lambda>u.
           if \<not> u then Ok False
           else if unat (esource e) < 32 then Ok True
           else obind (in_range (eaddr e) doc6 0 32) (\<lambda>d. Ok (\<not> d))))
      else Ok False)"

definition elpis_ecs_same_subnet :: "elpis_ecs \<Rightarrow> elpis_ecs \<Rightarrow> bool" where
  "elpis_ecs_same_subnet a b \<longleftrightarrow>
     efamily a = efamily b \<and> esource a = esource b \<and>
     take (ELPIS_ECS_ADDRLEN (unat (esource a))) (eaddr a) =
     take (ELPIS_ECS_ADDRLEN (unat (esource a))) (eaddr b)"

section \<open>Addresses as bits\<close>

definition wf_ecs :: "elpis_ecs \<Rightarrow> bool" where
  "wf_ecs e \<longleftrightarrow> length (eaddr e) = 16 \<and> efamily e \<in> {1, 2} \<and>
     unat (esource e) \<le> family_bits (unat (efamily e)) \<and>
     unat (escope e) \<le> family_bits (unat (efamily e)) \<and>
     mask_addr (eaddr e) (unat (esource e)) = eaddr e"

lemma length_mask_addr [simp]: "length (mask_addr a n) = length a"
  by (induction a n rule: mask_addr.induct) auto

lemma abit_mask: "i < 8 * length addr \<Longrightarrow> abit (mask_addr addr n) i \<longleftrightarrow> i < n \<and> abit addr i"
proof (induction addr n arbitrary: i rule: mask_addr.induct)
  case (2 a as bits)
  then show ?case by (auto simp: abit_Cons bit_and_iff bit_prefix_mask)
qed simp

lemma mask_addr_mask: "mask_addr (mask_addr a m) n = mask_addr a (min m n)"
  by (rule abit_eqI) (auto simp: abit_mask)

lemma mask_addr_iff: "mask_addr a n = a \<longleftrightarrow> (\<forall>i. n \<le> i \<longrightarrow> i < 8 * length a \<longrightarrow> \<not> abit a i)"
proof
  assume "mask_addr a n = a"
  then show "\<forall>i. n \<le> i \<longrightarrow> i < 8 * length a \<longrightarrow> \<not> abit a i"
    by (metis abit_mask leD)
next
  assume "\<forall>i. n \<le> i \<longrightarrow> i < 8 * length a \<longrightarrow> \<not> abit a i"
  then show "mask_addr a n = a"
    by (intro abit_eqI) (auto simp: abit_mask intro: leI)
qed

lemma split_octets:
  "(\<forall>j. 8 * i \<le> j \<longrightarrow> j < 8 * i + bits \<longrightarrow> P j) \<longleftrightarrow>
   (\<forall>q<8. q < bits \<longrightarrow> P (8 * i + q)) \<and>
   (\<forall>j. 8 * Suc i \<le> j \<longrightarrow> j < 8 * Suc i + (bits - 8) \<longrightarrow> P j)" (is "?l \<longleftrightarrow> ?r")
proof
  assume r: ?r
  show ?l
  proof (intro allI impI)
    fix j assume j: "8 * i \<le> j" "j < 8 * i + bits"
    show "P j"
    proof (cases "j < 8 * i + 8")
      case True
      then show ?thesis using r [THEN conjunct1, rule_format, of "j - 8 * i"] j by simp
    next
      case False
      then show ?thesis using r [THEN conjunct2, rule_format, of j] j by simp
    qed
  qed
qed auto

lemma in_range_bits:
  "8 * i + bits \<le> 8 * length addr \<Longrightarrow> 8 * i + bits \<le> 8 * length p \<Longrightarrow>
   in_range addr p i bits = Ok (\<forall>j. 8 * i \<le> j \<longrightarrow> j < 8 * i + bits \<longrightarrow> abit addr j = abit p j)"
proof (induction bits arbitrary: i rule: less_induct)
  case (less bits)
  show ?case
  proof (cases "bits = 0")
    case True
    then show ?thesis by (simp add: in_range.simps)
  next
    case False
    have i: "i < length addr" "i < length p" using less.prems False by auto
    have IH: "in_range addr p (Suc i) (bits - 8) =
        Ok (\<forall>j. 8 * Suc i \<le> j \<longrightarrow> j < 8 * Suc i + (bits - 8) \<longrightarrow> abit addr j = abit p j)"
    proof (cases "8 \<le> bits")
      case True
      then show ?thesis using False less.prems by (intro less.IH) auto
    next
      case False
      then show ?thesis by (simp add: in_range.simps [of _ _ _ 0])
    qed
    have "(if 8 \<le> bits then bits - 8 else 0) = bits - 8" by simp
    then show ?thesis
      unfolding split_octets [of i bits]
      using i False IH by (subst in_range.simps) (simp only: fetch_ok obind_simps Let_def octet_eq, auto)
  qed
qed

section \<open>The option\<close>

lemma overwrite_zeros: "length a \<le> n \<Longrightarrow> overwrite (replicate n 0) 0 a = a @ replicate (n - length a) 0"
  by (simp add: overwrite_def)

lemma addrlen_le: "bits \<le> 128 \<Longrightarrow> ELPIS_ECS_ADDRLEN bits \<le> 16"
  by (simp add: ELPIS_ECS_ADDRLEN_def)

lemma addrlen_bits: "bits \<le> 8 * ELPIS_ECS_ADDRLEN bits"
  by (simp add: ELPIS_ECS_ADDRLEN_def)

lemma family_bits_le: "family_bits f \<le> 128"
  by (simp add: family_bits_def)

text \<open>An address masked to \<open>n\<close> bits is its first octets and zeros.\<close>

lemma masked_tail:
  assumes "length a = 16" and "n \<le> 128" and "mask_addr a n = a"
  shows "take (ELPIS_ECS_ADDRLEN n) a @ replicate (16 - ELPIS_ECS_ADDRLEN n) 0 = a"
proof (rule abit_eqI)
  let ?k = "ELPIS_ECS_ADDRLEN n"
  have k: "?k \<le> 16" using assms(2) by (rule addrlen_le)
  then show "length (take ?k a @ replicate (16 - ?k) 0) = length a" using assms(1) by simp
  fix i assume "i < 8 * length (take ?k a @ replicate (16 - ?k) 0)"
  then have i: "i < 128" using k assms(1) by simp
  show "abit (take ?k a @ replicate (16 - ?k) 0) i = abit a i"
  proof (cases "i div 8 < ?k")
    case True
    then show ?thesis using assms(1) k by (simp add: abit_def nth_append)
  next
    case False
    then have "n \<le> i" using addrlen_bits [of n] by auto
    then have "\<not> abit a i" using assms i by (auto simp: mask_addr_iff)
    with False i k assms(1) show ?thesis by (auto simp: abit_def nth_append)
  qed
qed

lemma get16_append: "elpis_get16 (elpis_put16 v @ r) 0 = Ok v"
  by (rule get16_put16) (simp_all add: elpis_put16_def)

lemma wf_ecs_source: "wf_ecs e \<Longrightarrow> unat (esource e) \<le> 128"
  using family_bits_le by (auto simp: wf_ecs_def intro: order_trans)

lemma unat_family16: "unat (ucast (f :: byte) :: u16) = unat f"
  using unat_byte_less [of f] by (simp add: unsigned_ucast_eq take_bit_eq_mod)

lemma ecs_encode_eq:
  assumes "wf_ecs e" and "20 \<le> cap"
  shows "elpis_ecs_encode e cap = Ok (elpis_put16 (ucast (efamily e)) @
    [esource e, escope e] @ take (ELPIS_ECS_ADDRLEN (unat (esource e))) (eaddr e))"
  using assms addrlen_le [OF wf_ecs_source [OF assms(1)]]
  by (auto simp: elpis_ecs_encode_def Let_def wf_ecs_def)

lemma ecs_parse_encoded:
  assumes wf: "wf_ecs e"
  shows "elpis_ecs_parse (elpis_put16 (ucast (efamily e)) @
    [esource e, escope e] @ take (ELPIS_ECS_ADDRLEN (unat (esource e))) (eaddr e)) = Ok e"
proof -
  let ?n = "ELPIS_ECS_ADDRLEN (unat (esource e))"
  let ?p = "elpis_put16 (ucast (efamily e)) @ [esource e, escope e] @ take ?n (eaddr e)"
  have n: "?n \<le> 16" using addrlen_le [OF wf_ecs_source [OF wf]] .
  have len: "length (eaddr e) = 16" "unat (efamily e) \<noteq> 0" using wf by (auto simp: wf_ecs_def)
  have p: "?p = [ucast (drop_bit 8 (ucast (efamily e) :: u16)), ucast (ucast (efamily e) :: u16), esource e, escope e] @ take ?n (eaddr e)"
    by (simp add: elpis_put16_def)
  have f: "elpis_get16 ?p 0 = (Ok (ucast (efamily e)) :: (elpis_rc, u16) outcome)" by (rule get16_append)
  have b: "fetch ?p 2 = (Ok (esource e) :: (elpis_rc, byte) outcome)" "fetch ?p 3 = (Ok (escope e) :: (elpis_rc, byte) outcome)"
    "fetch_bytes ?p 4 ?n = (Ok (take ?n (eaddr e)) :: (elpis_rc, buffer) outcome)" "length ?p = 4 + ?n"
    using n len(1) unfolding p by simp_all
  have a: "overwrite (replicate 16 0) 0 (take ?n (eaddr e)) = eaddr e"
    using masked_tail [of "eaddr e" "unat (esource e)"] wf n len wf_ecs_source [OF wf]
    by (simp add: overwrite_zeros wf_ecs_def min_def)
  have w: "family_bits (unat (efamily e)) \<noteq> 0" "unat (esource e) \<le> family_bits (unat (efamily e))"
    "unat (escope e) \<le> family_bits (unat (efamily e))" "mask_addr (eaddr e) (unat (esource e)) = eaddr e"
    using wf by (auto simp: wf_ecs_def family_bits_def)
  show ?thesis
    unfolding elpis_ecs_parse_def f b obind_simps Let_def unat_family16
    using a w len n by (simp add: b)
qed

lemma put16_get16: "2 \<le> length p \<Longrightarrow> elpis_get16 p 0 = Ok v \<Longrightarrow> elpis_put16 v = take 2 p"
proof -
  assume l: "2 \<le> length p" and g: "elpis_get16 p 0 = Ok v"
  then obtain h l' r where p: "p = h # l' # r" by (cases p; cases "tl p") auto
  with g have v: "v = push_bit 8 (ucast h) OR ucast l'" by (simp add: elpis_get16_def)
  have "ucast (drop_bit 8 v) = h"
    unfolding v by (rule bit_word_eqI) (auto simp: bit_simps dest: bit_imp_le_length)
  moreover have "ucast v = l'"
    unfolding v by (rule bit_word_eqI) (auto simp: bit_simps)
  ultimately show ?thesis by (simp add: elpis_put16_def p)
qed

lemma ecs_parse_Ok:
  assumes "elpis_ecs_parse p = Ok e"
  shows "e = ecs_zero \<or> wf_ecs e \<and> p = elpis_put16 (ucast (efamily e)) @ [esource e, escope e] @
    take (ELPIS_ECS_ADDRLEN (unat (esource e))) (eaddr e)"
proof -
  from assms have l: "4 \<le> length p" by (auto simp: elpis_ecs_parse_def split: if_splits)
  then obtain f where f': "elpis_get16 p 0 = (Ok f :: (elpis_rc, u16) outcome)"
    using get16_ok_ex [of 0 p] by auto
  let ?n = "length p - 4" and ?w = "family_bits (unat f)" and ?a = "overwrite (replicate 16 0) 0 (drop 4 p)"
  show ?thesis
  proof (cases "unat f = 0")
    case True
    then show ?thesis using assms l by (auto simp: elpis_ecs_parse_def f' split: if_splits)
  next
    case False
    with assms l have c: "?w \<noteq> 0" "unat (p ! 2) \<le> ?w" "unat (p ! 3) \<le> ?w"
      "?n = ELPIS_ECS_ADDRLEN (unat (p ! 2))" "mask_addr ?a (unat (p ! 2)) = ?a"
      and e: "e = \<lparr>efamily = word_of_nat (unat f), esource = p ! 2, escope = p ! 3, eaddr = ?a\<rparr>"
      by (auto simp: elpis_ecs_parse_def f' Let_def split: if_splits)
    have uf: "unat f = 1 \<or> unat f = 2" using c(1) by (auto simp: family_bits_def split: if_splits)
    then have ub: "unat (ucast f :: byte) = unat f" by (auto simp: unsigned_ucast_eq take_bit_eq_mod)
    have "efamily e = ucast f" using e by simp
    then have fu: "unat (efamily e) = unat f" using ub by simp
    have ff: "f = ucast (efamily e)" by (simp only: word_unat_eq_iff unat_family16 fu)
    have fs: "efamily e \<in> {1, 2}" using uf fu by (auto simp: word_unat_eq_iff)
    have n: "?n \<le> 16" using c(2,4) addrlen_le [of "unat (p ! 2)"] family_bits_le [of "unat f"] by simp
    then have a: "?a = drop 4 p @ replicate (16 - ?n) 0" by (simp add: overwrite_zeros)
    have "wf_ecs e" using c fs fu e n a by (simp add: wf_ecs_def)
    moreover have "take 2 p @ [p ! 2, p ! 3] @ drop 4 p = p"
    proof -
      have "p = take 2 p @ drop 2 p" by simp
      also have "drop 2 p = p ! 2 # p ! 3 # drop 4 p"
        using l by (simp add: Cons_nth_drop_Suc numeral_eq_Suc)
      finally show ?thesis by simp
    qed
    ultimately show ?thesis
      using put16_get16 [OF _ f'] e c(4) a l unfolding ff [symmetric] by simp
  qed
qed

lemma ecs_parse_errors: "elpis_ecs_parse p \<noteq> Fault \<and> (\<forall>x. elpis_ecs_parse p = Err x \<longrightarrow> x = ELPIS_EFORMAT)"
proof (cases "length p < 4")
  case False
  then obtain f :: u16 where "elpis_get16 p 0 = (Ok f :: (elpis_rc, u16) outcome)" using get16_ok_ex [of 0 p] by auto
  with False show ?thesis by (auto simp: elpis_ecs_parse_def Let_def)
qed (simp add: elpis_ecs_parse_def)

lemma ecs_truncate_wf:
  assumes "wf_ecs e"
  defines "cap \<equiv> (\<lambda>v4 v6. if efamily e = 1 then v4 else v6 :: nat)"
  shows "wf_ecs (elpis_ecs_truncate e v4 v6) \<and>
    unat (esource (elpis_ecs_truncate e v4 v6)) = min (cap v4 v6) (unat (esource e)) \<and>
    eaddr (elpis_ecs_truncate e v4 v6) = mask_addr (eaddr e) (min (cap v4 v6) (unat (esource e)))"
proof -
  let ?s = "if cap v4 v6 < unat (esource e) then word_of_nat (cap v4 v6) else esource e"
  have u: "unat (?s :: byte) = min (cap v4 v6) (unat (esource e))"
    using unat_byte_less [of "esource e"] by auto
  have t: "elpis_ecs_truncate e v4 v6 =
      e\<lparr>escope := 0, esource := ?s, eaddr := mask_addr (eaddr e) (unat ?s)\<rparr>"
    by (simp add: elpis_ecs_truncate_def cap_def Let_def)
  show ?thesis
    using assms(1) unfolding t wf_ecs_def by (auto simp: u mask_addr_mask min_le_iff_disj)
qed

section \<open>Properties\<close>

text \<open>
  Property C5. Encoding a well-formed subnet into 20 octets of room and parsing the octets gives the subnet
  back.
\<close>

theorem ecs_roundtrip:
  assumes "wf_ecs e" and "20 \<le> cap"
  shows "\<exists>bs. elpis_ecs_encode e cap = Ok bs \<and> length bs \<le> 20 \<and> elpis_ecs_parse bs = Ok e"
  using ecs_encode_eq [OF assms] ecs_parse_encoded [OF assms(1)] addrlen_le [OF wf_ecs_source [OF assms(1)]]
  by simp

theorem ecs_roundtrip_witness:
  "\<exists>bs. elpis_ecs_encode \<lparr>efamily = 1, esource = 20, escope = 0,
      eaddr = [203, 0, 112, 0, 0, 0, 0, 0, 0, 0, 0, 0, 0, 0, 0, 0]\<rparr> 20 = Ok bs \<and> length bs \<le> 20 \<and>
    elpis_ecs_parse bs = Ok \<lparr>efamily = 1, esource = 20, escope = 0,
      eaddr = [203, 0, 112, 0, 0, 0, 0, 0, 0, 0, 0, 0, 0, 0, 0, 0]\<rparr>"
  by (rule ecs_roundtrip)
     (simp_all add: wf_ecs_def family_bits_def)

text \<open>
  Property C6. The option parser is total and strict: what it accepts is either the empty subnet or a
  well-formed one (known family, prefix and scope within the family's width, no bit set past the
  prefix) whose encoding is the octets that were read, so no two texts mean one subnet.
\<close>

theorem ecs_parse_canonical:
  "case elpis_ecs_parse p of
     Ok e \<Rightarrow> e = ecs_zero \<or>
       (wf_ecs e \<and> p = elpis_put16 (ucast (efamily e)) @ [esource e, escope e] @
          take (ELPIS_ECS_ADDRLEN (unat (esource e))) (eaddr e))
   | Err rc \<Rightarrow> rc = ELPIS_EFORMAT
   | Fault \<Rightarrow> False"
  using ecs_parse_Ok [of p] ecs_parse_errors [of p] by (cases "elpis_ecs_parse p") auto



text \<open>Falling inside a prefix, on bits.\<close>

definition in_prefix :: "buffer \<Rightarrow> buffer \<Rightarrow> nat \<Rightarrow> bool" where
  "in_prefix addr p bits \<longleftrightarrow> (\<forall>j. j < bits \<longrightarrow> abit addr j = abit p j)"

lemma in_range_prefix:
  "bits \<le> 8 * length addr \<Longrightarrow> bits \<le> 8 * length p \<Longrightarrow> in_range addr p 0 bits = Ok (in_prefix addr p bits)"
  using in_range_bits [of 0 bits addr p] by (simp add: in_prefix_def)

lemma public_v4_eq:
  "length (eaddr e) = 16 \<Longrightarrow> list_all (\<lambda>(p, b). b \<le> 8 * length p \<and> b \<le> 128) ranges \<Longrightarrow>
   public_v4 e ranges =
     Ok (\<not> list_ex (\<lambda>(p, b). b \<le> unat (esource e) \<and> in_prefix (eaddr e) p b) ranges)"
  by (induction ranges) (auto simp: in_range_prefix)

lemma v4_special_ok: "list_all (\<lambda>(p, b). b \<le> 8 * length p \<and> b \<le> 128) v4_special"
  by (simp add: v4_special_def)

text \<open>
  Property C8. Which subnets are sent to an authority: a non-empty IPv4 subnet that lies in none of the
  special ranges of the table, or an IPv6 subnet inside 2000::/3 and outside the documentation
  prefix.  The table walk stays inside the 16 octets of the address.
\<close>

theorem ecs_public_spec:
  assumes "wf_ecs e"
  shows "elpis_ecs_is_public e = Ok (esource e \<noteq> 0 \<and>
    (if efamily e = 1 then
       \<not> list_ex (\<lambda>(p, b). b \<le> unat (esource e) \<and> in_prefix (eaddr e) p b) v4_special
     else 3 \<le> unat (esource e) \<and> in_prefix (eaddr e) unicast6 3 \<and>
       \<not> (32 \<le> unat (esource e) \<and> in_prefix (eaddr e) doc6 32)))"
proof -
  have "length (eaddr e) = 16" "efamily e = 1 \<or> efamily e = 2" using assms by (auto simp: wf_ecs_def)
  then show ?thesis
    using public_v4_eq [OF _ v4_special_ok, of e]
    by (auto simp: elpis_ecs_is_public_def in_range_prefix unicast6_def doc6_def)
qed

theorem ecs_public_spec_witness:
  "elpis_ecs_is_public \<lparr>efamily = 2, esource = 2, escope = 0,
     eaddr = [0, 0, 0, 0, 0, 0, 0, 0, 0, 0, 0, 0, 0, 0, 0, 0]\<rparr> = Ok False"
  by (subst ecs_public_spec) (simp_all add: wf_ecs_def family_bits_def)

end
