(* ===== verification/Elpis_Msg.thy ===== *)
theory Elpis_Msg
  imports Elpis_Name Elpis_Ecs
begin

unbundle bit_operations_syntax

text \<open>
  Parsing of DNS messages, the first half of \<open>src/dns/msg.c\<close> with \<open>include/elpis/msg.h\<close>: the
  header, the record walk, the OPT record and its options, and record iteration.

  The C structures are records; a pointer into the message with its length is the message itself
  and an offset.  A failure carries the drop reason the C function reports through \<open>*drop\<close>.
\<close>

section \<open>Definitions\<close>

record elpis_hdr =
  hid :: u16
  hflags :: u16
  qdcount :: u16
  ancount :: u16
  nscount :: u16
  arcount :: u16

record elpis_rr =
  rname :: elpis_name
  rtype :: u16
  rklass :: u16
  rttl :: u32
  rdlen :: nat
  rdoff :: nat
  rroff :: nat
  rnext :: nat

record elpis_msg =
  mwire :: buffer
  mhdr :: elpis_hdr
  qname :: elpis_name
  qtype :: u16
  qclass :: u16
  qend :: nat
  sec_off :: "nat list"
  sec_cnt :: "nat list"
  have_opt :: bool
  do_bit :: bool
  have_cookie :: bool
  have_ecs :: bool
  ecs_bad :: bool
  edns_bufsize :: u16
  edns_version :: byte
  edns_rcode_hi :: byte
  edns_flags :: u16
  opt_off :: nat
  opt_rdoff :: nat
  opt_rdlen :: nat
  mcookie :: buffer
  mecs :: elpis_ecs

record elpis_rr_iter =
  iwire :: buffer
  ioff :: nat
  iremain :: nat

type_synonym 'a parsed = "(elpis_rc \<times> elpis_drop, 'a) outcome"

abbreviation bad :: "elpis_drop \<Rightarrow> 'a parsed" where "bad d \<equiv> Err (ELPIS_EFORMAT, d)"

definition elpis_hdr_parse :: "buffer \<Rightarrow> (elpis_rc, elpis_hdr) outcome" where
  "elpis_hdr_parse w =
     (if length w < 12 then Err ELPIS_EFORMAT
      else obind (elpis_get16 w 0) (\<lambda>a. obind (elpis_get16 w 2) (\<lambda>b.
        obind (elpis_get16 w 4) (\<lambda>c. obind (elpis_get16 w 6) (\<lambda>d.
        obind (elpis_get16 w 8) (\<lambda>e. obind (elpis_get16 w 10) (\<lambda>f.
          Ok \<lparr>hid = a, hflags = b, qdcount = c, ancount = d, nscount = e, arcount = f\<rparr>)))))))"

function skip_name :: "buffer \<Rightarrow> nat \<Rightarrow> nat \<Rightarrow> nat \<Rightarrow> nat parsed" where
  "skip_name w off tot labels =
     (if length w \<le> off then bad DROP_NAME
      else obind (fetch w off) (\<lambda>c.
        if c AND 0xC0 = 0xC0 then
          (if length w < off + 2 then bad DROP_COMPRESS
           else obind (fetch w (off + 1)) (\<lambda>c1.
             let tgt = unat (push_bit 8 (ucast (c AND 0x3F)) OR ucast c1 :: u16) in
             if off \<le> tgt then bad DROP_COMPRESS else Ok (off + 2)))
        else if c AND 0xC0 \<noteq> 0 then bad DROP_NAME
        else if c = 0 then
          (if ELPIS_MAX_NAME < tot + 1 then bad DROP_NAME else Ok (off + 1))
        else if ELPIS_MAX_LABEL < unat c then bad DROP_NAME
        else if length w < off + 1 + unat c then bad DROP_NAME
        else if ELPIS_MAX_NAME < tot + (1 + unat c) + 1 then bad DROP_NAME
        else if ELPIS_MAX_LABELS < labels + 1 then bad DROP_NAME
        else skip_name w (off + 1 + unat c) (tot + (1 + unat c)) (labels + 1)))"
  by pat_completeness auto
termination
  by (relation "measure (\<lambda>(w, off, tot, labels). length w - off)") auto

declare skip_name.simps [simp del]

definition skip_rr :: "buffer \<Rightarrow> nat \<Rightarrow> nat parsed" where
  "skip_rr w off =
     obind (skip_name w off 0 0) (\<lambda>p.
       if length w < p + 10 then bad DROP_RDLEN
       else obind (elpis_get16 w (p + 8)) (\<lambda>rdl.
         if length w < p + 10 + unat rdl then bad DROP_RDLEN
         else Ok (p + 10 + unat rdl)))"

definition elpis_rr_next :: "elpis_rr_iter \<Rightarrow> (elpis_rr \<times> elpis_rr_iter) parsed" where
  "elpis_rr_next it =
     (if iremain it = 0 then Err (ELPIS_ENOTFOUND, DROP_NONE)
      else obind (elpis_name_parse (iwire it) (ioff it)) (\<lambda>(n, p).
        if length (iwire it) < p + 10 then bad DROP_RDLEN
        else obind (elpis_get16 (iwire it) p) (\<lambda>ty.
          obind (elpis_get16 (iwire it) (p + 2)) (\<lambda>kl.
          obind (elpis_get32 (iwire it) (p + 4)) (\<lambda>tt.
          obind (elpis_get16 (iwire it) (p + 8)) (\<lambda>rl.
            if length (iwire it) < p + 10 + unat rl then bad DROP_RDLEN
            else Ok (\<lparr>rname = n, rtype = ty, rklass = kl, rttl = tt, rdlen = unat rl,
                      rdoff = p + 10, rroff = ioff it, rnext = p + 10 + unat rl\<rparr>,
                     it\<lparr>ioff := p + 10 + unat rl, iremain := iremain it - 1\<rparr>)))))))"

abbreviation ELPIS_OPT_ECS :: nat where "ELPIS_OPT_ECS \<equiv> 8"
abbreviation ELPIS_OPT_COOKIE :: nat where "ELPIS_OPT_COOKIE \<equiv> 10"
abbreviation ELPIS_T_OPT :: u16 where "ELPIS_T_OPT \<equiv> 41"

text \<open>One option of the OPT record: its code, and the octets of its data.\<close>

definition opt_option :: "elpis_msg \<Rightarrow> nat \<Rightarrow> buffer \<Rightarrow> elpis_msg parsed" where
  "opt_option m ocode data =
     (let olen = length data in
      if ocode = ELPIS_OPT_COOKIE then
        (if olen \<noteq> 8 \<and> (olen < 16 \<or> 40 < olen) then bad DROP_EDNS
         else Ok (m\<lparr>mcookie := data, have_cookie := True\<rparr>))
      else if ocode = ELPIS_OPT_ECS then
        (if olen < 4 then bad DROP_EDNS
         else (case elpis_ecs_parse data of
                 Ok e \<Rightarrow> Ok (m\<lparr>mecs := e, have_ecs := True\<rparr>)
               | Err _ \<Rightarrow> Ok (m\<lparr>ecs_bad := True, have_ecs := True\<rparr>)
               | Fault \<Rightarrow> Fault))
      else Ok m)"

function opt_options :: "elpis_msg \<Rightarrow> nat \<Rightarrow> nat \<Rightarrow> elpis_msg parsed" where
  "opt_options m p stop =
     (if \<not> p < stop then Ok m
      else if stop < p + 4 then bad DROP_EDNS
      else obind (elpis_get16 (mwire m) p) (\<lambda>ocode. obind (elpis_get16 (mwire m) (p + 2)) (\<lambda>olen.
        if stop < p + 4 + unat olen then bad DROP_EDNS
        else obind (fetch_bytes (mwire m) (p + 4) (unat olen)) (\<lambda>data.
          obind (opt_option m (unat ocode) data) (\<lambda>m'.
            opt_options m' (p + 4 + unat olen) stop)))))"
  by pat_completeness auto
termination
  by (relation "measure (\<lambda>(m, p, stop). stop - p)") auto

declare opt_options.simps [simp del]

abbreviation ELPIS_PARSE_QUERY :: u32 where "ELPIS_PARSE_QUERY \<equiv> 1"
abbreviation ELPIS_PARSE_RESPONSE :: u32 where "ELPIS_PARSE_RESPONSE \<equiv> 2"
abbreviation ELPIS_PARSE_NO_WALK :: u32 where "ELPIS_PARSE_NO_WALK \<equiv> 4"

definition parse_opt :: "elpis_msg \<Rightarrow> elpis_rr \<Rightarrow> u32 \<Rightarrow> elpis_msg parsed" where
  "parse_opt m rr flags =
     (if have_opt m then bad DROP_MULTI_OPT
      else if nlen (rname rr) \<noteq> 1 \<and> flags AND ELPIS_PARSE_QUERY \<noteq> 0 then bad DROP_EDNS
      else
        let fl = ucast (rttl rr AND 0xFFFF) :: u16;
            m' = m\<lparr>have_opt := True, opt_off := rroff rr, opt_rdoff := rdoff rr,
                   opt_rdlen := rdlen rr, edns_bufsize := rklass rr,
                   edns_rcode_hi := ucast (drop_bit 24 (rttl rr)),
                   edns_version := ucast (drop_bit 16 (rttl rr)),
                   edns_flags := fl, do_bit := (fl AND 0x8000 \<noteq> 0)\<rparr>
        in opt_options m' (rdoff rr) (rdoff rr + rdlen rr))"

text \<open>The record walk of one section, then of the three sections.\<close>

fun walk_section :: "buffer \<Rightarrow> nat \<Rightarrow> nat \<Rightarrow> nat parsed" where
  "walk_section w off 0 = Ok off"
| "walk_section w off (Suc n) = obind (skip_rr w off) (\<lambda>off'. walk_section w off' n)"

fun walk_sections :: "buffer \<Rightarrow> nat \<Rightarrow> nat list \<Rightarrow> (nat list \<times> nat) parsed" where
  "walk_sections w off [] = Ok ([], off)"
| "walk_sections w off (c # cs) =
     obind (walk_section w off c) (\<lambda>off'.
       obind (walk_sections w off' cs) (\<lambda>(offs, e). Ok (off # offs, e)))"

definition elpis_rr_iter :: "elpis_msg \<Rightarrow> nat \<Rightarrow> elpis_rr_iter" where
  "elpis_rr_iter m s = \<lparr>iwire = mwire m, ioff = sec_off m ! s, iremain = sec_cnt m ! s\<rparr>"

text \<open>The scan of the additional section for OPT records.\<close>

function scan_opt :: "elpis_msg \<Rightarrow> elpis_rr_iter \<Rightarrow> u32 \<Rightarrow> elpis_msg parsed" where
  "scan_opt m it flags =
     (case elpis_rr_next it of
        Ok (rr, it') \<Rightarrow>
          if rtype rr = ELPIS_T_OPT then obind (parse_opt m rr flags) (\<lambda>m'. scan_opt m' it' flags)
          else scan_opt m it' flags
      | Err (rc, d) \<Rightarrow> if rc = ELPIS_EFORMAT then bad d else Ok m
      | Fault \<Rightarrow> Fault)"
  by pat_completeness auto
termination
  by (relation "measure (\<lambda>(m, it, flags). iremain it)")
     (auto simp: elpis_rr_next_def split: if_splits)

text \<open>The scan that refuses an OPT outside the additional section.\<close>

function scan_no_opt :: "elpis_rr_iter \<Rightarrow> unit parsed" where
  "scan_no_opt it =
     (case elpis_rr_next it of
        Ok (rr, it') \<Rightarrow> if rtype rr = ELPIS_T_OPT then bad DROP_EDNS else scan_no_opt it'
      | Err _ \<Rightarrow> Ok ()
      | Fault \<Rightarrow> Fault)"
  by pat_completeness auto
termination
  by (relation "measure iremain") (auto simp: elpis_rr_next_def split: if_splits)

declare scan_opt.simps [simp del] scan_no_opt.simps [simp del]

definition msg_zero :: "buffer \<Rightarrow> elpis_msg" where
  "msg_zero w =
     \<lparr>mwire = w,
      mhdr = \<lparr>hid = 0, hflags = 0, qdcount = 0, ancount = 0, nscount = 0, arcount = 0\<rparr>,
      qname = \<lparr>nlen = 0, nlabels = 0, nd = []\<rparr>, qtype = 0, qclass = 0, qend = 0,
      sec_off = [0, 0, 0], sec_cnt = [0, 0, 0], have_opt = False, do_bit = False,
      have_cookie = False, have_ecs = False, ecs_bad = False, edns_bufsize = 512,
      edns_version = 0, edns_rcode_hi = 0, edns_flags = 0, opt_off = 0, opt_rdoff = 0,
      opt_rdlen = 0, mcookie = [], mecs = ecs_zero\<rparr>"

text \<open>The question: where the record sections start.\<close>

definition msg_question :: "elpis_msg \<Rightarrow> elpis_msg parsed" where
  "msg_question m =
     (if qdcount (mhdr m) = 1 then
        obind (elpis_name_parse (mwire m) 12) (\<lambda>(n, e).
          if length (mwire m) < e + 4 then bad DROP_SHORT
          else obind (elpis_get16 (mwire m) e) (\<lambda>ty. obind (elpis_get16 (mwire m) (e + 2)) (\<lambda>cl.
            Ok (m\<lparr>qname := n, qtype := ty, qclass := cl, qend := e + 4\<rparr>))))
      else if qdcount (mhdr m) = 0 then Ok (m\<lparr>qend := 12\<rparr>)
      else bad DROP_QDCOUNT)"

text \<open>The walk over every record, the trailing octets, and the OPT rules.\<close>

definition msg_sections :: "elpis_msg \<Rightarrow> u32 \<Rightarrow> elpis_msg parsed" where
  "msg_sections m flags =
     obind (walk_sections (mwire m) (qend m) (sec_cnt m)) (\<lambda>(offs, e).
       let m3 = m\<lparr>sec_off := offs\<rparr> in
       if e \<noteq> length (mwire m) then bad DROP_TRAILING
       else obind (scan_opt m3 (elpis_rr_iter m3 2) flags) (\<lambda>m4.
         obind (scan_no_opt (elpis_rr_iter m4 0)) (\<lambda>_.
         obind (scan_no_opt (elpis_rr_iter m4 1)) (\<lambda>_.
           Ok (if have_opt m4 \<and> edns_bufsize m4 < 512
               then m4\<lparr>edns_bufsize := 512\<rparr> else m4)))))"

definition elpis_msg_parse :: "buffer \<Rightarrow> u32 \<Rightarrow> elpis_msg parsed" where
  "elpis_msg_parse w flags =
     (case elpis_hdr_parse w of
        Err _ \<Rightarrow> bad DROP_SHORT
      | Fault \<Rightarrow> Fault
      | Ok h \<Rightarrow>
        let m = (msg_zero w)\<lparr>mhdr := h\<rparr>; is_resp = (hflags h AND 0x8000 \<noteq> 0) in
        if is_resp \<and> flags AND ELPIS_PARSE_RESPONSE = 0 then bad DROP_QR_SET
        else if \<not> is_resp \<and> flags AND ELPIS_PARSE_QUERY = 0 then bad DROP_QR_SET
        else obind (msg_question m) (\<lambda>m1.
          let m2 = m1\<lparr>sec_cnt := [unat (ancount h), unat (nscount h), unat (arcount h)]\<rparr> in
          if flags AND ELPIS_PARSE_NO_WALK \<noteq> 0 then
            Ok (m2\<lparr>sec_off := [qend m2, qend m2, qend m2]\<rparr>)
          else msg_sections m2 flags))"

definition elpis_msg_rcode :: "elpis_msg \<Rightarrow> u32" where
  "elpis_msg_rcode m = ucast (hflags (mhdr m) AND 0x000F) OR push_bit 4 (ucast (edns_rcode_hi m))"

definition elpis_msg_opcode :: "elpis_msg \<Rightarrow> u32" where
  "elpis_msg_opcode m = drop_bit 11 (ucast (hflags (mhdr m) AND 0x7800))"

section \<open>The record walk\<close>

lemma skip_name_step:
  "skip_name w off tot labels =
     (if length w \<le> off then bad DROP_NAME
      else if 192 \<le> unat (w ! off) then
        (if length w \<le> off + 1 then bad DROP_COMPRESS
         else if off \<le> pointer_target w off then bad DROP_COMPRESS else Ok (off + 2))
      else if w ! off = 0 \<and> tot < 255 then Ok (off + 1)
      else if 0 < unat (w ! off) \<and> unat (w ! off) < 64 \<and> off + 1 + unat (w ! off) \<le> length w \<and>
              tot + unat (w ! off) + 2 \<le> 255 \<and> labels < 128 then
        skip_name w (off + 1 + unat (w ! off)) (tot + 1 + unat (w ! off)) (Suc labels)
      else bad DROP_NAME)"
proof -
  let ?c = "w ! off"
  note u = skip_name.simps [of w off tot labels]
  consider "length w \<le> off" | "off < length w" "192 \<le> unat ?c" "length w \<le> off + 1"
    | "off < length w" "192 \<le> unat ?c" "off + 1 < length w"
    | "off < length w" "unat ?c < 192" "64 \<le> unat ?c"
    | "off < length w" "unat ?c = 0"
    | "off < length w" "0 < unat ?c" "unat ?c < 64"
    by linarith
  then show ?thesis
  proof cases
    case 3
    then show ?thesis by (simp add: u Let_def unat_join16 and_3F pointer_target_def)
  next
    case 4
    then have "?c \<noteq> 0" by auto
    with 4 show ?thesis by (simp add: u)
  next
    case 5
    then have "?c = 0" by (simp add: byte_zero_iff)
    with 5 show ?thesis by (simp add: u)
  next
    case 6
    then have "?c \<noteq> 0" by auto
    with 6 show ?thesis by (simp add: u not_le add.assoc)
  qed (simp_all add: u)
qed

lemma skip_name_ok:
  "case skip_name w off tot labels of Ok e \<Rightarrow> off < e \<and> e \<le> length w
   | Err (rc, d) \<Rightarrow> rc = ELPIS_EFORMAT | Fault \<Rightarrow> False"
proof (induction "length w - off" arbitrary: off tot labels rule: less_induct)
  case less
  show ?case
  proof (cases "off < length w \<and> 0 < unat (w ! off) \<and> unat (w ! off) < 64 \<and> off + 1 + unat (w ! off) \<le> length w \<and>
              tot + unat (w ! off) + 2 \<le> 255 \<and> labels < 128")
    case True
    then have "w ! off \<noteq> 0" by auto
    moreover have "length w - (off + 1 + unat (w ! off)) < length w - off" using True by linarith
    note less [OF this, of "tot + 1 + unat (w ! off)" "Suc labels"]
    ultimately show ?thesis using True
      by (subst skip_name_step) (auto split: outcome.splits)
  next
    case False
    then show ?thesis by (subst skip_name_step) auto
  qed
qed

lemma decodes_skip_name:
  "decodes w off limit ls k e \<Longrightarrow> limit \<le> off \<Longrightarrow> tot + length (wire ls) \<le> 255 \<Longrightarrow> labels + length ls \<le> 128 \<Longrightarrow>
   skip_name w off tot labels = Ok e"
proof (induction arbitrary: tot labels rule: decodes.induct)
  case (root off limit)
  then show ?case by (subst skip_name_step) simp
next
  case (pointer off limit ls k e)
  then show ?case by (subst skip_name_step) simp
next
  case (label off limit ls k e)
  then have "w ! off \<noteq> 0" by auto
  with label show ?case by (subst skip_name_step) (auto simp: length_wire)
qed

lemma name_parse_skip: "elpis_name_parse w off = Ok (n, e) \<Longrightarrow> skip_name w off 0 0 = Ok e"
proof -
  assume "elpis_name_parse w off = Ok (n, e)"
  then obtain ls k where *: "decodes w off off ls k e" "ok_labels ls" using parse_iff by blast
  then show ?thesis using ok_labels_count [of ls] ok_labels_len [of ls] by (intro decodes_skip_name) auto
qed

lemma name_parse_Ok: "elpis_name_parse w off = Ok (n, e) \<Longrightarrow> wf_name n \<and> off < e \<and> e \<le> length w"
  using parse_iff [of w off n e] decodes_end by fastforce

lemma name_parse_errors:
  "elpis_name_parse w off \<noteq> Fault" "elpis_name_parse w off = Err x \<Longrightarrow> fst x = ELPIS_EFORMAT"
  using name_parse_loop_errors [of w off off 0 0 0 "[]"] by (auto simp: elpis_name_parse_def)

lemma skip_rr_ok:
  "case skip_rr w off of Ok e \<Rightarrow> off + 10 < e \<and> e \<le> length w | Err (rc, d) \<Rightarrow> rc = ELPIS_EFORMAT | Fault \<Rightarrow> False"
proof (cases "skip_name w off 0 0")
  case (Ok p)
  then have p: "off < p" "p \<le> length w" using skip_name_ok [of off w 0 0] by auto
  show ?thesis
  proof (cases "p + 10 \<le> length w")
    case True
    then obtain v :: u16 where "elpis_get16 w (p + 8) = (Ok v :: u16 parsed)" using get16_ok_ex [of "p + 8" w] by auto
    with Ok p True show ?thesis by (simp add: skip_rr_def)
  next
    case False
    with Ok show ?thesis by (simp add: skip_rr_def)
  qed
next
  case (Err x)
  then show ?thesis using skip_name_ok [of off w 0 0] by (cases x) (simp add: skip_rr_def)
next
  case Fault
  then show ?thesis using skip_name_ok [of off w 0 0] by simp
qed

lemma get16_ok: "i + 2 \<le> length b \<Longrightarrow> elpis_get16 b i = Ok (push_bit 8 (ucast (b ! i)) OR ucast (b ! (i + 1)))"
  by (simp add: elpis_get16_def)

lemma get32_ok: "i + 4 \<le> length b \<Longrightarrow> elpis_get32 b i =
    Ok (push_bit 24 (ucast (b ! i)) OR push_bit 16 (ucast (b ! (i + 1))) OR
        push_bit 8 (ucast (b ! (i + 2))) OR ucast (b ! (i + 3)))"
  by (simp add: elpis_get32_def)

lemma rr_next_step:
  assumes "iremain it \<noteq> 0"
  shows "case elpis_rr_next it of
      Ok (rr, it') \<Rightarrow> elpis_name_parse (iwire it) (ioff it) = Ok (rname rr, rdoff rr - 10) \<and>
        wf_name (rname rr) \<and> rroff rr = ioff it \<and> ioff it + 10 < rdoff rr \<and> rdoff rr + rdlen rr = rnext rr \<and>
        rdlen rr < 65536 \<and> rnext rr \<le> length (iwire it) \<and> skip_rr (iwire it) (ioff it) = Ok (rnext rr) \<and>
        it' = it\<lparr>ioff := rnext rr, iremain := iremain it - 1\<rparr>
    | Err (rc, d) \<Rightarrow> rc = ELPIS_EFORMAT | Fault \<Rightarrow> False"
proof (cases "elpis_name_parse (iwire it) (ioff it)")
  case (Ok x)
  then obtain n p where x: "x = (n, p)" by (cases x)
  then have p: "wf_name n" "ioff it < p" "p \<le> length (iwire it)" using Ok name_parse_Ok by auto
  have s: "skip_name (iwire it) (ioff it) 0 0 = Ok p" using Ok x by (auto intro: name_parse_skip)
  show ?thesis
  proof (cases "p + 10 \<le> length (iwire it)")
    case True
    with Ok x p s assms show ?thesis
      by (simp add: elpis_rr_next_def skip_rr_def get16_ok get32_ok unat_u16_less)
  next
    case False
    with Ok x assms show ?thesis by (simp add: elpis_rr_next_def)
  qed
next
  case (Err x)
  then show ?thesis using name_parse_errors(2) [OF Err] assms by (cases x) (simp add: elpis_rr_next_def)
next
  case Fault
  then show ?thesis using name_parse_errors(1) by simp
qed

subsection \<open>Iterating a section\<close>

text \<open>The records an iterator yields, and where it stops.\<close>

function records :: "elpis_rr_iter \<Rightarrow> elpis_rr list \<times> elpis_rr_iter" where
  "records it =
     (case elpis_rr_next it of
        Ok (rr, it') \<Rightarrow> (let (rs, e) = records it' in (rr # rs, e))
      | _ \<Rightarrow> ([], it))"
  by pat_completeness auto
termination
  by (relation "measure iremain") (auto simp: elpis_rr_next_def split: if_splits)

declare records.simps [simp del]

text \<open>Records that follow one another from \<open>off\<close> up to \<open>e\<close> inside the message.\<close>

fun tiled :: "buffer \<Rightarrow> nat \<Rightarrow> elpis_rr list \<Rightarrow> nat \<Rightarrow> bool" where
  "tiled w off [] e \<longleftrightarrow> off = e"
| "tiled w off (rr # rs) e \<longleftrightarrow> rroff rr = off \<and> wf_name (rname rr) \<and> off + 10 < rdoff rr \<and>
     rdoff rr + rdlen rr = rnext rr \<and> rnext rr \<le> length w \<and> tiled w (rnext rr) rs e"

lemma rr_next_done: "elpis_rr_next it = Err (ELPIS_ENOTFOUND, d) \<longleftrightarrow> iremain it = 0 \<and> d = DROP_NONE"
  using rr_next_step [of it] by (cases "iremain it = 0") (auto simp: elpis_rr_next_def split: outcome.splits)

lemma records_tiled:
  "tiled (iwire it) (ioff it) (fst (records it)) (ioff (snd (records it))) \<and>
   iwire (snd (records it)) = iwire it \<and>
   length (fst (records it)) + iremain (snd (records it)) = iremain it"
proof (induction it rule: records.induct)
  case (1 it)
  show ?case
  proof (cases "elpis_rr_next it")
    case (Ok x)
    then obtain rr it' where x: "x = (rr, it')" by (cases x)
    have "iremain it \<noteq> 0" using Ok by (cases "iremain it = 0") (auto simp: elpis_rr_next_def)
    with rr_next_step [of it] Ok x have *: "wf_name (rname rr)" "rroff rr = ioff it" "ioff it + 10 < rdoff rr"
      "rdoff rr + rdlen rr = rnext rr" "rnext rr \<le> length (iwire it)" "iremain it \<noteq> 0"
      "it' = it\<lparr>ioff := rnext rr, iremain := iremain it - 1\<rparr>" by auto
    have "records it = (rr # fst (records it'), snd (records it'))"
      using Ok x by (simp add: records.simps [of it] split_beta)
    with 1 [OF Ok x [symmetric]] * show ?thesis by simp
  qed (simp_all add: records.simps [of it])
qed

lemma walk_records:
  "walk_section w off n = Ok e \<Longrightarrow> iremain (snd (records \<lparr>iwire = w, ioff = off, iremain = n\<rparr>)) = 0 \<Longrightarrow>
   ioff (snd (records \<lparr>iwire = w, ioff = off, iremain = n\<rparr>)) = e"
proof (induction n arbitrary: off)
  case 0
  then show ?case by (simp add: records.simps elpis_rr_next_def)
next
  case (Suc n)
  let ?it = "\<lparr>iwire = w, ioff = off, iremain = Suc n\<rparr>"
  show ?case
  proof (cases "elpis_rr_next ?it")
    case (Ok x)
    then obtain rr it' where x: "x = (rr, it')" by (cases x)
    with rr_next_step [of ?it] Ok have *: "skip_rr w off = Ok (rnext rr)"
      "it' = \<lparr>iwire = w, ioff = rnext rr, iremain = n\<rparr>" by auto
    have "snd (records ?it) = snd (records it')"
      using Ok x by (simp add: records.simps [of ?it] split_beta)
    with Suc * show ?thesis by simp
  next
    case (Err y)
    with Suc.prems(2) show ?thesis by (simp add: records.simps [of ?it])
  next
    case Fault
    with Suc.prems(2) show ?thesis by (simp add: records.simps [of ?it])
  qed
qed

subsection \<open>The OPT record\<close>

text \<open>What the scan for OPT leaves as it was, and what it keeps true of the EDNS fields.\<close>

definition same_frame :: "elpis_msg \<Rightarrow> elpis_msg \<Rightarrow> bool" where
  "same_frame m m' \<longleftrightarrow> mwire m' = mwire m \<and> mhdr m' = mhdr m \<and> qname m' = qname m \<and> qtype m' = qtype m \<and>
     qclass m' = qclass m \<and> qend m' = qend m \<and> sec_off m' = sec_off m \<and> sec_cnt m' = sec_cnt m"

definition edns_ok :: "elpis_msg \<Rightarrow> bool" where
  "edns_ok m \<longleftrightarrow>
     (have_opt m \<longrightarrow> opt_off m < opt_rdoff m \<and> opt_rdoff m + opt_rdlen m \<le> length (mwire m)) \<and>
     (have_cookie m \<longrightarrow> have_opt m \<and> (length (mcookie m) = 8 \<or> 16 \<le> length (mcookie m) \<and> length (mcookie m) \<le> 40)) \<and>
     (have_ecs m \<longrightarrow> have_opt m) \<and> (mecs m = ecs_zero \<or> wf_ecs (mecs m)) \<and>
     (do_bit m \<longleftrightarrow> edns_flags m AND 0x8000 \<noteq> 0)"

lemma same_frame_refl [simp]: "same_frame m m"
  by (simp add: same_frame_def)

lemma same_frame_trans: "same_frame a b \<Longrightarrow> same_frame b c \<Longrightarrow> same_frame a c"
  by (simp add: same_frame_def)

lemma opt_option_ok:
  "case opt_option m ocode data of
     Ok m' \<Rightarrow> same_frame m m' \<and> have_opt m' = have_opt m \<and> (edns_ok m \<longrightarrow> have_opt m \<longrightarrow> edns_ok m')
   | Err (rc, d) \<Rightarrow> rc = ELPIS_EFORMAT | Fault \<Rightarrow> False"
  using ecs_parse_errors [of data] ecs_parse_Ok [of data]
  by (auto simp: opt_option_def same_frame_def edns_ok_def Let_def split: outcome.splits)

lemma opt_options_ok:
  "stop \<le> length (mwire m) \<Longrightarrow> have_opt m \<Longrightarrow> edns_ok m \<Longrightarrow>
   case opt_options m p stop of Ok m' \<Rightarrow> same_frame m m' \<and> have_opt m' \<and> edns_ok m'
   | Err (rc, d) \<Rightarrow> rc = ELPIS_EFORMAT | Fault \<Rightarrow> False"
proof (induction "stop - p" arbitrary: p m rule: less_induct)
  case less
  show ?case
  proof (cases "p < stop \<and> p + 4 \<le> stop")
    case True
    let ?w = "mwire m"
    let ?oc = "push_bit 8 (ucast (?w ! p)) OR ucast (?w ! (p + 1)) :: u16"
    let ?ol = "push_bit 8 (ucast (?w ! (p + 2))) OR ucast (?w ! (p + 3)) :: u16"
    have g: "elpis_get16 ?w p = (Ok ?oc :: u16 parsed)" "elpis_get16 ?w (p + 2) = (Ok ?ol :: u16 parsed)"
      using True less.prems(1) get16_ok [of p ?w] get16_ok [of "p + 2" ?w] by (simp_all add: numeral_eq_Suc)
    show ?thesis
    proof (cases "p + 4 + unat ?ol \<le> stop")
      case le: True
      define data where "data = take (unat ?ol) (drop (p + 4) ?w)"
      have d: "fetch_bytes ?w (p + 4) (unat ?ol) = (Ok data :: buffer parsed)"
        using le less.prems(1) by (simp add: data_def)
      have u: "opt_options m p stop = obind (opt_option m (unat ?oc) data) (\<lambda>m'. opt_options m' (p + 4 + unat ?ol) stop)"
        using True le by (subst opt_options.simps) (simp only: g d obind_simps, simp)
      show ?thesis
      proof (cases "opt_option m (unat ?oc) data")
        case (Ok m')
        then have m': "same_frame m m'" "have_opt m'" "edns_ok m'"
          using opt_option_ok [of m "unat ?oc" data] less.prems by auto
        then have "mwire m' = ?w" by (simp add: same_frame_def)
        moreover have "stop - (p + 4 + unat ?ol) < stop - p" using True by linarith
        note less.hyps [OF this, of m']
        ultimately show ?thesis
          using True m' less.prems(1) unfolding u Ok
          by (auto split: outcome.splits intro: same_frame_trans)
      qed (use opt_option_ok [of m "unat ?oc" data] u in auto)
    next
      case False
      then show ?thesis using True by (subst opt_options.simps) (simp only: g obind_simps, simp)
    qed
  next
    case False
    then show ?thesis using less.prems by (subst opt_options.simps) auto
  qed
qed


lemma parse_opt_ok:
  assumes "rroff rr < rdoff rr" and "rdoff rr + rdlen rr \<le> length (mwire m)" and "edns_ok m"
  shows "case parse_opt m rr flags of Ok m' \<Rightarrow> same_frame m m' \<and> \<not> have_opt m \<and> have_opt m' \<and> edns_ok m'
    | Err (rc, d) \<Rightarrow> rc = ELPIS_EFORMAT | Fault \<Rightarrow> False"
proof (cases "have_opt m \<or> nlen (rname rr) \<noteq> 1 \<and> flags AND ELPIS_PARSE_QUERY \<noteq> 0")
  case False
  define m' where "m' = m\<lparr>have_opt := True, opt_off := rroff rr, opt_rdoff := rdoff rr,
     opt_rdlen := rdlen rr, edns_bufsize := rklass rr, edns_rcode_hi := ucast (drop_bit 24 (rttl rr)),
     edns_version := ucast (drop_bit 16 (rttl rr)), edns_flags := ucast (rttl rr AND 0xFFFF),
     do_bit := ((ucast (rttl rr AND 0xFFFF) :: u16) AND 0x8000 \<noteq> 0)\<rparr>"
  have "same_frame m m'" "have_opt m'" "edns_ok m'" "mwire m' = mwire m"
    using assms False by (auto simp: m'_def same_frame_def edns_ok_def)
  moreover have "parse_opt m rr flags = opt_options m' (rdoff rr) (rdoff rr + rdlen rr)"
    using False by (auto simp: parse_opt_def m'_def Let_def)
  ultimately show ?thesis
    using opt_options_ok [of "rdoff rr + rdlen rr" m' "rdoff rr"] False assms(2)
    by (auto split: outcome.splits intro: same_frame_trans)
qed (auto simp: parse_opt_def)

text \<open>
  The scan for OPT: either it refuses the message, or it has walked the whole section and met
  at most one OPT.
\<close>

lemma scan_opt_ok:
  "iwire it = mwire m \<Longrightarrow> edns_ok m \<Longrightarrow>
   case scan_opt m it flags of
     Ok m' \<Rightarrow> same_frame m m' \<and> edns_ok m' \<and> iremain (snd (records it)) = 0 \<and> (have_opt m' \<or> m' = m) \<and>
       of_bool (have_opt m') = of_bool (have_opt m) + length (filter (\<lambda>rr. rtype rr = ELPIS_T_OPT) (fst (records it)))
   | Err (rc, d) \<Rightarrow> rc = ELPIS_EFORMAT | Fault \<Rightarrow> False"
proof (induction "iremain it" arbitrary: m it)
  case 0
  then have "elpis_rr_next it = Err (ELPIS_ENOTFOUND, DROP_NONE)" by (simp add: elpis_rr_next_def)
  with 0 show ?case by (simp add: scan_opt.simps [of m it] records.simps [of it])
next
  case (Suc n)
  then have r: "iremain it \<noteq> 0" by simp
  show ?case
  proof (cases "elpis_rr_next it")
    case (Ok x)
    then obtain rr it' where x: "x = (rr, it')" by (cases x)
    with rr_next_step [OF r] Ok have *: "rroff rr < rdoff rr" "rdoff rr + rdlen rr \<le> length (mwire m)"
      "it' = it\<lparr>ioff := rnext rr, iremain := n\<rparr>" using Suc.prems Suc.hyps(2) by auto
    then have it': "n = iremain it'" "iwire it' = mwire m" using Suc.prems by auto
    have rec: "records it = (rr # fst (records it'), snd (records it'))"
      using Ok x by (simp add: records.simps [of it] split_beta)
    show ?thesis
    proof (cases "rtype rr = ELPIS_T_OPT")
      case False
      then show ?thesis
        using Suc.hyps(1) [OF it' Suc.prems(2)] Ok x rec
        by (auto simp: scan_opt.simps [of m it] of_bool_def split: outcome.splits if_splits)
    next
      case True
      then have u: "scan_opt m it flags = obind (parse_opt m rr flags) (\<lambda>m'. scan_opt m' it' flags)"
        using Ok x by (simp add: scan_opt.simps [of m it])
      show ?thesis
      proof (cases "parse_opt m rr flags")
        case ok: (Ok m')
        then have m': "same_frame m m'" "\<not> have_opt m" "have_opt m'" "edns_ok m'"
          using parse_opt_ok [OF *(1,2) Suc.prems(2), of flags] by auto
        then have "iwire it' = mwire m'" using it' by (simp add: same_frame_def)
        from Suc.hyps(1) [OF it'(1) this m'(4)] show ?thesis
          using u ok rec True m'
            by (auto simp: of_bool_def split: outcome.splits if_splits intro: same_frame_trans)
      qed (use parse_opt_ok [OF *(1,2) Suc.prems(2), of flags] u in auto)
    qed
  qed (use rr_next_step [OF r] in \<open>auto simp: scan_opt.simps [of m it]\<close>)
qed

lemma scan_no_opt_ok:
  "case scan_no_opt it of
     Ok _ \<Rightarrow> filter (\<lambda>rr. rtype rr = ELPIS_T_OPT) (fst (records it)) = []
   | Err (rc, d) \<Rightarrow> rc = ELPIS_EFORMAT | Fault \<Rightarrow> False"
proof (induction "iremain it" arbitrary: it)
  case 0
  then have "elpis_rr_next it = Err (ELPIS_ENOTFOUND, DROP_NONE)" by (simp add: elpis_rr_next_def)
  then show ?case by (simp add: scan_no_opt.simps [of it] records.simps [of it])
next
  case (Suc n)
  then have r: "iremain it \<noteq> 0" by simp
  show ?case
  proof (cases "elpis_rr_next it")
    case (Ok x)
    then obtain rr it' where x: "x = (rr, it')" by (cases x)
    with rr_next_step [OF r] Ok have "n = iremain it'" using Suc.hyps(2) by auto
    moreover have "records it = (rr # fst (records it'), snd (records it'))"
      using Ok x by (simp add: records.simps [of it] split_beta)
    ultimately show ?thesis
      using Suc.hyps(1) [of it'] Ok x by (auto simp: scan_no_opt.simps [of it] split: outcome.splits)
  qed (use rr_next_step [OF r] in \<open>auto simp: scan_no_opt.simps [of it] records.simps [of it]\<close>)
qed

subsection \<open>The whole message\<close>

lemma walk_section_ok:
  "off \<le> length w \<Longrightarrow>
   case walk_section w off n of Ok e \<Rightarrow> off \<le> e \<and> e \<le> length w | Err (rc, d) \<Rightarrow> rc = ELPIS_EFORMAT | Fault \<Rightarrow> False"
proof (induction n arbitrary: off)
  case (Suc n)
  show ?case
  proof (cases "skip_rr w off")
    case (Ok e)
    with skip_rr_ok [of off w] have "off \<le> e" "e \<le> length w" by auto
    with Suc.IH [of e] Ok show ?thesis by (auto split: outcome.splits)
  qed (use skip_rr_ok [of off w] in auto)
qed simp

lemma walk_sections_ok:
  "off \<le> length w \<Longrightarrow>
   case walk_sections w off cs of
     Ok (offs, e) \<Rightarrow> length offs = length cs \<and> off \<le> e \<and> e \<le> length w \<and> sorted (off # offs @ [e]) \<and> (offs @ [e]) ! 0 = off \<and>
       (\<forall>i. i < length cs \<longrightarrow> walk_section w (offs ! i) (cs ! i) = Ok ((offs @ [e]) ! Suc i))
   | Err (rc, d) \<Rightarrow> rc = ELPIS_EFORMAT | Fault \<Rightarrow> False"
proof (induction cs arbitrary: off)
  case (Cons c cs)
  show ?case
  proof (cases "walk_section w off c")
    case (Ok off')
    with walk_section_ok [OF Cons.prems, of c] have o: "off \<le> off'" "off' \<le> length w" by auto
    show ?thesis
    proof (cases "walk_sections w off' cs")
      case ok: (Ok x)
      obtain offs e where x: "x = (offs, e)" by (cases x)
      from Cons.IH [OF o(2)] ok x have *: "length offs = length cs" "off' \<le> e" "e \<le> length w" "sorted (off' # offs @ [e])"
        "(offs @ [e]) ! 0 = off'" "\<And>i. i < length cs \<Longrightarrow> walk_section w (offs ! i) (cs ! i) = Ok ((offs @ [e]) ! Suc i)"
        by auto
      have "walk_section w ((off # offs) ! i) ((c # cs) ! i) = Ok ((off # offs @ [e]) ! Suc i)"
        if "i < length (c # cs)" for i using that * Ok by (cases i) auto
      with * Ok ok x o show ?thesis by auto
    next
      case (Err y)
      with Cons.IH [OF o(2)] Ok show ?thesis by (cases y) simp
    next
      case Fault
      with Cons.IH [OF o(2)] show ?thesis by simp
    qed
  qed (use walk_section_ok [OF Cons.prems, of c] in auto)
qed simp

lemma hdr_parse_ok: "12 \<le> length w \<Longrightarrow> \<exists>h. elpis_hdr_parse w = Ok h"
  by (simp add: elpis_hdr_parse_def get16_ok)

lemma msg_question_ok:
  "12 \<le> length (mwire m) \<Longrightarrow>
   case msg_question m of
     Ok m' \<Rightarrow> mwire m' = mwire m \<and> mhdr m' = mhdr m \<and> 12 \<le> qend m' \<and> qend m' \<le> length (mwire m) \<and>
       have_opt m' = have_opt m \<and> edns_ok m' = edns_ok m \<and> edns_bufsize m' = edns_bufsize m \<and>
       (qdcount (mhdr m) = 1 \<longrightarrow> wf_name (qname m') \<and> elpis_name_parse (mwire m) 12 = Ok (qname m', qend m' - 4))
   | Err (rc, d) \<Rightarrow> rc = ELPIS_EFORMAT | Fault \<Rightarrow> False"
proof (cases "elpis_name_parse (mwire m) 12")
  case (Ok x)
  assume l: "12 \<le> length (mwire m)"
  obtain n e where x: "x = (n, e)" by (cases x)
  then have "wf_name n" "12 < e" using Ok name_parse_Ok by auto
  then show ?thesis using Ok x l by (auto simp: msg_question_def get16_ok edns_ok_def)
next
  case (Err x)
  assume l: "12 \<le> length (mwire m)"
  show ?thesis using Err l name_parse_errors(2) [OF Err] by (cases x) (auto simp: msg_question_def edns_ok_def)
next
  case Fault
  then show ?thesis using name_parse_errors(1) by simp
qed

text \<open>What an accepted message satisfies.\<close>

definition msg_ok :: "elpis_msg \<Rightarrow> bool" where
  "msg_ok m \<longleftrightarrow>
     12 \<le> qend m \<and> sorted (qend m # sec_off m @ [length (mwire m)]) \<and>
     length (sec_off m) = 3 \<and> sec_off m ! 0 = qend m \<and>
     sec_cnt m = [unat (ancount (mhdr m)), unat (nscount (mhdr m)), unat (arcount (mhdr m))] \<and>
     (\<forall>s. s < 3 \<longrightarrow> walk_section (mwire m) (sec_off m ! s) (sec_cnt m ! s) = Ok ((sec_off m @ [length (mwire m)]) ! Suc s)) \<and>
     edns_ok m \<and> 512 \<le> edns_bufsize m \<and>
     iremain (snd (records (elpis_rr_iter m 2))) = 0 \<and>
     of_bool (have_opt m) = length (filter (\<lambda>rr. rtype rr = ELPIS_T_OPT) (fst (records (elpis_rr_iter m 2)))) \<and>
     (qdcount (mhdr m) = 1 \<longrightarrow> wf_name (qname m))"

lemma rr_iter_cong: "same_frame m m' \<Longrightarrow> elpis_rr_iter m' s = elpis_rr_iter m s"
  by (simp add: elpis_rr_iter_def same_frame_def)

lemma msg_sections_ok:
  assumes "qend m \<le> length (mwire m)" and "12 \<le> qend m" and "edns_ok m" and "\<not> have_opt m"
    and "edns_bufsize m = 512"
    and "sec_cnt m = [unat (ancount (mhdr m)), unat (nscount (mhdr m)), unat (arcount (mhdr m))]"
    and "qdcount (mhdr m) = 1 \<longrightarrow> wf_name (qname m)"
  shows "case msg_sections m flags of Ok m' \<Rightarrow> mwire m' = mwire m \<and> mhdr m' = mhdr m \<and> qname m' = qname m \<and> msg_ok m'
    | Err (rc, d) \<Rightarrow> rc = ELPIS_EFORMAT | Fault \<Rightarrow> False"
proof (cases "walk_sections (mwire m) (qend m) (sec_cnt m)")
  case (Ok x)
  obtain offs e where x: "x = (offs, e)" by (cases x)
  have "length (sec_cnt m) = 3" by (simp add: assms(6))
  with walk_sections_ok [OF assms(1), of "sec_cnt m"] Ok x
  have wk: "length offs = 3" "sorted (qend m # offs @ [e])" "(offs @ [e]) ! 0 = qend m"
    "\<And>i. i < 3 \<Longrightarrow> walk_section (mwire m) (offs ! i) (sec_cnt m ! i) = Ok ((offs @ [e]) ! Suc i)"
    by auto
  then have o0: "offs ! 0 = qend m" by (simp add: nth_append)
  define m3 where "m3 = m\<lparr>sec_off := offs\<rparr>"
  have m3: "iwire (elpis_rr_iter m3 2) = mwire m3" "edns_ok m3" "\<not> have_opt m3" "edns_bufsize m3 = 512"
    using assms by (auto simp: m3_def elpis_rr_iter_def edns_ok_def)
  show ?thesis
  proof (cases "e = length (mwire m)")
    case False
    then show ?thesis using Ok x by (simp add: msg_sections_def)
  next
    case True
    have u: "msg_sections m flags = obind (scan_opt m3 (elpis_rr_iter m3 2) flags) (\<lambda>m4.
         obind (scan_no_opt (elpis_rr_iter m4 0)) (\<lambda>_. obind (scan_no_opt (elpis_rr_iter m4 1)) (\<lambda>_.
           Ok (if have_opt m4 \<and> edns_bufsize m4 < 512 then m4\<lparr>edns_bufsize := 512\<rparr> else m4))))"
      using Ok x True by (simp add: msg_sections_def m3_def Let_def)
    show ?thesis
    proof (cases "scan_opt m3 (elpis_rr_iter m3 2) flags")
      case s: (Ok m4)
      from scan_opt_ok [OF m3(1,2), of flags] s
      have m4: "same_frame m3 m4" "edns_ok m4" "iremain (snd (records (elpis_rr_iter m3 2))) = 0"
        "of_bool (have_opt m4) = length (filter (\<lambda>rr. rtype rr = ELPIS_T_OPT) (fst (records (elpis_rr_iter m3 2))))"
        "have_opt m4 \<or> m4 = m3"
        using m3(3) by auto
      have it: "elpis_rr_iter m4 2 = elpis_rr_iter m3 2" using m4(1) by (rule rr_iter_cong)
      have f: "mwire m4 = mwire m" "mhdr m4 = mhdr m" "qname m4 = qname m" "qend m4 = qend m" "sec_off m4 = offs"
        "sec_cnt m4 = sec_cnt m" using m4(1) by (auto simp: same_frame_def m3_def)
      define m5 where "m5 = (if have_opt m4 \<and> edns_bufsize m4 < 512 then m4\<lparr>edns_bufsize := 512\<rparr> else m4)"
      have b: "512 \<le> edns_bufsize m5"
        using m4(5) m3(4) by (auto simp: m5_def not_less)
      have f5: "mwire m5 = mwire m" "mhdr m5 = mhdr m" "qname m5 = qname m" "qend m5 = qend m" "sec_off m5 = offs"
        "sec_cnt m5 = sec_cnt m" "have_opt m5 = have_opt m4" "edns_ok m5"
        using f m4(2) by (auto simp: m5_def edns_ok_def)
      have it5: "elpis_rr_iter m5 2 = elpis_rr_iter m3 2" using it by (auto simp: m5_def elpis_rr_iter_def)
      have "msg_ok m5"
        unfolding msg_ok_def it5 f5 using wk o0 m4(3,4) f5(8) b assms(2,6,7) True by auto
      then show ?thesis
        unfolding u s obind_simps m5_def [symmetric]
        using scan_no_opt_ok [of "elpis_rr_iter m4 0"] scan_no_opt_ok [of "elpis_rr_iter m4 1"] f5
        by (cases "scan_no_opt (elpis_rr_iter m4 0)"; cases "scan_no_opt (elpis_rr_iter m4 1)") auto
    qed (use scan_opt_ok [OF m3(1,2), of flags] u in auto)
  qed
qed (use walk_sections_ok [OF assms(1), of "sec_cnt m"] in \<open>auto simp: msg_sections_def\<close>)

lemma msg_parse_ok:
  assumes "flags AND ELPIS_PARSE_NO_WALK = 0"
  shows "case elpis_msg_parse w flags of Ok m \<Rightarrow> mwire m = w \<and> msg_ok m
    | Err (rc, d) \<Rightarrow> rc = ELPIS_EFORMAT | Fault \<Rightarrow> False"
proof (cases "length w < 12")
  case True
  then show ?thesis by (simp add: elpis_msg_parse_def elpis_hdr_parse_def)
next
  case False
  then obtain h where h: "elpis_hdr_parse w = Ok h" using hdr_parse_ok by fastforce
  let ?r = "hflags h AND 0x8000 \<noteq> 0"
  define m0 where "m0 = (msg_zero w)\<lparr>mhdr := h\<rparr>"
  have m0: "mwire m0 = w" "mhdr m0 = h" "edns_ok m0" "\<not> have_opt m0" "edns_bufsize m0 = 512"
    by (simp_all add: m0_def msg_zero_def edns_ok_def)
  show ?thesis
  proof (cases "?r \<and> flags AND ELPIS_PARSE_RESPONSE = 0 \<or> \<not> ?r \<and> flags AND ELPIS_PARSE_QUERY = 0")
    case True
    then show ?thesis by (auto simp: elpis_msg_parse_def h Let_def)
  next
    case qr: False
    let ?c = "[unat (ancount h), unat (nscount h), unat (arcount h)]"
    have u: "elpis_msg_parse w flags = obind (msg_question m0) (\<lambda>m1. msg_sections (m1\<lparr>sec_cnt := ?c\<rparr>) flags)"
      using qr assms by (auto simp: elpis_msg_parse_def h Let_def m0_def)
    note q = msg_question_ok [of m0] False m0
    show ?thesis
    proof (cases "msg_question m0")
      case (Ok m1)
      then have m1: "mwire m1 = w" "mhdr m1 = h" "12 \<le> qend m1" "qend m1 \<le> length w" "\<not> have_opt m1" "edns_ok m1"
        "edns_bufsize m1 = 512" "qdcount h = 1 \<longrightarrow> wf_name (qname m1)" using q by auto
      then show ?thesis
        using msg_sections_ok [of "m1\<lparr>sec_cnt := ?c\<rparr>" flags]
        unfolding u Ok obind_simps by (auto simp: edns_ok_def split: outcome.splits)
    qed (use q u in auto)
  qed
qed

section \<open>Properties\<close>


text \<open>A query for the root, class IN, type A, with an empty OPT record.\<close>

definition sample_query :: buffer where
  "sample_query = [0x12, 0x34, 1, 0, 0, 1, 0, 0, 0, 0, 0, 1, 0, 0, 1, 0, 1,
     0, 0, 41, 4, 0xD0, 0, 0, 0x80, 0, 0, 0]"


text \<open>
  A reply with two answer records: the owner of the first is a pointer to octet 0, where no name
  stands, and the second is an OPT record.
\<close>

definition hidden_opt :: buffer where
  "hidden_opt = [0x40, 0, 0x80, 0, 0, 0, 0, 2, 0, 0, 0, 0,
     0xC0, 0, 0, 1, 0, 1, 0, 0, 0, 0, 0, 0,
     0, 0, 41, 2, 0, 0, 0, 0, 0, 0, 0]"


end
