(* ===== verification/Elpis_Build.thy ===== *)
theory Elpis_Build
  imports Elpis_Msg "HOL-Library.Sublist"
begin

unbundle bit_operations_syntax

text \<open>
  Construction of DNS messages, the second half of \<open>src/dns/msg.c\<close>: the builder with its
  compression table, TTL offsets, counts, marks and rollback.

  The output buffer is a list of \<open>cap\<close> octets of which the first \<open>blen\<close> are written.  The
  compression table and the TTL arrays are the lists of their used entries.  An operation returns
  the builder it leaves and its return code, so that a failed write is a state too.
\<close>

section \<open>Definitions\<close>

record elpis_bld =
  bbuf :: buffer
  blen :: nat
  bcompress :: bool
  boverflow :: bool
  btrack_ttl :: bool
  bcounts :: "u16 list"
  bttl :: "(nat \<times> u32) list"
  bttl_cap :: nat
  bctab :: "(nat \<times> elpis_name) list"

record elpis_bld_mark =
  mk_len :: nat
  mk_counts :: "u16 list"
  mk_nctab :: nat
  mk_nttl :: nat

type_synonym built = "elpis_bld \<times> elpis_rc"

abbreviation ELPIS_BLD_CTAB :: nat where "ELPIS_BLD_CTAB \<equiv> 64"

text \<open>\<open>ctab\<close> absent is the second argument false.\<close>

definition elpis_bld_init :: "buffer \<Rightarrow> bool \<Rightarrow> bool \<Rightarrow> elpis_bld" where
  "elpis_bld_init buf ctab compress =
     \<lparr>bbuf = buf, blen = 0, bcompress = (compress \<and> ctab), boverflow = False, btrack_ttl = False,
      bcounts = [0, 0, 0, 0], bttl = [], bttl_cap = 0, bctab = []\<rparr>"

definition elpis_bld_track_ttl :: "elpis_bld \<Rightarrow> bool \<Rightarrow> nat \<Rightarrow> elpis_bld" where
  "elpis_bld_track_ttl b arrays cap =
     b\<lparr>bttl := [], bttl_cap := cap, btrack_ttl := (arrays \<and> 0 < cap)\<rparr>"

definition elpis_bld_mark :: "elpis_bld \<Rightarrow> elpis_bld_mark" where
  "elpis_bld_mark b =
     \<lparr>mk_len = blen b, mk_counts = bcounts b, mk_nctab = length (bctab b), mk_nttl = length (bttl b)\<rparr>"

definition elpis_bld_rollback :: "elpis_bld \<Rightarrow> elpis_bld_mark \<Rightarrow> elpis_bld" where
  "elpis_bld_rollback b m =
     b\<lparr>blen := mk_len m, bctab := take (mk_nctab m) (bctab b), bttl := take (mk_nttl m) (bttl b),
       bcounts := mk_counts m, boverflow := False\<rparr>"

definition elpis_bld_bytes :: "elpis_bld \<Rightarrow> buffer \<Rightarrow> built" where
  "elpis_bld_bytes b p =
     (if length (bbuf b) < blen b + length p then (b\<lparr>boverflow := True\<rparr>, ELPIS_ETRUNC)
      else (b\<lparr>bbuf := overwrite (bbuf b) (blen b) p, blen := blen b + length p\<rparr>, ELPIS_OK))"

definition elpis_bld_u16 :: "elpis_bld \<Rightarrow> u16 \<Rightarrow> built" where
  "elpis_bld_u16 b v =
     (if length (bbuf b) < blen b + 2 then (b\<lparr>boverflow := True\<rparr>, ELPIS_ETRUNC)
      else (b\<lparr>bbuf := overwrite (bbuf b) (blen b) (elpis_put16 v), blen := blen b + 2\<rparr>, ELPIS_OK))"

definition elpis_bld_u32 :: "elpis_bld \<Rightarrow> u32 \<Rightarrow> built" where
  "elpis_bld_u32 b v =
     (if length (bbuf b) < blen b + 4 then (b\<lparr>boverflow := True\<rparr>, ELPIS_ETRUNC)
      else (b\<lparr>bbuf := overwrite (bbuf b) (blen b) (elpis_put32 v), blen := blen b + 4\<rparr>, ELPIS_OK))"

text \<open>\<open>if (f(b) != ELPIS_OK) return ELPIS_ETRUNC;\<close>\<close>

definition bthen :: "built \<Rightarrow> (elpis_bld \<Rightarrow> built) \<Rightarrow> built" where
  "bthen r f = (if snd r = ELPIS_OK then f (fst r) else (fst r, ELPIS_ETRUNC))"

definition elpis_bld_header :: "elpis_bld \<Rightarrow> u16 \<Rightarrow> u16 \<Rightarrow> built" where
  "elpis_bld_header b ident flags =
     elpis_bld_bytes (b\<lparr>blen := 0, bcounts := [0, 0, 0, 0]\<rparr>)
       (elpis_put16 ident @ elpis_put16 flags @ [0, 0, 0, 0, 0, 0, 0, 0])"

definition elpis_bld_name_raw :: "elpis_bld \<Rightarrow> elpis_name \<Rightarrow> built" where
  "elpis_bld_name_raw b n = elpis_bld_bytes b (take (nlen n) (nd n))"

function ctab_add_loop :: "elpis_bld \<Rightarrow> elpis_name \<Rightarrow> nat \<Rightarrow> elpis_bld" where
  "ctab_add_loop b cur off =
     (if 1 < nlen cur then
        (if ELPIS_BLD_CTAB \<le> length (bctab b) then b
         else if 0x4000 \<le> off then b
         else let b' = b\<lparr>bctab := bctab b @ [(off, cur)]\<rparr> in
           (case elpis_name_parent cur of None \<Rightarrow> b'
            | Some p \<Rightarrow> ctab_add_loop b' p (off + 1 + unat (dget cur 0))))
      else b)"
  by pat_completeness auto
termination
  by (relation "measure (\<lambda>(b, cur, off). nlen cur)") (auto dest: parent_shorter)

definition ctab_add :: "elpis_bld \<Rightarrow> elpis_name \<Rightarrow> nat \<Rightarrow> elpis_bld" where
  "ctab_add b n off = (if \<not> bcompress b then b else ctab_add_loop b n off)"

fun ctab_find :: "(nat \<times> elpis_name) list \<Rightarrow> elpis_name \<Rightarrow> nat option" where
  "ctab_find [] n = None"
| "ctab_find ((off, m) # rest) n =
     (if nlen m = nlen n \<and> elpis_eq_ci (nd m) (nd n) (nlen n) then Some off else ctab_find rest n)"

text \<open>The suffixes of a name, longest first, until one is in the table.\<close>

function find_suffix :: "(nat \<times> elpis_name) list \<Rightarrow> elpis_name \<Rightarrow> (elpis_name \<times> nat) option" where
  "find_suffix tab sfx =
     (if nlen sfx \<le> 1 then None
      else (case ctab_find tab sfx of Some target \<Rightarrow> Some (sfx, target)
            | None \<Rightarrow>
              (case elpis_name_parent sfx of None \<Rightarrow> None | Some p \<Rightarrow> find_suffix tab p)))"
  by pat_completeness auto
termination
  by (relation "measure (\<lambda>(tab, sfx). nlen sfx)") (auto dest: parent_shorter)

text \<open>Registering the literal labels in front of a pointer.\<close>

function register_prefix :: "elpis_bld \<Rightarrow> elpis_name \<Rightarrow> nat \<Rightarrow> nat \<Rightarrow> elpis_bld" where
  "register_prefix b pre off slen =
     (if slen < nlen pre then
        (if ELPIS_BLD_CTAB \<le> length (bctab b) \<or> 0x4000 \<le> off then b
         else let b' = b\<lparr>bctab := bctab b @ [(off, pre)]\<rparr> in
           (case elpis_name_parent pre of None \<Rightarrow> b'
            | Some p \<Rightarrow> register_prefix b' p (off + 1 + unat (dget pre 0)) slen))
      else b)"
  by pat_completeness auto
termination
  by (relation "measure (\<lambda>(b, pre, off, slen). nlen pre)") (auto dest: parent_shorter)

declare ctab_add_loop.simps [simp del] find_suffix.simps [simp del] register_prefix.simps [simp del]

definition pointer_bytes :: "nat \<Rightarrow> buffer" where
  "pointer_bytes target =
     (let t = word_of_nat target :: u16 in [0xC0 OR ucast (drop_bit 8 t), ucast (t AND 0xFF)])"

definition elpis_bld_name :: "elpis_bld \<Rightarrow> elpis_name \<Rightarrow> built" where
  "elpis_bld_name b n =
     (if \<not> bcompress b then elpis_bld_name_raw b n
      else (case find_suffix (bctab b) n of
              Some (sfx, target) \<Rightarrow>
                let lit = nlen n - nlen sfx in
                if length (bbuf b) < blen b + lit + 2
                then (b\<lparr>boverflow := True\<rparr>, ELPIS_ETRUNC)
                else
                  let b' = b\<lparr>bbuf := overwrite (bbuf b) (blen b) (take lit (nd n) @ pointer_bytes target),
                             blen := blen b + lit + 2\<rparr>
                  in (if 0 < lit then register_prefix b' n (blen b) (nlen sfx) else b', ELPIS_OK)
            | None \<Rightarrow>
                bthen (elpis_bld_name_raw b n) (\<lambda>b'. (ctab_add b' n (blen b), ELPIS_OK))))"

definition count_bump :: "elpis_bld \<Rightarrow> elpis_bld" where
  "count_bump b = b\<lparr>bcounts := (bcounts b) [0 := bcounts b ! 0 + 1]\<rparr>"

definition elpis_bld_question :: "elpis_bld \<Rightarrow> elpis_name \<Rightarrow> u16 \<Rightarrow> u16 \<Rightarrow> built" where
  "elpis_bld_question b n type klass =
     bthen (elpis_bld_name_raw b n) (\<lambda>b1. bthen (elpis_bld_u16 b1 type) (\<lambda>b2.
       bthen (elpis_bld_u16 b2 klass) (\<lambda>b3. (count_bump (ctab_add b3 n (blen b)), ELPIS_OK))))"

definition elpis_bld_question_raw :: "elpis_bld \<Rightarrow> buffer \<Rightarrow> u16 \<Rightarrow> u16 \<Rightarrow> built" where
  "elpis_bld_question_raw b q type klass =
     (if length q = 0 \<or> ELPIS_MAX_NAME < length q then (b, ELPIS_EFORMAT)
      else bthen (elpis_bld_bytes b q) (\<lambda>b1. bthen (elpis_bld_u16 b1 type) (\<lambda>b2.
        bthen (elpis_bld_u16 b2 klass) (\<lambda>b3.
          (count_bump
             (if bcompress b3 then
                (case elpis_name_parse_nocomp q of
                   Ok (n, used) \<Rightarrow> if used = length q then ctab_add b3 n (blen b) else b3
                 | _ \<Rightarrow> b3)
              else b3), ELPIS_OK)))))"

definition note_ttl :: "elpis_bld \<Rightarrow> u32 \<Rightarrow> elpis_bld" where
  "note_ttl b ttl =
     (if btrack_ttl b \<and> length (bttl b) < bttl_cap b then b\<lparr>bttl := bttl b @ [(blen b, ttl)]\<rparr> else b)"

text \<open>The result is the builder, the code and where the length field stands.\<close>

definition elpis_bld_rr_begin :: "elpis_bld \<Rightarrow> elpis_name \<Rightarrow> u16 \<Rightarrow> u16 \<Rightarrow> u32 \<Rightarrow> built \<times> nat" where
  "elpis_bld_rr_begin b owner type klass ttl =
     (let r = bthen (elpis_bld_name b owner) (\<lambda>b1. bthen (elpis_bld_u16 b1 type) (\<lambda>b2.
                bthen (elpis_bld_u16 b2 klass) (\<lambda>b3. elpis_bld_u32 (note_ttl b3 ttl) ttl)))
      in if snd r \<noteq> ELPIS_OK then ((fst r, ELPIS_ETRUNC), 0)
         else (bthen (elpis_bld_u16 (fst r) 0) (\<lambda>b5. (b5, ELPIS_OK)), blen (fst r)))"

definition elpis_bld_rr_end :: "elpis_bld \<Rightarrow> nat \<Rightarrow> built" where
  "elpis_bld_rr_end b rdlen_pos =
     (if boverflow b then (b, ELPIS_ETRUNC)
      else if blen b < rdlen_pos + 2 then (b, ELPIS_ERR)
      else let rdl = blen b - (rdlen_pos + 2) in
        if 0xFFFF < rdl then (b, ELPIS_ETRUNC)
        else (b\<lparr>bbuf := overwrite (bbuf b) rdlen_pos (elpis_put16 (word_of_nat rdl))\<rparr>, ELPIS_OK))"

definition elpis_bld_count :: "elpis_bld \<Rightarrow> nat \<Rightarrow> int \<Rightarrow> built" where
  "elpis_bld_count b s delta =
     (let idx = s + 1 in
      if 3 < idx then (b, ELPIS_ERR)
      else let v = int (unat (bcounts b ! idx)) + delta in
        if v < 0 \<or> 0xFFFF < v then (b, ELPIS_ERR)
        else (b\<lparr>bcounts := (bcounts b) [idx := word_of_int v]\<rparr>, ELPIS_OK))"

definition elpis_bld_finish :: "elpis_bld \<Rightarrow> elpis_bld" where
  "elpis_bld_finish b =
     (if blen b < 12 then b
      else b\<lparr>bbuf := overwrite (bbuf b) 4 (elpis_put16 (bcounts b ! 0) @ elpis_put16 (bcounts b ! 1) @
               elpis_put16 (bcounts b ! 2) @ elpis_put16 (bcounts b ! 3))\<rparr>)"

section \<open>Names that stay readable\<close>

text \<open>
  \<open>decodes\<close> with the set \<open>S\<close> of the octets it reads: writing anywhere else keeps the name.
\<close>

inductive decodes_in :: "buffer \<Rightarrow> nat set \<Rightarrow> nat \<Rightarrow> nat \<Rightarrow> label list \<Rightarrow> nat \<Rightarrow> nat \<Rightarrow> bool" for w S where
  root: "off < length w \<Longrightarrow> off \<in> S \<Longrightarrow> w ! off = 0 \<Longrightarrow> decodes_in w S off limit [] 0 (off + 1)"
| pointer: "off + 1 < length w \<Longrightarrow> off \<in> S \<Longrightarrow> off + 1 \<in> S \<Longrightarrow> 192 \<le> unat (w ! off) \<Longrightarrow>
    pointer_target w off < limit \<Longrightarrow>
    decodes_in w S (pointer_target w off) (pointer_target w off) ls k e \<Longrightarrow>
    decodes_in w S off limit ls (Suc k) (off + 2)"
| label: "0 < unat (w ! off) \<Longrightarrow> unat (w ! off) < 64 \<Longrightarrow> off + 1 + unat (w ! off) \<le> length w \<Longrightarrow>
    {off..<off + 1 + unat (w ! off)} \<subseteq> S \<Longrightarrow>
    decodes_in w S (off + 1 + unat (w ! off)) limit ls k e \<Longrightarrow>
    decodes_in w S off limit (take (unat (w ! off)) (drop (off + 1) w) # ls) k e"

lemma decodes_in_decodes: "decodes_in w S off limit ls k e \<Longrightarrow> decodes w off limit ls k e"
  by (induction rule: decodes_in.induct) (rule decodes.intros; assumption)+

lemma decodes_in_mono: "decodes_in w S off limit ls k e \<Longrightarrow> S \<subseteq> T \<Longrightarrow> decodes_in w T off limit ls k e"
proof (induction rule: decodes_in.induct)
  case (label off limit ls k e)
  then show ?case by (intro decodes_in.label) (assumption | rule subset_trans)+
qed (rule decodes_in.intros; blast)+

lemma decodes_in_agree:
  assumes "decodes_in w S off limit ls k e" and agree: "\<And>i. i \<in> S \<Longrightarrow> i < length w \<Longrightarrow> i < length w' \<and> w' ! i = w ! i"
  shows "decodes_in w' S off limit ls k e"
  using assms(1)
proof (induction rule: decodes_in.induct)
  case (root off limit)
  with agree show ?case by (intro decodes_in.root) auto
next
  case (pointer off limit ls k e)
  have a: "w' ! off = w ! off" "w' ! (off + 1) = w ! (off + 1)" "off + 1 < length w'"
    using agree [of off] agree [of "off + 1"] pointer.hyps by auto
  then have "pointer_target w' off = pointer_target w off" by (simp add: pointer_target_def)
  then show ?case
    using decodes_in.pointer [of off w' S limit ls k e] pointer.hyps pointer.IH a by simp
next
  case (label off limit ls k e)
  let ?c = "unat (w ! off)"
  have i: "j < length w' \<and> w' ! j = w ! j" if "off \<le> j" "j < off + 1 + ?c" for j
    using that label.hyps(3,4) by (intro agree) auto
  then have a: "w' ! off = w ! off" by simp
  have l: "off + 1 + ?c \<le> length w'" using i [of "off + ?c"] by simp
  have "take ?c (drop (off + 1) w') = take ?c (drop (off + 1) w)"
    using l label.hyps(3) i by (intro nth_equalityI) auto
  then show ?case
    using decodes_in.label [of w' off S limit ls k e] label.hyps label.IH a l by simp
qed

lemma decodes_in_limit: "decodes_in w S off limit ls k e \<Longrightarrow> limit \<le> limit' \<Longrightarrow> decodes_in w S off limit' ls k e"
proof (induction rule: decodes_in.induct)
  case (root off limit)
  then show ?case by (intro decodes_in.root)
next
  case (pointer off limit ls k e)
  then show ?case by (intro decodes_in.pointer) auto
next
  case (label off limit ls k e)
  then show ?case by (intro decodes_in.label) auto
qed

text \<open>Literal labels in front of a name.\<close>

lemma decodes_in_prefix:
  "valid_labels xs \<Longrightarrow> take (length (wire_prefix xs)) (drop off w) = wire_prefix xs \<Longrightarrow>
   off + length (wire_prefix xs) \<le> length w \<Longrightarrow> {off..<off + length (wire_prefix xs)} \<subseteq> S \<Longrightarrow>
   decodes_in w S (off + length (wire_prefix xs)) limit ys k e \<Longrightarrow>
   decodes_in w S off limit (xs @ ys) k e"
proof (induction xs arbitrary: off)
  case Nil
  then show ?case by simp
next
  case (Cons l xs)
  let ?n = "length (wire_prefix xs)"
  have v: "1 \<le> length l" "length l \<le> 63" "valid_labels xs" using Cons.prems(1) by auto
  have eq: "take (1 + length l + ?n) (drop off w) = word_of_nat (length l) # l @ wire_prefix xs"
    using Cons.prems(2) by (simp add: wire_label_def)
  have c: "w ! off = word_of_nat (length l)"
    using arg_cong [OF eq, of "\<lambda>x. x ! 0"] Cons.prems(3) by simp
  then have u: "unat (w ! off) = length l" using v by (simp add: label_byte)
  have "drop 1 (take (1 + length l + ?n) (drop off w)) = l @ wire_prefix xs" by (simp only: eq) simp
  then have d: "take (length l + ?n) (drop (off + 1) w) = l @ wire_prefix xs"
    by (simp add: drop_take add.commute)
  have "take (length l) (take (length l + ?n) (drop (off + 1) w)) = l" by (simp only: d) simp
  then have l: "take (length l) (drop (off + 1) w) = l" by (simp add: min_def)
  have "drop (length l) (take (length l + ?n) (drop (off + 1) w)) = wire_prefix xs" by (simp only: d) simp
  then have r: "take ?n (drop (off + 1 + length l) w) = wire_prefix xs"
    by (simp add: drop_take add.commute add.left_commute)
  have len: "off + 1 + length l + ?n \<le> length w" "{off..<off + 1 + length l + ?n} \<subseteq> S" using Cons.prems(3,4) by auto
  have "decodes_in w S (off + 1 + length l) limit (xs @ ys) k e"
    using Cons.prems(5) len v r by (intro Cons.IH) (auto simp: add.assoc)
  moreover have "{off..<off + 1 + length l} \<subseteq> S" using len(2) by (rule subset_trans [rotated]) simp
  moreover have "l \<noteq> []" using v by auto
  ultimately show ?case
    using decodes_in.label [of w off S limit "xs @ ys" k e] v len unfolding u l by simp
qed

section \<open>The builder's invariant\<close>

definition wrote :: "elpis_bld \<Rightarrow> buffer" where
  "wrote b = take (blen b) (bbuf b)"

text \<open>
  A table entry names, up to case, what stands at its offset; the pointers on the way are fewer
  than its labels.
\<close>

definition entry_ok :: "buffer \<Rightarrow> nat set \<Rightarrow> nat \<times> elpis_name \<Rightarrow> bool" where
  "entry_ok w S en \<longleftrightarrow>
     (\<exists>ls ms k e. snd en = name_of ls \<and> ok_labels ls \<and> ls \<noteq> [] \<and> fold_labels ms = fold_labels ls \<and>
        decodes_in w S (fst en) (fst en) ms k e \<and> k < length ls \<and> fst en < 0x4000)"

text \<open>\<open>S\<close> holds the octets of names: never the header, never a length field.\<close>

definition bld_ok :: "nat set \<Rightarrow> elpis_bld \<Rightarrow> bool" where
  "bld_ok S b \<longleftrightarrow> blen b \<le> length (bbuf b) \<and> length (bcounts b) = 4 \<and> S \<subseteq> {12..<blen b} \<and>
     length (bctab b) \<le> ELPIS_BLD_CTAB \<and> list_all (entry_ok (wrote b) S) (bctab b)"

definition bframe :: "elpis_bld \<Rightarrow> elpis_bld \<Rightarrow> bool" where
  "bframe b b' \<longleftrightarrow> length (bbuf b') = length (bbuf b) \<and> bcompress b' = bcompress b \<and> boverflow b' = boverflow b \<and>
     btrack_ttl b' = btrack_ttl b \<and> bcounts b' = bcounts b \<and> bttl b' = bttl b \<and> bttl_cap b' = bttl_cap b"

lemma bframe_refl [simp]: "bframe b b"
  by (simp add: bframe_def)

lemma bframe_trans: "bframe a b \<Longrightarrow> bframe b c \<Longrightarrow> bframe a c"
  by (simp add: bframe_def)

lemma length_wrote: "blen b \<le> length (bbuf b) \<Longrightarrow> length (wrote b) = blen b"
  by (simp add: wrote_def)

lemma entry_ok_agree:
  assumes "entry_ok w S en" and "\<And>i. i \<in> S \<Longrightarrow> i < length w \<Longrightarrow> i < length w' \<and> w' ! i = w ! i" and "S \<subseteq> T"
  shows "entry_ok w' T en"
  using assms unfolding entry_ok_def by (meson decodes_in_agree decodes_in_mono)

lemma entries_append:
  "list_all (entry_ok w S) es \<Longrightarrow> S \<subseteq> T \<Longrightarrow> list_all (entry_ok (w @ p) T) es"
  by (erule list.pred_mono_strong, erule entry_ok_agree) (auto simp: nth_append)

lemma bld_ok_append:
  assumes "bld_ok S b" and "wrote b' = wrote b @ p" and "blen b' = blen b + length p" and "bframe b b'"
    and "bctab b' = bctab b" and "blen b' \<le> length (bbuf b)" and "S \<subseteq> T" and "T \<subseteq> S \<union> {blen b..<blen b'}" and "12 \<le> blen b"
  shows "bld_ok T b'"
proof -
  have "T \<subseteq> {12..<blen b'}"
    using assms(1,3,8,9) by (force simp: bld_ok_def)
  then show ?thesis
    using assms entries_append [of "wrote b" S "bctab b" T p] by (auto simp: bld_ok_def bframe_def)
qed

lemma bytes_Ok:
  assumes "blen b \<le> length (bbuf b)" and "elpis_bld_bytes b p = (b', ELPIS_OK)"
  shows "wrote b' = wrote b @ p \<and> blen b' = blen b + length p \<and> bframe b b' \<and> bctab b' = bctab b \<and>
    blen b' \<le> length (bbuf b)"
  using assms
  by (auto simp: elpis_bld_bytes_def wrote_def bframe_def split: if_splits)

lemma bytes_fail: "elpis_bld_bytes b p = (b', rc) \<Longrightarrow> rc \<noteq> ELPIS_OK \<Longrightarrow> rc = ELPIS_ETRUNC \<and> b' = b\<lparr>boverflow := True\<rparr>"
  by (auto simp: elpis_bld_bytes_def split: if_splits)

lemma u16_bytes: "elpis_bld_u16 b v = elpis_bld_bytes b (elpis_put16 v)"
  by (simp add: elpis_bld_u16_def elpis_bld_bytes_def)

lemma u32_bytes: "elpis_bld_u32 b v = elpis_bld_bytes b (elpis_put32 v)"
  by (simp add: elpis_bld_u32_def elpis_bld_bytes_def)

lemma decodes_in_wire:
  assumes "valid_labels ls" and "take (length (wire ls)) (drop off w) = wire ls" and "off + length (wire ls) \<le> length w"
    and "{off..<off + length (wire ls)} \<subseteq> S"
  shows "decodes_in w S off limit ls 0 (off + length (wire ls))"
proof -
  let ?n = "length (wire_prefix ls)"
  have "take ?n (take (length (wire ls)) (drop off w)) = wire_prefix ls" by (simp only: assms(2)) (simp add: wire_def)
  then have 1: "take ?n (drop off w) = wire_prefix ls" by (simp add: length_wire min_def)
  have "take (length (wire ls)) (drop off w) ! ?n = 0" by (simp only: assms(2)) (simp add: wire_def nth_append)
  then have 2: "w ! (off + ?n) = 0" using assms(3) by (simp add: length_wire)
  have "decodes_in w S (off + ?n) limit [] 0 (off + ?n + 1)"
    using 2 assms(3,4) by (intro decodes_in.root) (auto simp: length_wire)
  then have "decodes_in w S off limit (ls @ []) 0 (off + ?n + 1)"
    using assms 1 by (intro decodes_in_prefix) (auto simp: length_wire)
  then show ?thesis by (simp add: length_wire)
qed

lemma ctab_add_loop_ok:
  "bld_ok S b \<Longrightarrow> ok_labels ls \<Longrightarrow> take (length (wire ls)) (drop off (wrote b)) = wire ls \<Longrightarrow>
   off + length (wire ls) \<le> blen b \<Longrightarrow> {off..<off + length (wire ls)} \<subseteq> S \<Longrightarrow>
   bld_ok S (ctab_add_loop b (name_of ls) off) \<and> bframe b (ctab_add_loop b (name_of ls) off) \<and>
   wrote (ctab_add_loop b (name_of ls) off) = wrote b \<and> blen (ctab_add_loop b (name_of ls) off) = blen b"
proof (induction ls arbitrary: b off)
  case Nil
  then show ?case by (simp add: ctab_add_loop.simps)
next
  case (Cons l ls)
  let ?b = "b\<lparr>bctab := bctab b @ [(off, name_of (l # ls))]\<rparr>"
  show ?case
  proof (cases "ELPIS_BLD_CTAB \<le> length (bctab b) \<or> 0x4000 \<le> off")
    case True
    then show ?thesis using Cons.prems(1) by (subst (1 2 3 4) ctab_add_loop.simps) auto
  next
    case False
    have len: "length (wrote b) = blen b" using Cons.prems(1) by (auto simp: bld_ok_def intro: length_wrote)
    have v: "valid_labels (l # ls)" "1 \<le> length l" "length l \<le> 63" "ok_labels ls"
      using Cons.prems(2) by (auto simp: ok_labels_def)
    have dec: "decodes_in (wrote b) S off off (l # ls) 0 (off + length (wire (l # ls)))"
      using Cons.prems(3-5) v(1) len by (intro decodes_in_wire) simp_all
    then have "entry_ok (wrote b) S (off, name_of (l # ls))"
      using Cons.prems(2) False unfolding entry_ok_def by auto
    then have ok: "bld_ok S ?b" using Cons.prems(1) False by (auto simp: bld_ok_def wrote_def)
    have d: "unat (dget (name_of (l # ls)) 0) = length l"
      using dget_boundary_Cons [of "[]" l ls] v by (simp add: label_byte)
    have "drop (1 + length l) (take (length (wire (l # ls))) (drop off (wrote b))) = wire ls"
      by (simp only: Cons.prems(3)) (simp add: wire_label_def)
    then have w: "take (length (wire ls)) (drop (off + 1 + length l) (wrote b)) = wire ls"
      by (simp add: drop_take add.commute add.left_commute)
    have e: "ctab_add_loop b (name_of (l # ls)) off = ctab_add_loop ?b (name_of ls) (off + 1 + length l)"
      using False Cons.prems(2) d by (subst ctab_add_loop.simps) (simp add: name_parent_of length_wire Let_def)
    have "{off + 1 + length l..<off + 1 + length l + length (wire ls)} \<subseteq> S"
      using Cons.prems(5) by (rule subset_trans [rotated]) (auto simp: wire_label_def)
    then show ?thesis
      using Cons.IH [OF ok v(4), of "off + 1 + length l"] w Cons.prems(4) unfolding e
      by (auto simp: wrote_def bframe_def)
  qed
qed

section \<open>Compressed names\<close>

lemma or_C0: "unat x < 64 \<Longrightarrow> unat (0xC0 OR x :: byte) = 192 + unat x"
proof -
  assume "unat x < 64"
  then have "take_bit 6 (unat x) = unat x" by (simp add: take_bit_eq_mod)
  then have "x = take_bit 6 x" by (simp only: word_unat_eq_iff unsigned_take_bit_eq)
  then have z: "\<not> bit x n" if "6 \<le> n" for n using that by (metis bit_take_bit_iff not_le)
  have "0xC0 OR x = 0xC0 + x"
  proof (rule disjunctive_add [symmetric])
    fix n
    show "\<not> bit (0xC0 :: byte) n \<or> \<not> bit x n"
    proof (cases "6 \<le> n")
      case False
      then have "n \<in> {0, 1, 2, 3, 4, 5}" by auto
      then show ?thesis by auto
    qed (use z in simp)
  qed
  then show ?thesis using \<open>unat x < 64\<close> by (simp add: unat_word_ariths)
qed

lemma pointer_bytes_unat:
  assumes "t < 0x4000"
  obtains b0 b1 where "pointer_bytes t = [b0, b1]" and "unat b0 = 192 + t div 256" and "unat b1 = t mod 256"
proof -
  let ?t = "word_of_nat t :: u16"
  have t: "unat ?t = t" using assms by (simp add: unat_of_nat)
  have h: "unat (ucast (drop_bit 8 ?t) :: byte) = t div 256"
  proof -
    have "unat (drop_bit 8 ?t) = t div 256" by (simp only: unat_drop_bit_eq t) (simp add: drop_bit_eq_div)
    then show ?thesis using assms by (simp add: unsigned_ucast_eq take_bit_eq_mod)
  qed
  then have 0: "unat (0xC0 OR ucast (drop_bit 8 ?t) :: byte) = 192 + t div 256"
    using assms by (subst or_C0) auto
  have m: "?t AND 0xFF = take_bit 8 ?t" by (simp add: take_bit_eq_mask mask_eq_exp_minus_1)
  have 1: "unat (ucast (?t AND 0xFF) :: byte) = t mod 256"
    unfolding m by (simp only: unsigned_ucast_eq unsigned_take_bit_eq t) (simp add: take_bit_eq_mod)
  show ?thesis by (rule that [OF _ 0 1]) (simp add: pointer_bytes_def Let_def)
qed

lemma find_suffix_of:
  "ok_labels ls \<Longrightarrow> find_suffix tab (name_of ls) = Some (sfx, t) \<Longrightarrow>
   \<exists>xs ys. ls = xs @ ys \<and> sfx = name_of ys \<and> ys \<noteq> [] \<and> ctab_find tab (name_of ys) = Some t"
proof (induction ls)
  case Nil
  then show ?case by (simp add: find_suffix.simps)
next
  case (Cons l ls)
  show ?case
  proof (cases "ctab_find tab (name_of (l # ls))")
    case None
    then have "find_suffix tab (name_of ls) = Some (sfx, t)"
      using Cons.prems by (subst (asm) find_suffix.simps) (simp add: name_parent_of length_wire)
    from Cons.IH [OF ok_labels_Cons [OF Cons.prems(1)] this] show ?thesis by (metis append_Cons)
  next
    case (Some t')
    then have "sfx = name_of (l # ls)" "t' = t"
      using Cons.prems by (auto simp: find_suffix.simps [of tab "name_of (l # ls)"] length_wire split: if_splits)
    with Some show ?thesis by (metis append_Nil list.distinct(1))
  qed
qed

lemma ctab_find_ok:
  "list_all (entry_ok w S) tab \<Longrightarrow> ok_labels ys \<Longrightarrow> ctab_find tab (name_of ys) = Some t \<Longrightarrow>
   t < 0x4000 \<and> (\<exists>ms k e. fold_labels ms = fold_labels ys \<and> decodes_in w S t t ms k e \<and> k < length ys)"
proof (induction tab)
  case (Cons en tab)
  obtain off m where en: "en = (off, m)" by (cases en)
  show ?case
  proof (cases "nlen m = nlen (name_of ys) \<and> elpis_eq_ci (nd m) (wire ys) (length (wire ys))")
    case True
    then have t: "off = t" using Cons.prems(3) en by simp
    from Cons.prems(1) en obtain ls ms k e where e: "m = name_of ls" "ok_labels ls" "fold_labels ms = fold_labels ls"
      "decodes_in w S off off ms k e" "k < length ls" "off < 0x4000" by (auto simp: entry_ok_def)
    have "elpis_name_eq (name_of ls) (name_of ys)" using True e(1) by (simp add: elpis_name_eq_def)
    then have f: "fold_labels ls = fold_labels ys" using name_eq_of [OF e(2) Cons.prems(2)] by simp
    then have "length ls = length ys" by (metis fold_labels_simps(4))
    with e f t show ?thesis by auto
  next
    case False
    then show ?thesis using Cons en by auto
  qed
qed simp

lemma pointer_decodes:
  assumes "pos + 2 \<le> length w" and "take 2 (drop pos w) = pointer_bytes t" and "t < 0x4000" and "t < limit"
    and "decodes_in w S t t ms k e" and "pos \<in> S" and "pos + 1 \<in> S"
  shows "decodes_in w S pos limit ms (Suc k) (pos + 2)"
proof -
  obtain b0 b1 where b: "pointer_bytes t = [b0, b1]" "unat b0 = 192 + t div 256" "unat b1 = t mod 256"
    using pointer_bytes_unat [OF assms(3)] .
  have "w ! pos = b0" "w ! (pos + 1) = b1"
    using nth_take_drop [OF assms(2), of 0] nth_take_drop [OF assms(2), of 1] assms(1) b(1) by simp_all
  then have "pointer_target w pos = t" "192 \<le> unat (w ! pos)" using b by (simp_all add: pointer_target_def)
  then show ?thesis using assms by (intro decodes_in.pointer) auto
qed

lemma entry_okI:
  "decodes_in w S off off ms k e \<Longrightarrow> ok_labels ls \<Longrightarrow> ls \<noteq> [] \<Longrightarrow> fold_labels ms = fold_labels ls \<Longrightarrow>
   k < length ls \<Longrightarrow> off < 0x4000 \<Longrightarrow> entry_ok w S (off, name_of ls)"
  unfolding entry_ok_def by (metis fst_conv snd_conv)

lemma register_prefix_ok:
  assumes "bld_ok S b" and "ok_labels (xs @ ys)" and "ys \<noteq> []"
    and "take (length (wire_prefix xs)) (drop off (wrote b)) = wire_prefix xs"
    and "off + length (wire_prefix xs) \<le> blen b" and "{off..<off + length (wire_prefix xs)} \<subseteq> S"
    and "decodes_in (wrote b) S (off + length (wire_prefix xs)) off ms k e" and "fold_labels ms = fold_labels ys"
    and "k \<le> length ys"
  shows "bld_ok S (register_prefix b (name_of (xs @ ys)) off (length (wire ys))) \<and>
    bframe b (register_prefix b (name_of (xs @ ys)) off (length (wire ys))) \<and>
    wrote (register_prefix b (name_of (xs @ ys)) off (length (wire ys))) = wrote b \<and>
    blen (register_prefix b (name_of (xs @ ys)) off (length (wire ys))) = blen b"
  using assms
proof (induction xs arbitrary: b off)
  case Nil
  then show ?case by (simp add: register_prefix.simps)
next
  case (Cons l xs)
  let ?n = "name_of (l # xs @ ys)"
  let ?b = "b\<lparr>bctab := bctab b @ [(off, ?n)]\<rparr>"
  have lt: "length (wire ys) < nlen ?n" by (simp add: wire_append)
  show ?case
  proof (cases "ELPIS_BLD_CTAB \<le> length (bctab b) \<or> 0x4000 \<le> off")
    case True
    then show ?thesis using Cons.prems(1) lt by (subst (1 2 3 4) register_prefix.simps) auto
  next
    case False
    have len: "length (wrote b) = blen b" using Cons.prems(1) by (auto simp: bld_ok_def intro: length_wrote)
    have v: "valid_labels (l # xs)" "1 \<le> length l" "length l \<le> 63" "ok_labels (xs @ ys)"
      using Cons.prems(2) by (auto simp: ok_labels_def)
    have "decodes_in (wrote b) S off off ((l # xs) @ ms) k e"
      using Cons.prems(4-7) v(1) len by (intro decodes_in_prefix) simp_all
    then have "entry_ok (wrote b) S (off, ?n)"
      using Cons.prems(2,8,9) False by (intro entry_okI [of _ _ _ "(l # xs) @ ms" k e]) simp_all
    then have ok: "bld_ok S ?b" using Cons.prems(1) False by (auto simp: bld_ok_def wrote_def)
    have d: "unat (dget ?n 0) = length l"
      using dget_boundary_Cons [of "[]" l "xs @ ys"] v by (simp add: label_byte)
    have "drop (1 + length l) (take (length (wire_prefix (l # xs))) (drop off (wrote b))) = wire_prefix xs"
      by (simp only: Cons.prems(4)) (simp add: wire_label_def)
    then have w: "take (length (wire_prefix xs)) (drop (off + 1 + length l) (wrote b)) = wire_prefix xs"
      by (simp add: drop_take add.commute add.left_commute)
    have e: "register_prefix b (name_of ((l # xs) @ ys)) off (length (wire ys)) =
        register_prefix ?b (name_of (xs @ ys)) (off + 1 + length l) (length (wire ys))"
      using False Cons.prems(2) d lt by (subst register_prefix.simps) (simp add: name_parent_of Let_def)
    have s: "{off + 1 + length l..<off + 1 + length l + length (wire_prefix xs)} \<subseteq> S"
      using Cons.prems(6) by (rule subset_trans [rotated]) (auto simp: wire_label_def)
    have dec: "decodes_in (wrote b) S (off + 1 + length l + length (wire_prefix xs)) (off + 1 + length l) ms k e"
      using decodes_in_limit [OF Cons.prems(7), of "off + 1 + length l"] by (simp add: add.assoc)
    have wb: "wrote ?b = wrote b" "blen ?b = blen b" "bframe b ?b" by (simp_all add: wrote_def bframe_def)
    have le: "off + 1 + length l + length (wire_prefix xs) \<le> blen b" using Cons.prems(5) by simp
    note IH = Cons.IH [OF ok v(4) Cons.prems(3), of "off + 1 + length l", unfolded wb, OF w le s dec Cons.prems(8,9)]
    show ?thesis
      unfolding e using IH bframe_trans [OF wb(3)] by (simp add: wb)
  qed
qed

text \<open>
  What writing a name does: it appends octets that decode to the name up to case, and the
  builder's invariant holds with those octets among the names.
\<close>

definition name_written :: "nat set \<Rightarrow> elpis_bld \<Rightarrow> label list \<Rightarrow> elpis_bld \<Rightarrow> bool" where
  "name_written S b ls b' \<longleftrightarrow>
     (\<exists>p ms k. wrote b' = wrote b @ p \<and> blen b' = blen b + length p \<and> bframe b b' \<and>
        bld_ok (S \<union> {blen b..<blen b'}) b' \<and> fold_labels ms = fold_labels ls \<and> k \<le> 128 \<and>
        decodes_in (wrote b') (S \<union> {blen b..<blen b'}) (blen b) (blen b) ms k (blen b'))"

lemma raw_written:
  assumes "bld_ok S b" and "ok_labels ls" and "12 \<le> blen b" and "elpis_bld_name_raw b (name_of ls) = (b', ELPIS_OK)"
  shows "wrote b' = wrote b @ wire ls \<and> blen b' = blen b + length (wire ls) \<and> bframe b b' \<and> bctab b' = bctab b \<and>
    bld_ok (S \<union> {blen b..<blen b'}) b' \<and>
    take (length (wire ls)) (drop (blen b) (wrote b')) = wire ls"
proof -
  have l: "blen b \<le> length (bbuf b)" using assms(1) by (simp add: bld_ok_def)
  have b': "wrote b' = wrote b @ wire ls" "blen b' = blen b + length (wire ls)" "bframe b b'" "bctab b' = bctab b"
    "blen b' \<le> length (bbuf b)"
    using bytes_Ok [OF l, of "wire ls" b'] assms(4) by (simp_all add: elpis_bld_name_raw_def)
  have "bld_ok (S \<union> {blen b..<blen b'}) b'"
    using bld_ok_append [OF assms(1) b', of "S \<union> {blen b..<blen b'}"] assms(3) by simp
  with b' length_wrote [OF l] show ?thesis by simp
qed

lemma ctab_add_ok:
  assumes "bld_ok S b" and "ok_labels ls" and "take (length (wire ls)) (drop off (wrote b)) = wire ls"
    and "off + length (wire ls) \<le> blen b" and "{off..<off + length (wire ls)} \<subseteq> S"
  shows "bld_ok S (ctab_add b (name_of ls) off) \<and> bframe b (ctab_add b (name_of ls) off) \<and>
    wrote (ctab_add b (name_of ls) off) = wrote b \<and> blen (ctab_add b (name_of ls) off) = blen b"
  using ctab_add_loop_ok [OF assms] assms(1) by (simp add: ctab_add_def)

lemma raw_decodes:
  assumes "bld_ok S b" and "ok_labels ls" and "12 \<le> blen b" and "elpis_bld_name_raw b (name_of ls) = (b', ELPIS_OK)"
  shows "decodes_in (wrote b') (S \<union> {blen b..<blen b'}) (blen b) limit ls 0 (blen b')"
proof -
  note r = raw_written [OF assms]
  then have "blen b' \<le> length (bbuf b')" by (simp add: bld_ok_def)
  then have "length (wrote b') = blen b'" by (rule length_wrote)
  with r assms(2) show ?thesis
    using decodes_in_wire [of ls "blen b" "wrote b'" "S \<union> {blen b..<blen b'}" limit] by (auto simp: ok_labels_valid)
qed

lemma bld_name_miss:
  assumes "bld_ok S b" and "ok_labels ls" and "12 \<le> blen b" and "find_suffix (bctab b) (name_of ls) = None \<or> \<not> bcompress b"
    and "elpis_bld_name b (name_of ls) = (b', ELPIS_OK)"
  shows "name_written S b ls b'"
proof -
  obtain b1 where b1: "elpis_bld_name_raw b (name_of ls) = (b1, ELPIS_OK)"
    "b' = (if bcompress b then ctab_add b1 (name_of ls) (blen b) else b1)"
    using assms(4,5) by (auto simp: elpis_bld_name_def bthen_def split: if_splits) (metis prod.collapse)
  note r = raw_written [OF assms(1-3) b1(1)] and d = raw_decodes [OF assms(1-3) b1(1), of "blen b"]
  have "bld_ok (S \<union> {blen b..<blen b1}) b' \<and> bframe b1 b' \<and> wrote b' = wrote b1 \<and> blen b' = blen b1"
    using ctab_add_ok [of "S \<union> {blen b..<blen b1}" b1 ls "blen b"] r assms(2) b1(2) by auto
  then show ?thesis
    unfolding name_written_def using r d
    by (intro exI [of _ "wire ls"] exI [of _ ls] exI [of _ 0]) (auto intro: bframe_trans)
qed

lemma bld_name_hit:
  assumes ok: "bld_ok S b" and ls: "ok_labels ls" and l12: "12 \<le> blen b" and c: "bcompress b"
    and f: "find_suffix (bctab b) (name_of ls) = Some (sfx, t)" and e: "elpis_bld_name b (name_of ls) = (b', ELPIS_OK)"
  shows "name_written S b ls b'"
proof -
  obtain xs ys where x: "ls = xs @ ys" "sfx = name_of ys" "ys \<noteq> []" "ctab_find (bctab b) (name_of ys) = Some t"
    using find_suffix_of [OF ls f] by blast
  have oky: "ok_labels ys" using ls x(1) ok_labels_append by blast
  have lb: "blen b \<le> length (bbuf b)" and tab: "list_all (entry_ok (wrote b) S) (bctab b)"
    using ok by (auto simp: bld_ok_def)
  obtain ms k ee where t: "t < 0x4000" "fold_labels ms = fold_labels ys" "decodes_in (wrote b) S t t ms k ee" "k < length ys"
    using ctab_find_ok [OF tab oky x(4)] by blast
  let ?lit = "nlen (name_of ls) - nlen sfx" and ?p = "wire_prefix xs @ pointer_bytes t"
  have lit: "?lit = length (wire_prefix xs)" "take ?lit (nd (name_of ls)) = wire_prefix xs" by (simp_all add: x wire_append)
  have pl: "length (pointer_bytes t) = 2" by (simp add: pointer_bytes_def Let_def)
  define b1 where "b1 = b\<lparr>bbuf := overwrite (bbuf b) (blen b) ?p, blen := blen b + ?lit + 2\<rparr>"
  have fit: "blen b + length ?p \<le> length (bbuf b)" and b': "b' = (if 0 < ?lit then register_prefix b1 (name_of ls) (blen b) (nlen sfx) else b1)"
    using e c f lit pl by (auto simp: elpis_bld_name_def b1_def Let_def split: if_splits)
  have b1: "wrote b1 = wrote b @ ?p" "blen b1 = blen b + length ?p" "bframe b b1" "bctab b1 = bctab b" "blen b1 \<le> length (bbuf b)"
    using fit lit pl take_overwrite [of "blen b" ?p "bbuf b"]
    by (simp_all add: b1_def wrote_def bframe_def add.assoc)
  let ?S = "S \<union> {blen b..<blen b1}"
  have ok1: "bld_ok ?S b1" using bld_ok_append [OF ok b1, of ?S] l12 by simp
  have lw: "length (wrote b) = blen b" "length (wrote b1) = blen b1"
    using lb ok1 by (auto simp: bld_ok_def intro: length_wrote)
  have dt: "decodes_in (wrote b1) ?S t t ms k ee"
    by (rule decodes_in_agree [OF decodes_in_mono [OF t(3)]]) (auto simp: b1(1) nth_append lw)
  have tlt: "t < blen b" using decodes_end [OF decodes_in_decodes [OF t(3)]] lw by simp
  have ptr: "decodes_in (wrote b1) ?S (blen b + length (wire_prefix xs)) (blen b) ms (Suc k) (blen b1)"
    using pointer_decodes [of "blen b + length (wire_prefix xs)" "wrote b1" t "blen b" ?S ms k ee] dt t(1) tlt b1 lw pl
    by (simp add: add.assoc)
  have pre: "take (length (wire_prefix xs)) (drop (blen b) (wrote b1)) = wire_prefix xs" by (simp add: b1(1) lw)
  have v: "valid_labels xs" using ls x(1) by (auto simp: ok_labels_def)
  have "decodes_in (wrote b1) ?S (blen b) (blen b) (xs @ ms) (Suc k) (blen b1)"
  proof -
    have "{blen b..<blen b + length (wire_prefix xs)} \<subseteq> ?S" using b1(2) by auto
    moreover have "blen b + length (wire_prefix xs) \<le> length (wrote b1)" using b1(2) lw by simp
    ultimately show ?thesis using decodes_in_prefix [OF v pre _ _ ptr] by blast
  qed
  moreover have "bld_ok ?S b' \<and> bframe b1 b' \<and> wrote b' = wrote b1 \<and> blen b' = blen b1"
  proof -
    have "{blen b..<blen b + length (wire_prefix xs)} \<subseteq> ?S" using b1(2) by auto
    then show ?thesis
      using register_prefix_ok [OF ok1 _ x(3) pre _ _ ptr t(2)] ls x(1,2) b1(2) t(4) ok1 unfolding b' by simp
  qed
  moreover have "Suc k \<le> 128" using t(4) ok_labels_count [OF oky] by simp
  ultimately show ?thesis
    unfolding name_written_def using b1 t(2) x(1)
    by (intro exI [of _ ?p] exI [of _ "xs @ ms"] exI [of _ "Suc k"]) (auto intro: bframe_trans)
qed

lemma bld_name_ok:
  assumes "bld_ok S b" and "ok_labels ls" and "12 \<le> blen b" and "elpis_bld_name b (name_of ls) = (b', ELPIS_OK)"
  shows "name_written S b ls b'"
proof (cases "bcompress b \<and> find_suffix (bctab b) (name_of ls) \<noteq> None")
  case True
  then show ?thesis using bld_name_hit [OF assms(1-3) _ _ assms(4)] by auto
next
  case False
  then show ?thesis by (intro bld_name_miss [OF assms(1-3) _ assms(4)]) auto
qed

lemma bld_name_fail:
  "elpis_bld_name b n = (b', rc) \<Longrightarrow> rc \<noteq> ELPIS_OK \<Longrightarrow> rc = ELPIS_ETRUNC \<and> b' = b\<lparr>boverflow := True\<rparr>"
  by (auto simp: elpis_bld_name_def elpis_bld_name_raw_def elpis_bld_bytes_def bthen_def Let_def
      split: if_splits option.splits prod.splits)

section \<open>Records\<close>

record rr_spec =
  so :: "label list"
  sty :: u16
  skl :: u16
  sttl :: u32
  sdata :: buffer

definition rr_fixed :: "rr_spec \<Rightarrow> buffer" where
  "rr_fixed r = elpis_put16 (sty r) @ elpis_put16 (skl r) @ elpis_put32 (sttl r) @
     elpis_put16 (word_of_nat (length (sdata r))) @ sdata r"

text \<open>The record \<open>r\<close> stands at \<open>off\<close> and ends at \<open>e\<close>; its owner is spelled by octets from 12 on.\<close>

definition rr_at :: "buffer \<Rightarrow> nat \<Rightarrow> rr_spec \<Rightarrow> nat \<Rightarrow> bool" where
  "rr_at w off r e \<longleftrightarrow>
     (\<exists>ms k p. decodes_in w {12..<p} off off ms k p \<and> k \<le> 128 \<and> ok_labels (so r) \<and> fold_labels ms = fold_labels (so r) \<and>
        p + length (rr_fixed r) = e \<and> e \<le> length w \<and> take (length (rr_fixed r)) (drop p w) = rr_fixed r \<and>
        length (sdata r) < 65536 \<and> 12 \<le> off)"

text \<open>What the iterator must return for it.\<close>

definition rr_matches :: "buffer \<Rightarrow> rr_spec \<Rightarrow> elpis_rr \<Rightarrow> bool" where
  "rr_matches w r rr \<longleftrightarrow> elpis_name_eq (rname rr) (name_of (so r)) \<and> rtype rr = sty r \<and> rklass rr = skl r \<and>
     rttl rr = sttl r \<and> take (rdlen rr) (drop (rdoff rr) w) = sdata r"

lemma rr_atI:
  "decodes_in w {12..<p} off off ms k p \<Longrightarrow> k \<le> 128 \<Longrightarrow> ok_labels (so r) \<Longrightarrow> fold_labels ms = fold_labels (so r) \<Longrightarrow>
   p + length (rr_fixed r) = e \<Longrightarrow> e \<le> length w \<Longrightarrow> take (length (rr_fixed r)) (drop p w) = rr_fixed r \<Longrightarrow>
   length (sdata r) < 65536 \<Longrightarrow> 12 \<le> off \<Longrightarrow> rr_at w off r e"
  unfolding rr_at_def by blast

lemma length_rr_fixed: "length (rr_fixed r) = 10 + length (sdata r)"
  by (simp add: rr_fixed_def)

lemma rr_at_agree:
  assumes "rr_at w off r e" and "length w \<le> length w'" and "\<And>i. 12 \<le> i \<Longrightarrow> i < length w \<Longrightarrow> w' ! i = w ! i"
  shows "rr_at w' off r e"
proof -
  from assms(1) obtain ms k p where *: "decodes_in w {12..<p} off off ms k p" "k \<le> 128" "ok_labels (so r)"
    "fold_labels ms = fold_labels (so r)" "p + length (rr_fixed r) = e" "e \<le> length w"
    "take (length (rr_fixed r)) (drop p w) = rr_fixed r" "length (sdata r) < 65536" "12 \<le> off" by (auto simp: rr_at_def)
  have "off < p" using decodes_end [OF decodes_in_decodes [OF *(1)]] by simp
  then have "take (length (rr_fixed r)) (drop p w') = take (length (rr_fixed r)) (drop p w)"
    using *(5,6,9) assms(2,3) by (intro nth_equalityI) auto
  moreover have "decodes_in w' {12..<p} off off ms k p"
    using assms(2,3) *(5,6) by (intro decodes_in_agree [OF *(1)]) auto
  ultimately show ?thesis using *(2-9) assms(2) by (intro rr_atI [of w' p off ms k]) auto
qed

lemma take_drop_mid: "take n (drop i w) = a @ b @ c \<Longrightarrow> length a + length b \<le> n \<Longrightarrow>
    take (length b) (drop (i + length a) w) = b"
proof -
  assume t: "take n (drop i w) = a @ b @ c" and "length a + length b \<le> n"
  have "take (length b) (drop (length a) (take n (drop i w))) = b" by (simp only: t) simp
  then show ?thesis using \<open>length a + length b \<le> n\<close> by (simp add: drop_take min_def add.commute split: if_splits)
qed

lemma rr_at_fields:
  assumes "p + length (rr_fixed r) \<le> length w" and t: "take (length (rr_fixed r)) (drop p w) = rr_fixed r"
    and "length (sdata r) < 65536"
  shows "elpis_get16 w p = Ok (sty r)" and "elpis_get16 w (p + 2) = Ok (skl r)"
    and "elpis_get32 w (p + 4) = Ok (sttl r)" and "elpis_get16 w (p + 8) = Ok (word_of_nat (length (sdata r)))"
    and "take (length (sdata r)) (drop (p + 10) w) = sdata r"
    and "unat (word_of_nat (length (sdata r)) :: u16) = length (sdata r)"
proof -
  note l = length_rr_fixed [of r] and u = t [unfolded rr_fixed_def]
  show "elpis_get16 w p = Ok (sty r)"
    using take_drop_mid [of "length (rr_fixed r)" p w "[]" "elpis_put16 (sty r)"] t l assms(1)
    by (intro get16_put16) (auto simp: rr_fixed_def)
  show "elpis_get16 w (p + 2) = Ok (skl r)"
    using take_drop_mid [of "length (rr_fixed r)" p w "elpis_put16 (sty r)" "elpis_put16 (skl r)"] t l assms(1)
    by (intro get16_put16) (auto simp: rr_fixed_def)
  show "elpis_get32 w (p + 4) = Ok (sttl r)"
    using take_drop_mid [of "length (rr_fixed r)" p w "elpis_put16 (sty r) @ elpis_put16 (skl r)" "elpis_put32 (sttl r)"] t l assms(1)
    by (intro get32_put32) (auto simp: rr_fixed_def)
  show "elpis_get16 w (p + 8) = Ok (word_of_nat (length (sdata r)))"
    using take_drop_mid [of "length (rr_fixed r)" p w "elpis_put16 (sty r) @ elpis_put16 (skl r) @ elpis_put32 (sttl r)"
        "elpis_put16 (word_of_nat (length (sdata r)))"] t l assms(1)
    by (intro get16_put16) (auto simp: rr_fixed_def)
  show "take (length (sdata r)) (drop (p + 10) w) = sdata r"
    using take_drop_mid [of "length (rr_fixed r)" p w "elpis_put16 (sty r) @ elpis_put16 (skl r) @ elpis_put32 (sttl r) @
        elpis_put16 (word_of_nat (length (sdata r)))" "sdata r" "[]"] t l assms(1)
    by (auto simp: rr_fixed_def)
  show "unat (word_of_nat (length (sdata r)) :: u16) = length (sdata r)"
    using assms(3) by (simp add: unat_of_nat)
qed

lemma rr_at_next:
  assumes "rr_at w off r e"
  shows "\<exists>rr. elpis_rr_next \<lparr>iwire = w, ioff = off, iremain = Suc n\<rparr> = Ok (rr, \<lparr>iwire = w, ioff = e, iremain = n\<rparr>) \<and>
    rr_matches w r rr"
proof -
  from assms obtain ms k p where *: "decodes_in w {12..<p} off off ms k p" "k \<le> 128" "ok_labels (so r)"
    "fold_labels ms = fold_labels (so r)" "p + length (rr_fixed r) = e" "e \<le> length w"
    "take (length (rr_fixed r)) (drop p w) = rr_fixed r" "length (sdata r) < 65536" by (auto simp: rr_at_def)
  have ok: "ok_labels ms" using *(3,4) by (metis ok_fold_labels)
  have "elpis_name_parse w off = Ok (name_of ms, p)"
    using parse_iff [of w off "name_of ms" p] decodes_in_decodes [OF *(1)] *(2) ok by blast
  moreover have "elpis_name_eq (name_of ms) (name_of (so r))" using name_eq_of [OF ok *(3)] *(4) by simp
  moreover have "p + length (rr_fixed r) \<le> length w" using *(5,6) by simp
  note f = rr_at_fields [OF this *(7,8)]
  ultimately show ?thesis
    using *(5,6) length_rr_fixed [of r] f(5)
    by (intro exI [of _ "\<lparr>rname = name_of ms, rtype = sty r, rklass = skl r, rttl = sttl r, rdlen = length (sdata r),
          rdoff = p + 10, rroff = off, rnext = e\<rparr>"]) (simp add: elpis_rr_next_def rr_matches_def f)
qed

fun rrs_at :: "buffer \<Rightarrow> nat \<Rightarrow> rr_spec list \<Rightarrow> nat \<Rightarrow> bool" where
  "rrs_at w off [] e \<longleftrightarrow> off = e"
| "rrs_at w off (r # rs) e \<longleftrightarrow> (\<exists>m. rr_at w off r m \<and> rrs_at w m rs e)"

lemma rrs_at_agree:
  "rrs_at w off rs e \<Longrightarrow> length w \<le> length w' \<Longrightarrow> (\<And>i. 12 \<le> i \<Longrightarrow> i < length w \<Longrightarrow> w' ! i = w ! i) \<Longrightarrow> rrs_at w' off rs e"
  by (induction rs arbitrary: off) (auto intro: rr_at_agree)

lemma rrs_at_append: "rrs_at w off rs m \<Longrightarrow> rr_at w m r e \<Longrightarrow> rrs_at w off (rs @ [r]) e"
  by (induction rs arbitrary: off) auto

lemma rrs_at_records:
  "rrs_at w off rs e \<Longrightarrow>
   \<exists>rrs. records \<lparr>iwire = w, ioff = off, iremain = length rs\<rparr> = (rrs, \<lparr>iwire = w, ioff = e, iremain = 0\<rparr>) \<and>
     list_all2 (rr_matches w) rs rrs \<and> walk_section w off (length rs) = Ok e"
proof (induction rs arbitrary: off)
  case Nil
  then show ?case by (simp add: records.simps elpis_rr_next_def)
next
  case (Cons r rs)
  then obtain m where m: "rr_at w off r m" "rrs_at w m rs e" by auto
  obtain rr where rr: "elpis_rr_next \<lparr>iwire = w, ioff = off, iremain = Suc (length rs)\<rparr> =
      Ok (rr, \<lparr>iwire = w, ioff = m, iremain = length rs\<rparr>)" "rr_matches w r rr" using rr_at_next [OF m(1)] by blast
  have "skip_rr w off = Ok m"
    using rr_next_step [of "\<lparr>iwire = w, ioff = off, iremain = Suc (length rs)\<rparr>"] rr(1) by auto
  moreover obtain rrs where "records \<lparr>iwire = w, ioff = m, iremain = length rs\<rparr> = (rrs, \<lparr>iwire = w, ioff = e, iremain = 0\<rparr>)"
    "list_all2 (rr_matches w) rs rrs" "walk_section w m (length rs) = Ok e" using Cons.IH [OF m(2)] by blast
  ultimately show ?case using rr
    by (intro exI [of _ "rr # rrs"]) (simp add: records.simps [of "\<lparr>iwire = w, ioff = off, iremain = Suc (length rs)\<rparr>"])
qed

section \<open>Writing records\<close>

text \<open>Octets appended and nothing else changed, apart from the TTL offsets.\<close>

definition appends :: "nat set \<Rightarrow> elpis_bld \<Rightarrow> buffer \<Rightarrow> elpis_bld \<Rightarrow> bool" where
  "appends S b p b' \<longleftrightarrow> wrote b' = wrote b @ p \<and> blen b' = blen b + length p \<and> bcounts b' = bcounts b \<and> bld_ok S b'"

lemma appends_trans: "appends S b p b' \<Longrightarrow> appends S b' q b'' \<Longrightarrow> appends S b (p @ q) b''"
  by (simp add: appends_def)

lemma appends_bytes:
  "bld_ok S b \<Longrightarrow> 12 \<le> blen b \<Longrightarrow> elpis_bld_bytes b p = (b', ELPIS_OK) \<Longrightarrow> appends S b p b'"
  using bytes_Ok [of b p b'] bld_ok_append [of S b b' p S] by (auto simp: appends_def bld_ok_def bframe_def)

lemma appends_note_ttl: "bld_ok S b \<Longrightarrow> appends S b [] (note_ttl b ttl)"
  by (simp add: appends_def bld_ok_def note_ttl_def wrote_def)

lemma bthen_OK: "bthen r f = (b', ELPIS_OK) \<longleftrightarrow> (\<exists>b. r = (b, ELPIS_OK) \<and> f b = (b', ELPIS_OK))"
  by (cases r) (auto simp: bthen_def)

lemma rr_begin_ok:
  assumes "bld_ok S b" and "12 \<le> blen b" and "ok_labels ls"
    and "elpis_bld_rr_begin b (name_of ls) ty kl ttl = ((b', ELPIS_OK), pos)"
  obtains b1 where "name_written S b ls b1" and "pos = blen b1 + 8"
    and "appends (S \<union> {blen b..<blen b1}) b1 (elpis_put16 ty @ elpis_put16 kl @ elpis_put32 ttl @ elpis_put16 0) b'"
proof -
  obtain b1 b2 b3 b4 where s: "elpis_bld_name b (name_of ls) = (b1, ELPIS_OK)"
    "elpis_bld_bytes b1 (elpis_put16 ty) = (b2, ELPIS_OK)" "elpis_bld_bytes b2 (elpis_put16 kl) = (b3, ELPIS_OK)"
    "elpis_bld_bytes (note_ttl b3 ttl) (elpis_put32 ttl) = (b4, ELPIS_OK)"
    "elpis_bld_bytes b4 (elpis_put16 0) = (b', ELPIS_OK)" "pos = blen b4"
  proof -
    define r where "r = bthen (elpis_bld_name b (name_of ls)) (\<lambda>b1. bthen (elpis_bld_u16 b1 ty) (\<lambda>b2.
      bthen (elpis_bld_u16 b2 kl) (\<lambda>b3. elpis_bld_u32 (note_ttl b3 ttl) ttl)))"
    obtain b4 where b4: "r = (b4, ELPIS_OK)" "bthen (elpis_bld_u16 b4 0) (\<lambda>b5. (b5, ELPIS_OK)) = (b', ELPIS_OK)" "pos = blen b4"
      using assms(4) unfolding elpis_bld_rr_begin_def r_def [symmetric] Let_def by (cases r) (auto split: if_splits)
    from b4(1)[unfolded r_def] b4(2,3) show ?thesis by (auto simp: bthen_OK u16_bytes u32_bytes intro: that)
  qed
  let ?S = "S \<union> {blen b..<blen b1}"
  have n: "name_written S b ls b1" by (rule bld_name_ok [OF assms(1,3,2) s(1)])
  then have 1: "bld_ok ?S b1" "12 \<le> blen b1" using assms(2) by (auto simp: name_written_def)
  have 2: "appends ?S b1 (elpis_put16 ty) b2" by (rule appends_bytes [OF 1 s(2)])
  then have 3: "appends ?S b2 (elpis_put16 kl) b3" using 1 s(3) by (intro appends_bytes) (auto simp: appends_def)
  have n3: "appends ?S b3 [] (note_ttl b3 ttl)" using 3 by (intro appends_note_ttl) (simp add: appends_def)
  then have 4: "appends ?S (note_ttl b3 ttl) (elpis_put32 ttl) b4"
    using 1 2 3 s(4) by (intro appends_bytes) (auto simp: appends_def)
  then have 5: "appends ?S b4 (elpis_put16 0) b'"
    using 1 2 3 n3 s(5) by (intro appends_bytes) (auto simp: appends_def)
  have "appends ?S b1 (elpis_put16 ty @ elpis_put16 kl @ elpis_put32 ttl @ elpis_put16 0) b'"
    using 2 3 n3 4 5 by (auto simp: appends_def)
  moreover have "pos = blen b1 + 8" using s(6) 2 3 n3 4 by (simp add: appends_def)
  ultimately show ?thesis using n that by blast
qed

text \<open>Patching octets outside \<open>S\<close> keeps the table readable.\<close>

lemma bld_ok_patch:
  assumes "bld_ok S b" and "pos + length p \<le> blen b" and "S \<inter> {pos..<pos + length p} = {}"
  shows "bld_ok S (b\<lparr>bbuf := overwrite (bbuf b) pos p\<rparr>)"
    and "wrote (b\<lparr>bbuf := overwrite (bbuf b) pos p\<rparr>) = overwrite (wrote b) pos p"
proof -
  have l: "blen b \<le> length (bbuf b)" using assms(1) by (simp add: bld_ok_def)
  show w: "wrote (b\<lparr>bbuf := overwrite (bbuf b) pos p\<rparr>) = overwrite (wrote b) pos p"
    using assms(2) l by (intro nth_equalityI) (auto simp: wrote_def overwrite_def nth_append)
  have "entry_ok (overwrite (wrote b) pos p) S en" if "entry_ok (wrote b) S en" for en
    using that
  proof (rule entry_ok_agree)
    fix i assume "i \<in> S" "i < length (wrote b)"
    then show "i < length (overwrite (wrote b) pos p) \<and> overwrite (wrote b) pos p ! i = wrote b ! i"
      using assms(2,3) l by (auto simp: overwrite_def nth_append length_wrote)
  qed simp
  then show "bld_ok S (b\<lparr>bbuf := overwrite (bbuf b) pos p\<rparr>)"
    using assms(1,2) w by (auto simp: bld_ok_def list_all_iff)
qed

lemma rr_end_ok:
  assumes "bld_ok S b" and "wrote b = u @ elpis_put16 0 @ d" and "blen b = length u + 2 + length d"
    and "S \<inter> {length u..<length u + 2} = {}" and "elpis_bld_rr_end b (length u) = (b', ELPIS_OK)"
  shows "bld_ok S b' \<and> length d < 65536 \<and> wrote b' = u @ elpis_put16 (word_of_nat (length d)) @ d \<and>
    blen b' = blen b \<and> bcounts b' = bcounts b"
proof -
  let ?p = "elpis_put16 (word_of_nat (length d))"
  have b': "b' = b\<lparr>bbuf := overwrite (bbuf b) (length u) ?p\<rparr>" and d: "length d < 65536"
    using assms(3,5) by (auto simp: elpis_bld_rr_end_def Let_def split: if_splits)
  have l: "length u + length ?p \<le> blen b" "S \<inter> {length u..<length u + length ?p} = {}" using assms(3,4) by auto
  have "overwrite (wrote b) (length u) ?p = u @ ?p @ d" by (simp add: assms(2) overwrite_def)
  then show ?thesis using bld_ok_patch [OF assms(1) l] d by (simp add: b')
qed

lemma count_ok:
  assumes "length (bcounts b) = 4" and "elpis_bld_count b s 1 = (b', ELPIS_OK)"
  shows "s < 3 \<and> b' = b\<lparr>bcounts := (bcounts b) [s + 1 := bcounts b ! (s + 1) + 1]\<rparr> \<and>
    unat (bcounts b ! (s + 1) + 1) = unat (bcounts b ! (s + 1)) + 1"
proof -
  let ?c = "bcounts b ! (s + 1)"
  have "s < 3" and c: "int (unat ?c) + 1 \<le> 65535" and b': "b' = b\<lparr>bcounts := (bcounts b) [s + 1 := word_of_int (int (unat ?c) + 1)]\<rparr>"
    using assms(2) by (auto simp: elpis_bld_count_def Let_def split: if_splits)
  from c have "unat ?c + 1 < 65536" by linarith
  moreover have "(word_of_int (int (unat ?c) + 1) :: u16) = ?c + 1" by simp
  moreover have "unat (?c + 1) = unat ?c + 1"
    using \<open>unat ?c + 1 < 65536\<close> by (simp add: unat_word_ariths)
  ultimately show ?thesis using \<open>s < 3\<close> b' by simp
qed

text \<open>One whole record, the way the answer writers compose the operations.\<close>

definition put_rr :: "nat \<Rightarrow> elpis_bld \<Rightarrow> rr_spec \<Rightarrow> built" where
  "put_rr s b r =
     (let (res, pos) = elpis_bld_rr_begin b (name_of (so r)) (sty r) (skl r) (sttl r) in
      bthen res (\<lambda>b1. bthen (elpis_bld_bytes b1 (sdata r)) (\<lambda>b2.
        bthen (elpis_bld_rr_end b2 pos) (\<lambda>b3. elpis_bld_count b3 s 1))))"

fun put_rrs :: "nat \<Rightarrow> elpis_bld \<Rightarrow> rr_spec list \<Rightarrow> built" where
  "put_rrs s b [] = (b, ELPIS_OK)"
| "put_rrs s b (r # rs) = bthen (put_rr s b r) (\<lambda>b'. put_rrs s b' rs)"

definition bumped :: "nat \<Rightarrow> nat \<Rightarrow> elpis_bld \<Rightarrow> elpis_bld \<Rightarrow> bool" where
  "bumped s n b b' \<longleftrightarrow> length (bcounts b') = length (bcounts b) \<and>
     (\<forall>i. unat (bcounts b' ! i) = unat (bcounts b ! i) + (if i = s + 1 then n else 0))"

lemma put_rr_ok:
  assumes ok: "bld_ok S b" and l: "12 \<le> blen b" and ls: "ok_labels (so r)" and e: "put_rr s b r = (b', ELPIS_OK)"
  shows "\<exists>T p. bld_ok T b' \<and> wrote b' = wrote b @ p \<and> rr_at (wrote b') (blen b) r (blen b') \<and>
    bumped s 1 b b' \<and> s < 3 \<and> blen b \<le> blen b'"
proof -
  obtain b1 b2 b3 pos where s: "elpis_bld_rr_begin b (name_of (so r)) (sty r) (skl r) (sttl r) = ((b1, ELPIS_OK), pos)"
    "elpis_bld_bytes b1 (sdata r) = (b2, ELPIS_OK)" "elpis_bld_rr_end b2 pos = (b3, ELPIS_OK)" "elpis_bld_count b3 s 1 = (b', ELPIS_OK)"
    using e by (auto simp: put_rr_def bthen_OK split: prod.splits)
  obtain b0 where b0: "name_written S b (so r) b0" "pos = blen b0 + 8"
    "appends (S \<union> {blen b..<blen b0}) b0 (elpis_put16 (sty r) @ elpis_put16 (skl r) @ elpis_put32 (sttl r) @ elpis_put16 0) b1"
    using rr_begin_ok [OF ok l ls s(1)] by blast
  let ?T = "S \<union> {blen b..<blen b0}" and ?h = "elpis_put16 (sty r) @ elpis_put16 (skl r) @ elpis_put32 (sttl r)"
  obtain p ms k where n: "wrote b0 = wrote b @ p" "blen b0 = blen b + length p" "bcounts b0 = bcounts b" "bld_ok ?T b0"
      "fold_labels ms = fold_labels (so r)" "k \<le> 128" "decodes_in (wrote b0) ?T (blen b) (blen b) ms k (blen b0)"
    using b0(1) by (auto simp: name_written_def bframe_def)
  have len0: "length (wrote b0) = blen b0" using n(4) by (simp add: bld_ok_def length_wrote)
  have "12 \<le> blen b1" using b0(3) n(2) l by (simp add: appends_def)
  then have a2: "appends ?T b1 (sdata r) b2" using b0(3) s(2) by (intro appends_bytes) (auto simp: appends_def)
  have T: "?T \<subseteq> {12..<blen b0}" using n(4) by (simp add: bld_ok_def)
  have "elpis_bld_rr_end b2 (length (wrote b0 @ ?h)) = (b3, ELPIS_OK)" using s(3) b0(2) len0 by simp
  then have r3: "bld_ok ?T b3 \<and> length (sdata r) < 65536 \<and>
      wrote b3 = (wrote b0 @ ?h) @ elpis_put16 (word_of_nat (length (sdata r))) @ sdata r \<and> blen b3 = blen b2 \<and> bcounts b3 = bcounts b2"
    using a2 b0(3) len0 T by (intro rr_end_ok) (auto simp: appends_def)
  then have w3: "wrote b3 = wrote b0 @ rr_fixed r" "blen b3 = blen b0 + length (rr_fixed r)"
    using a2 b0(3) by (auto simp: rr_fixed_def appends_def)
  have c: "s < 3" "wrote b' = wrote b3" "blen b' = blen b3" "bld_ok ?T b'" "bumped s 1 b3 b'"
    using count_ok [OF _ s(4)] r3 by (auto simp: bld_ok_def wrote_def bumped_def nth_list_update)
  have "decodes_in (wrote b') {12..<blen b0} (blen b) (blen b) ms k (blen b0)"
    using len0 c(2) w3(1) by (intro decodes_in_mono [OF decodes_in_agree [OF n(7)] T]) (auto simp: nth_append)
  then have "rr_at (wrote b') (blen b) r (blen b')"
    using n(5,6) ls c(2,3) w3 len0 l r3 by (intro rr_atI [of _ "blen b0" _ ms k]) auto
  moreover have "bumped s 1 b b'" using c(5) r3 a2 b0(3) n(3) by (simp add: bumped_def appends_def)
  ultimately show ?thesis using c w3 n(1,2) by auto
qed

lemma put_rrs_ok:
  "bld_ok S b \<Longrightarrow> 12 \<le> blen b \<Longrightarrow> list_all (\<lambda>r. ok_labels (so r)) rs \<Longrightarrow> put_rrs s b rs = (b', ELPIS_OK) \<Longrightarrow>
   \<exists>T p. bld_ok T b' \<and> wrote b' = wrote b @ p \<and> rrs_at (wrote b') (blen b) rs (blen b') \<and>
    bumped s (length rs) b b' \<and> blen b \<le> blen b'"
proof (induction rs arbitrary: b S)
  case Nil
  then show ?case by (auto simp: bumped_def)
next
  case (Cons r rs)
  obtain b1 where b1: "put_rr s b r = (b1, ELPIS_OK)" "put_rrs s b1 rs = (b', ELPIS_OK)"
    using Cons.prems(4) by (auto simp: bthen_OK)
  obtain T p where t: "bld_ok T b1" "wrote b1 = wrote b @ p" "rr_at (wrote b1) (blen b) r (blen b1)" "bumped s 1 b b1" "blen b \<le> blen b1"
    using put_rr_ok [OF Cons.prems(1,2) _ b1(1)] Cons.prems(3) by auto
  obtain U q where u: "bld_ok U b'" "wrote b' = wrote b1 @ q" "rrs_at (wrote b') (blen b1) rs (blen b')"
      "bumped s (length rs) b1 b'" "blen b1 \<le> blen b'"
    using Cons.IH [OF t(1) _ _ b1(2)] Cons.prems(2,3) t(5) by auto
  have "rr_at (wrote b') (blen b) r (blen b1)" using t(3) u(2) by (intro rr_at_agree [OF t(3)]) (auto simp: nth_append)
  moreover have "bumped s (length (r # rs)) b b'" using t(4) u(4) by (auto simp: bumped_def)
  ultimately show ?case using t u by (auto intro!: exI [of _ U])
qed

lemma header_ok:
  assumes "elpis_bld_header (elpis_bld_init buf ctab c) ident fl = (b, ELPIS_OK)"
  shows "bld_ok {} b \<and> blen b = 12 \<and> wrote b = elpis_put16 ident @ elpis_put16 fl @ replicate 8 0 \<and>
    bcounts b = [0, 0, 0, 0]"
  using assms
  by (auto simp: elpis_bld_header_def elpis_bld_init_def elpis_bld_bytes_def bld_ok_def wrote_def overwrite_def
      numeral_eq_Suc split: if_splits)

lemma question_ok:
  assumes "bld_ok S b" and "12 \<le> blen b" and "ok_labels ls" and "elpis_bld_question b (name_of ls) ty kl = (b', ELPIS_OK)"
  shows "\<exists>T. bld_ok T b' \<and> wrote b' = wrote b @ wire ls @ elpis_put16 ty @ elpis_put16 kl \<and>
    blen b' = blen b + length (wire ls) + 4 \<and> bcounts b' = (bcounts b) [0 := bcounts b ! 0 + 1]"
proof -
  obtain b1 b2 b3 where s: "elpis_bld_name_raw b (name_of ls) = (b1, ELPIS_OK)" "elpis_bld_bytes b1 (elpis_put16 ty) = (b2, ELPIS_OK)"
    "elpis_bld_bytes b2 (elpis_put16 kl) = (b3, ELPIS_OK)" "b' = count_bump (ctab_add b3 (name_of ls) (blen b))"
    using assms(4) by (auto simp: elpis_bld_question_def bthen_OK u16_bytes)
  let ?T = "S \<union> {blen b..<blen b1}"
  have r: "wrote b1 = wrote b @ wire ls" "blen b1 = blen b + length (wire ls)" "bcounts b1 = bcounts b" "bld_ok ?T b1"
    using raw_written [OF assms(1,3,2) s(1)] by (auto simp: bframe_def)
  have 2: "appends ?T b1 (elpis_put16 ty) b2" using r s(2) assms(2) by (intro appends_bytes) auto
  then have 3: "appends ?T b2 (elpis_put16 kl) b3" using r s(3) assms(2) by (intro appends_bytes) (auto simp: appends_def)
  have "length (wrote b) = blen b" using assms(1) by (simp add: bld_ok_def length_wrote)
  then have c: "bld_ok ?T (ctab_add b3 (name_of ls) (blen b)) \<and> bframe b3 (ctab_add b3 (name_of ls) (blen b)) \<and>
    wrote (ctab_add b3 (name_of ls) (blen b)) = wrote b3 \<and> blen (ctab_add b3 (name_of ls) (blen b)) = blen b3"
    using 2 3 r assms(3) by (intro ctab_add_ok) (auto simp: appends_def)
  have "bld_ok ?T (count_bump x) = bld_ok ?T x" "wrote (count_bump x) = wrote x" "blen (count_bump x) = blen x" for x
    by (simp_all add: count_bump_def bld_ok_def wrote_def)
  moreover have "bcounts b' = (bcounts b) [0 := bcounts b ! 0 + 1]"
    using c 2 3 r(3) by (simp add: s(4) count_bump_def appends_def bframe_def)
  ultimately show ?thesis using c 2 3 r(1,2) by (intro exI [of _ ?T]) (simp add: s(4) appends_def)
qed

section \<open>Whole messages\<close>

definition not_opt :: "rr_spec \<Rightarrow> bool" where
  "not_opt r \<longleftrightarrow> ok_labels (so r) \<and> sty r \<noteq> ELPIS_T_OPT"

lemma scan_no_opt_at:
  "rrs_at w off rs e \<Longrightarrow> list_all not_opt rs \<Longrightarrow> scan_no_opt \<lparr>iwire = w, ioff = off, iremain = length rs\<rparr> = Ok ()"
proof (induction rs arbitrary: off)
  case Nil
  then show ?case by (simp add: scan_no_opt.simps elpis_rr_next_def)
next
  case (Cons r rs)
  then obtain m where m: "rr_at w off r m" "rrs_at w m rs e" by auto
  from rr_at_next [OF m(1), of "length rs"] Cons m(2) show ?case
    by (auto simp: scan_no_opt.simps [of "\<lparr>iwire = w, ioff = off, iremain = Suc (length rs)\<rparr>"] rr_matches_def not_opt_def)
qed

lemma scan_opt_at:
  "rrs_at w off rs e \<Longrightarrow> list_all not_opt rs \<Longrightarrow> scan_opt m \<lparr>iwire = w, ioff = off, iremain = length rs\<rparr> flags = Ok m"
proof (induction rs arbitrary: off)
  case Nil
  then show ?case by (simp add: scan_opt.simps elpis_rr_next_def)
next
  case (Cons r rs)
  then obtain x where x: "rr_at w off r x" "rrs_at w x rs e" by auto
  from rr_at_next [OF x(1), of "length rs"] Cons x(2) show ?case
    by (auto simp: scan_opt.simps [of m "\<lparr>iwire = w, ioff = off, iremain = Suc (length rs)\<rparr>"] rr_matches_def not_opt_def)
qed

lemma sections_at:
  assumes "rrs_at (mwire m) (qend m) an o1" and "rrs_at (mwire m) o1 ns o2" and "rrs_at (mwire m) o2 ar (length (mwire m))"
    and "list_all not_opt an" and "list_all not_opt ns" and "list_all not_opt ar"
    and "sec_cnt m = [length an, length ns, length ar]" and "\<not> have_opt m"
  shows "msg_sections m flags = Ok (m\<lparr>sec_off := [qend m, o1, o2]\<rparr>)"
proof -
  have "walk_section (mwire m) (qend m) (length an) = Ok o1" "walk_section (mwire m) o1 (length ns) = Ok o2"
    "walk_section (mwire m) o2 (length ar) = Ok (length (mwire m))"
    using rrs_at_records [OF assms(1)] rrs_at_records [OF assms(2)] rrs_at_records [OF assms(3)] by auto
  then show ?thesis
    using scan_no_opt_at [OF assms(1,4)] scan_no_opt_at [OF assms(2,5)] scan_opt_at [OF assms(3,6)] assms(7,8)
    by (simp add: msg_sections_def elpis_rr_iter_def)
qed

definition put_reply ::
  "elpis_bld \<Rightarrow> u16 \<Rightarrow> u16 \<Rightarrow> label list \<Rightarrow> u16 \<Rightarrow> u16 \<Rightarrow> rr_spec list \<Rightarrow> rr_spec list \<Rightarrow> rr_spec list \<Rightarrow> built" where
  "put_reply b0 ident fl ls ty kl an ns ar =
     bthen (elpis_bld_header b0 ident fl) (\<lambda>b1. bthen (elpis_bld_question b1 (name_of ls) ty kl) (\<lambda>b2.
       bthen (put_rrs 0 b2 an) (\<lambda>b3. bthen (put_rrs 1 b3 ns) (\<lambda>b4. bthen (put_rrs 2 b4 ar) (\<lambda>b5.
         (elpis_bld_finish b5, ELPIS_OK))))))"

lemma finish_wrote:
  assumes "bld_ok S b" and "12 \<le> blen b" 
  shows "bld_ok S (elpis_bld_finish b) \<and> wrote (elpis_bld_finish b) = overwrite (wrote b) 4 (elpis_put16 (bcounts b ! 0) @
    elpis_put16 (bcounts b ! 1) @ elpis_put16 (bcounts b ! 2) @ elpis_put16 (bcounts b ! 3)) \<and> blen (elpis_bld_finish b) = blen b"
proof -
  have "S \<inter> {4..<12} = {}" using assms(1) by (auto simp: bld_ok_def)
  then show ?thesis
    using bld_ok_patch [OF assms(1), of 4 "elpis_put16 (bcounts b ! 0) @ elpis_put16 (bcounts b ! 1) @
      elpis_put16 (bcounts b ! 2) @ elpis_put16 (bcounts b ! 3)"] assms(2) by (simp add: elpis_bld_finish_def)
qed

lemma rrs_at_prefix: "rrs_at w off rs e \<Longrightarrow> rrs_at (w @ p) off rs e"
  by (rule rrs_at_agree) (auto simp: nth_append)

lemma overwrite_counts:
  "length a = 4 \<Longrightarrow> length c = 8 \<Longrightarrow> overwrite (a @ replicate 8 0 @ z) 4 c = a @ c @ z"
  by (simp add: overwrite_def)

lemma reply_written:
  assumes e: "put_reply (elpis_bld_init buf ctab c) ident fl ls ty kl an ns ar = (b, ELPIS_OK)" and ls: "ok_labels ls"
    and ok: "list_all not_opt an" "list_all not_opt ns" "list_all not_opt ar"
  obtains c3 o1 o2 z where "wrote b = elpis_put16 ident @ elpis_put16 fl @ elpis_put16 1 @ elpis_put16 (c3 0) @ elpis_put16 (c3 1) @
      elpis_put16 (c3 (2::nat)) @ wire ls @ elpis_put16 ty @ elpis_put16 kl @ z"
    and "unat (c3 0 :: u16) = length an" and "unat (c3 1) = length ns" and "unat (c3 2) = length ar"
    and "rrs_at (wrote b) (16 + length (wire ls)) an o1" and "rrs_at (wrote b) o1 ns o2"
    and "rrs_at (wrote b) o2 ar (length (wrote b))" and "length (wrote b) = blen b" and "blen b \<le> length (bbuf b)"
proof -
  have ok': "list_all (\<lambda>r. ok_labels (so r)) an" "list_all (\<lambda>r. ok_labels (so r)) ns" "list_all (\<lambda>r. ok_labels (so r)) ar"
    using ok by (auto simp: list_all_iff not_opt_def)
  obtain b1 b2 b3 b4 b5 where s: "elpis_bld_header (elpis_bld_init buf ctab c) ident fl = (b1, ELPIS_OK)"
    "elpis_bld_question b1 (name_of ls) ty kl = (b2, ELPIS_OK)" "put_rrs 0 b2 an = (b3, ELPIS_OK)" "put_rrs 1 b3 ns = (b4, ELPIS_OK)"
    "put_rrs 2 b4 ar = (b5, ELPIS_OK)" "b = elpis_bld_finish b5" using e by (auto simp: put_reply_def bthen_OK)
  note 1 = header_ok [OF s(1)]
  obtain S2 where 2: "bld_ok S2 b2" "wrote b2 = wrote b1 @ wire ls @ elpis_put16 ty @ elpis_put16 kl"
    "blen b2 = 16 + length (wire ls)" "bcounts b2 = [1, 0, 0, 0]" using question_ok [OF _ _ ls s(2)] 1 by auto
  obtain S3 p3 where 3: "bld_ok S3 b3" "wrote b3 = wrote b2 @ p3" "rrs_at (wrote b3) (blen b2) an (blen b3)"
    "bumped 0 (length an) b2 b3" "blen b2 \<le> blen b3" using put_rrs_ok [OF 2(1) _ ok'(1) s(3)] 2(3) by auto
  obtain S4 p4 where 4: "bld_ok S4 b4" "wrote b4 = wrote b3 @ p4" "rrs_at (wrote b4) (blen b3) ns (blen b4)"
    "bumped 1 (length ns) b3 b4" "blen b3 \<le> blen b4" using put_rrs_ok [OF 3(1) _ ok'(2) s(4)] 2(3) 3(5) by auto
  obtain S5 p5 where 5: "bld_ok S5 b5" "wrote b5 = wrote b4 @ p5" "rrs_at (wrote b5) (blen b4) ar (blen b5)"
    "bumped 2 (length ar) b4 b5" "blen b4 \<le> blen b5" using put_rrs_ok [OF 4(1) _ ok'(3) s(5)] 2(3) 3(5) 4(5) by auto
  have l5: "12 \<le> blen b5" "length (wrote b5) = blen b5" using 2(3) 3(5) 4(5) 5(1,5) by (auto simp: bld_ok_def length_wrote)
  note f = finish_wrote [OF 5(1) l5(1)]
  have "bcounts b5 ! 0 = 1"
    using 3(4) 4(4) 5(4) 2(4) by (intro word_unat_eq_iff [THEN iffD2]) (simp add: bumped_def)
  moreover have cs: "unat (bcounts b5 ! 1) = length an" "unat (bcounts b5 ! 2) = length ns" "unat (bcounts b5 ! 3) = length ar"
    using 3(4) 4(4) 5(4) 2(4) by (simp_all add: bumped_def)
  ultimately have w: "wrote b = elpis_put16 ident @ elpis_put16 fl @ elpis_put16 1 @ elpis_put16 (bcounts b5 ! 1) @
      elpis_put16 (bcounts b5 ! 2) @ elpis_put16 (bcounts b5 ! 3) @ wire ls @ elpis_put16 ty @ elpis_put16 kl @ p3 @ p4 @ p5"
    using f 1 2(2) 3(2) 4(2) 5(2) overwrite_counts [of "elpis_put16 ident @ elpis_put16 fl"]
    by (simp add: s(6))
  have lb: "blen b = blen b5" "blen b \<le> length (bbuf b)" using f by (auto simp: s(6) bld_ok_def)
  have ag: "length (wrote b5) \<le> length (wrote b)" "\<And>i. 12 \<le> i \<Longrightarrow> i < length (wrote b5) \<Longrightarrow> wrote b ! i = wrote b5 ! i"
    using f l5 by (auto simp: s(6) overwrite_def nth_append)
  have "rrs_at (wrote b5) (16 + length (wire ls)) an (blen b3)" "rrs_at (wrote b5) (blen b3) ns (blen b4)"
    using rrs_at_prefix [OF 3(3), of "p4 @ p5"] rrs_at_prefix [OF 4(3), of p5] 4(2) 5(2) 2(3) by auto
  then have "rrs_at (wrote b) (16 + length (wire ls)) an (blen b3)" "rrs_at (wrote b) (blen b3) ns (blen b4)"
    using ag by (blast intro: rrs_at_agree)+
  moreover have "rrs_at (wrote b) (blen b4) ar (length (wrote b))" "length (wrote b) = blen b" "blen b \<le> length (bbuf b)"
    using lb rrs_at_agree [OF 5(3) ag] by (auto simp: length_wrote)
  ultimately show ?thesis using that [of "\<lambda>i. bcounts b5 ! ([1, 2, 3] ! i)"] w cs by auto
qed

section \<open>Marks and rollback\<close>

text \<open>\<open>b'\<close> continues \<open>b\<close>: what \<open>b\<close> had written, registered and counted as a TTL is still there.\<close>

definition ext :: "elpis_bld \<Rightarrow> elpis_bld \<Rightarrow> bool" where
  "ext b b' \<longleftrightarrow> prefix (wrote b) (wrote b') \<and> prefix (bctab b) (bctab b') \<and> prefix (bttl b) (bttl b') \<and> blen b \<le> blen b' \<and>
     length (bbuf b') = length (bbuf b)"

lemma ext_refl [simp]: "ext b b"
  by (simp add: ext_def)

lemma ext_trans: "ext a b \<Longrightarrow> ext b c \<Longrightarrow> ext a c"
  unfolding ext_def by (metis order_trans prefix_order.order_trans)

definition safe :: "elpis_bld \<Rightarrow> elpis_bld \<Rightarrow> bool" where
  "safe b b' \<longleftrightarrow> (\<forall>S. bld_ok S b \<longrightarrow> 12 \<le> blen b \<longrightarrow>
     ext b b' \<and> (\<exists>T. S \<subseteq> T \<and> T \<subseteq> S \<union> {blen b..<blen b'} \<and> bld_ok T b'))"

lemma safeD: "safe b b' \<Longrightarrow> bld_ok S b \<Longrightarrow> 12 \<le> blen b \<Longrightarrow>
    \<exists>T. S \<subseteq> T \<and> T \<subseteq> S \<union> {blen b..<blen b'} \<and> bld_ok T b' \<and> ext b b' \<and> 12 \<le> blen b'"
  unfolding safe_def ext_def by (meson order_trans)

lemma safe_refl [simp]: "safe b b"
  by (auto simp: safe_def)

lemma safe_trans: assumes "safe a b" and "safe b c" shows "safe a c"
  unfolding safe_def
proof (intro allI impI)
  fix S assume S: "bld_ok S a" "12 \<le> blen a"
  obtain T where T: "S \<subseteq> T" "T \<subseteq> S \<union> {blen a..<blen b}" "bld_ok T b" "ext a b" "12 \<le> blen b"
    using safeD [OF assms(1) S] by blast
  obtain U where U: "T \<subseteq> U" "U \<subseteq> T \<union> {blen b..<blen c}" "bld_ok U c" "ext b c" using safeD [OF assms(2) T(3,5)] by blast
  have "blen a \<le> blen b" "blen b \<le> blen c" using T U by (auto simp: ext_def)
  then have "{blen a..<blen b} \<subseteq> {blen a..<blen c}" "{blen b..<blen c} \<subseteq> {blen a..<blen c}" by auto
  then have "U \<subseteq> S \<union> {blen a..<blen c}" using T(2) U(2) by blast
  then show "ext a c \<and> (\<exists>T. S \<subseteq> T \<and> T \<subseteq> S \<union> {blen a..<blen c} \<and> bld_ok T c)"
    using ext_trans [OF T(4) U(4)] T(1) U(1,3) by blast
qed

lemma safe_overflow [simp]: "safe b (b\<lparr>boverflow := x\<rparr>)"
  by (auto simp: safe_def ext_def wrote_def bld_ok_def)

lemma safe_bthen: "safe b (fst r) \<Longrightarrow> (\<And>b'. r = (b', ELPIS_OK) \<Longrightarrow> safe b' (fst (f b'))) \<Longrightarrow> safe b (fst (bthen r f))"
  by (cases r) (auto simp: bthen_def intro: safe_trans)

lemma safe_appends: "(\<And>S. bld_ok S b \<Longrightarrow> 12 \<le> blen b \<Longrightarrow> appends S b p b' \<and> prefix (bctab b) (bctab b') \<and>
    prefix (bttl b) (bttl b') \<and> length (bbuf b') = length (bbuf b)) \<Longrightarrow> safe b b'"
  unfolding safe_def ext_def appends_def by (metis Un_upper1 le_add1 order_refl prefixI)

lemma safe_bytes: "safe b (fst (elpis_bld_bytes b p))"
proof (cases "elpis_bld_bytes b p")
  case (Pair b' rc)
  show ?thesis
  proof (cases "rc = ELPIS_OK")
    case True
    then show ?thesis using Pair appends_bytes [of _ b p b'] bytes_Ok [of b p b']
      by (intro safe_appends [of _ p]) (auto simp: bframe_def bld_ok_def)
  next
    case False
    then show ?thesis using Pair bytes_fail [OF Pair] by simp
  qed
qed

lemma safe_note_ttl: "safe b (note_ttl b ttl)"
  by (rule safe_appends [of _ "[]"]) (auto simp: note_ttl_def appends_def bld_ok_def wrote_def)

lemma ctab_add_loop_prefix: "prefix (bctab b) (bctab (ctab_add_loop b n off))"
proof (induction b n off rule: ctab_add_loop.induct)
  case (1 b cur off)
  then show ?case
    by (subst ctab_add_loop.simps) (auto simp: Let_def split: option.split intro: append_prefixD)
qed

lemma ctab_add_prefix: "prefix (bctab b) (bctab (ctab_add b n off))"
  by (simp add: ctab_add_def ctab_add_loop_prefix)

lemma register_prefix_prefix: "prefix (bctab b) (bctab (register_prefix b n off k))"
proof (induction b n off k rule: register_prefix.induct)
  case (1 b pre off slen)
  then show ?case
    by (subst register_prefix.simps) (auto simp: Let_def split: option.split intro: append_prefixD)
qed

lemma bld_name_prefix: "elpis_bld_name b n = (b', rc) \<Longrightarrow> prefix (bctab b) (bctab b')"
proof -
  have "prefix (bctab b) (bctab (ctab_add (b\<lparr>bbuf := x, blen := l\<rparr>) n off))"
    "prefix (bctab b) (bctab (register_prefix (b\<lparr>bbuf := x, blen := l\<rparr>) n off k))" for x l off k
    using ctab_add_prefix [of "b\<lparr>bbuf := x, blen := l\<rparr>"] register_prefix_prefix [of "b\<lparr>bbuf := x, blen := l\<rparr>"] by simp_all
  then show "elpis_bld_name b n = (b', rc) \<Longrightarrow> prefix (bctab b) (bctab b')"
    by (auto simp: elpis_bld_name_def elpis_bld_name_raw_def elpis_bld_bytes_def bthen_def Let_def
        split: if_splits option.splits)
qed

lemma safe_name: assumes "ok_labels ls" shows "safe b (fst (elpis_bld_name b (name_of ls)))"
proof (cases "elpis_bld_name b (name_of ls)")
  case (Pair b' rc)
  show ?thesis
  proof (cases "rc = ELPIS_OK")
    case True
    have "ext b b' \<and> bld_ok (S \<union> {blen b..<blen b'}) b'" if "bld_ok S b" "12 \<le> blen b" for S
      using bld_name_ok [OF that(1) assms that(2), of b'] Pair True bld_name_prefix [OF Pair]
      by (auto simp: ext_def name_written_def bframe_def)
    then show ?thesis using Pair unfolding safe_def by (metis Un_upper1 fst_conv order_refl)
  next
    case False
    then show ?thesis using Pair bld_name_fail [OF Pair] by simp
  qed
qed

text \<open>
  The runs of a builder.  The second component holds the states at which a mark was taken, latest
  first; the third is the length field of the record being written.
\<close>

inductive built_by :: "elpis_bld \<Rightarrow> elpis_bld list \<Rightarrow> nat option \<Rightarrow> bool" where
  start: "elpis_bld_header (elpis_bld_track_ttl (elpis_bld_init buf ctab c) arrays cap) ident fl = (b, ELPIS_OK) \<Longrightarrow>
    built_by b [] None"
| bytes: "built_by b ms pd \<Longrightarrow> built_by (fst (elpis_bld_bytes b p)) ms pd"
| u16: "built_by b ms pd \<Longrightarrow> built_by (fst (elpis_bld_u16 b v)) ms pd"
| u32: "built_by b ms pd \<Longrightarrow> built_by (fst (elpis_bld_u32 b x)) ms pd"
| name: "built_by b ms pd \<Longrightarrow> ok_labels ls \<Longrightarrow> built_by (fst (elpis_bld_name b (name_of ls))) ms pd"
| question: "built_by b ms pd \<Longrightarrow> ok_labels ls \<Longrightarrow> built_by (fst (elpis_bld_question b (name_of ls) ty kl)) ms pd"
| question_raw: "built_by b ms pd \<Longrightarrow> built_by (fst (elpis_bld_question_raw b q ty kl)) ms pd"
| rr_begin: "built_by b ms None \<Longrightarrow> ok_labels ls \<Longrightarrow> elpis_bld_rr_begin b (name_of ls) ty kl ttl = ((b', rc), pos) \<Longrightarrow>
    built_by b' ms (if rc = ELPIS_OK then Some pos else None)"
| rr_end: "built_by b ms (Some pos) \<Longrightarrow> built_by (fst (elpis_bld_rr_end b pos)) ms None"
| count: "built_by b ms pd \<Longrightarrow> built_by (fst (elpis_bld_count b s d)) ms pd"
| mark: "built_by b ms None \<Longrightarrow> built_by b (b # ms) None"
| rollback: "built_by b (ms1 @ b0 # ms2) pd \<Longrightarrow> built_by (elpis_bld_rollback b (elpis_bld_mark b0)) (b0 # ms2) None"

lemma safe_ctab_add:
  assumes "ok_labels ls" and "\<And>S. bld_ok S a \<Longrightarrow> 12 \<le> blen a \<Longrightarrow>
      prefix (wrote a) (wrote b) \<and> take (length (wire ls)) (drop (blen a) (wrote b)) = wire ls \<and>
      blen a + length (wire ls) \<le> blen b" and "safe a b"
  shows "safe a (ctab_add b (name_of ls) (blen a))"
  unfolding safe_def
proof (intro allI impI)
  let ?c = "ctab_add b (name_of ls) (blen a)"
  fix S assume S: "bld_ok S a" "12 \<le> blen a"
  obtain T where T: "S \<subseteq> T" "T \<subseteq> S \<union> {blen a..<blen b}" "bld_ok T b" "ext a b" using safeD [OF assms(3) S] by blast
  note a = assms(2) [OF S]
  have lb: "length (wrote b) = blen b" using T(3) by (simp add: bld_ok_def length_wrote)
  let ?U = "S \<union> {blen a..<blen b}"
  have le: "blen a \<le> blen b" using T(4) by (simp add: ext_def)
  have "bld_ok ?U b" using T(2,3) S le by (auto simp: bld_ok_def list_all_iff intro: entry_ok_agree)
  then have "bld_ok ?U ?c \<and> bframe b ?c \<and> wrote ?c = wrote b \<and> blen ?c = blen b"
    using a assms(1) by (intro ctab_add_ok) auto
  then show "ext a ?c \<and> (\<exists>T. S \<subseteq> T \<and> T \<subseteq> S \<union> {blen a..<blen ?c} \<and> bld_ok T ?c)"
    using T(4) ctab_add_prefix [of b "name_of ls" "blen a"] unfolding ext_def bframe_def
    by (metis Un_upper1 order_refl prefix_order.order_trans)
qed

lemma safe_count_bump: "safe b (count_bump b)"
  by (auto simp: safe_def ext_def count_bump_def bld_ok_def wrote_def)

lemma safe_count: "safe b (fst (elpis_bld_count b s d))"
  by (auto simp: safe_def ext_def elpis_bld_count_def bld_ok_def wrote_def Let_def)

text \<open>The question section: octets, two fields, then the table.\<close>

lemma question_steps:
  assumes "elpis_bld_bytes b p = (b1, ELPIS_OK)" and "elpis_bld_u16 b1 ty = (b2, ELPIS_OK)" and "elpis_bld_u16 b2 kl = (b3, ELPIS_OK)"
  shows "safe b b3" and "bld_ok S b \<Longrightarrow> 12 \<le> blen b \<Longrightarrow>
    prefix (wrote b) (wrote b3) \<and> take (length p) (drop (blen b) (wrote b3)) = p \<and> blen b + length p \<le> blen b3"
proof -
  have "safe b b1" "safe b1 b2" "safe b2 b3"
    using assms safe_bytes [of b p] safe_bytes [of b1 "elpis_put16 ty"] safe_bytes [of b2 "elpis_put16 kl"] by (auto simp: u16_bytes)
  then show "safe b b3" by (blast intro: safe_trans)
  assume S: "bld_ok S b" "12 \<le> blen b"
  have 1: "appends S b p b1" using appends_bytes [OF S assms(1)] .
  have 2: "appends S b1 (elpis_put16 ty) b2" using 1 S assms(2) by (intro appends_bytes) (auto simp: appends_def u16_bytes)
  have 3: "appends S b2 (elpis_put16 kl) b3" using 1 2 S assms(3) by (intro appends_bytes) (auto simp: appends_def u16_bytes)
  show "prefix (wrote b) (wrote b3) \<and> take (length p) (drop (blen b) (wrote b3)) = p \<and> blen b + length p \<le> blen b3"
    using 1 2 3 S by (auto simp: appends_def bld_ok_def length_wrote)
qed

lemma safe_three:
  assumes "\<And>b1 b2 b3. elpis_bld_bytes b p = (b1, ELPIS_OK) \<Longrightarrow> elpis_bld_u16 b1 ty = (b2, ELPIS_OK) \<Longrightarrow>
    elpis_bld_u16 b2 kl = (b3, ELPIS_OK) \<Longrightarrow> safe b (g b3)"
  shows "safe b (fst (bthen (elpis_bld_bytes b p) (\<lambda>b1. bthen (elpis_bld_u16 b1 ty) (\<lambda>b2.
       bthen (elpis_bld_u16 b2 kl) (\<lambda>b3. (g b3, ELPIS_OK))))))"
proof -
  obtain b1 r1 where 1: "elpis_bld_bytes b p = (b1, r1)" by fastforce
  obtain b2 r2 where 2: "elpis_bld_u16 b1 ty = (b2, r2)" by fastforce
  obtain b3 r3 where 3: "elpis_bld_u16 b2 kl = (b3, r3)" by fastforce
  have s: "safe b b1" "safe b1 b2" "safe b2 b3" using 1 2 3 safe_bytes unfolding u16_bytes by (metis fst_conv)+
  then have "safe b b2" "safe b b3" by (blast intro: safe_trans)+
  with s(1) assms 1 2 3 show ?thesis by (auto simp: bthen_def)
qed

lemma safe_question: assumes "ok_labels ls" shows "safe b (fst (elpis_bld_question b (name_of ls) ty kl))"
proof -
  have n: "take (nlen (name_of ls)) (nd (name_of ls)) = wire ls" using assms by simp
  show ?thesis
    unfolding elpis_bld_question_def elpis_bld_name_raw_def n
    by (intro safe_three safe_trans [OF _ safe_count_bump] safe_ctab_add [OF assms])
      (blast dest: question_steps)+
qed

lemma safe_question_raw: "safe b (fst (elpis_bld_question_raw b q ty kl))"
proof -
  have "safe b (count_bump (if bcompress b3 then (case elpis_name_parse_nocomp q of
      Ok (n, used) \<Rightarrow> if used = length q then ctab_add b3 n (blen b) else b3 | _ \<Rightarrow> b3) else b3))"
    if s: "elpis_bld_bytes b q = (b1, ELPIS_OK)" "elpis_bld_u16 b1 ty = (b2, ELPIS_OK)" "elpis_bld_u16 b2 kl = (b3, ELPIS_OK)" for b1 b2 b3
  proof -
    note q = question_steps [OF s]
    have "safe b (ctab_add b3 n (blen b))" if "elpis_name_parse_nocomp q = Ok (n, length q)" for n
    proof -
      from that obtain ls where ls: "ok_labels ls" "q = wire ls" "n = name_of ls" by (auto simp: nocomp_iff)
      show ?thesis using q unfolding ls(2,3) by (intro safe_ctab_add ls(1)) blast+
    qed
    then have "safe b (if bcompress b3 then (case elpis_name_parse_nocomp q of
      Ok (n, used) \<Rightarrow> if used = length q then ctab_add b3 n (blen b) else b3 | _ \<Rightarrow> b3) else b3)"
      using q(1) by (auto split: outcome.splits)
    then show ?thesis by (rule safe_trans [OF _ safe_count_bump])
  qed
  then show ?thesis unfolding elpis_bld_question_raw_def by (auto intro!: safe_three)
qed

lemma safe_rr_begin:
  assumes "ok_labels ls" and "elpis_bld_rr_begin b (name_of ls) ty kl ttl = ((b', rc), pos)"
  shows "safe b b'"
proof -
  let ?r = "bthen (elpis_bld_name b (name_of ls)) (\<lambda>b1. bthen (elpis_bld_u16 b1 ty) (\<lambda>b2.
                bthen (elpis_bld_u16 b2 kl) (\<lambda>b3. elpis_bld_u32 (note_ttl b3 ttl) ttl)))"
  have r: "safe b (fst ?r)"
    using assms(1) safe_trans [OF safe_note_ttl safe_bytes]
    by (intro safe_bthen safe_name) (auto simp: u16_bytes u32_bytes intro: safe_bytes)
  moreover have "safe (fst ?r) (fst (bthen (elpis_bld_u16 (fst ?r) 0) (\<lambda>b5. (b5, ELPIS_OK))))"
    by (intro safe_bthen) (auto simp: u16_bytes intro: safe_bytes)
  ultimately show ?thesis
    using assms(2) by (auto simp: elpis_bld_rr_begin_def Let_def split: if_splits dest: safe_trans)
qed

fun chain :: "elpis_bld \<Rightarrow> elpis_bld list \<Rightarrow> bool" where
  "chain b [] \<longleftrightarrow> True"
| "chain b (b0 # ms) \<longleftrightarrow> ext b0 b \<and> (\<exists>S. bld_ok S b0) \<and> 12 \<le> blen b0 \<and> chain b0 ms"

definition built_inv :: "elpis_bld \<Rightarrow> elpis_bld list \<Rightarrow> nat option \<Rightarrow> bool" where
  "built_inv b ms pd \<longleftrightarrow>
     (\<exists>S. bld_ok S b \<and> 12 \<le> blen b \<and> chain b ms \<and>
        (\<forall>pos. pd = Some pos \<longrightarrow> pos + 2 \<le> blen b \<and> S \<inter> {pos..<pos + 2} = {} \<and> (\<forall>b0\<in>set ms. blen b0 \<le> pos)))"

lemma chain_ext: "chain b ms \<Longrightarrow> ext b b' \<Longrightarrow> chain b' ms"
  by (cases ms) (auto intro: ext_trans)

lemma chain_le: "chain b ms \<Longrightarrow> b0 \<in> set ms \<Longrightarrow> blen b0 \<le> blen b"
  by (induction ms arbitrary: b) (auto simp: ext_def intro: order_trans)

lemma chain_split: "chain b (ms1 @ b0 # ms2) \<Longrightarrow> ext b0 b \<and> (\<exists>S. bld_ok S b0) \<and> 12 \<le> blen b0 \<and> chain b0 ms2"
  by (induction ms1 arbitrary: b) (auto intro: ext_trans)

lemma built_inv_safe:
  assumes "built_inv b ms pd" and "safe b b'"
  shows "built_inv b' ms pd"
proof -
  obtain S where S: "bld_ok S b" "12 \<le> blen b" "chain b ms" "\<And>pos. pd = Some pos \<Longrightarrow>
      pos + 2 \<le> blen b \<and> S \<inter> {pos..<pos + 2} = {} \<and> (\<forall>b0\<in>set ms. blen b0 \<le> pos)" using assms(1) by (auto simp: built_inv_def)
  obtain T where T: "T \<subseteq> S \<union> {blen b..<blen b'}" "bld_ok T b'" "ext b b'" "12 \<le> blen b'"
    using safeD [OF assms(2) S(1,2)] by blast
  have "pos + 2 \<le> blen b' \<and> T \<inter> {pos..<pos + 2} = {}" if "pd = Some pos" for pos
    using S(4) [OF that] T(1,3) by (fastforce simp: ext_def)
  then show ?thesis using S(3,4) T chain_ext unfolding built_inv_def by blast
qed

lemma rollback_back:
  assumes "ext b0 b" and "bld_ok S b0"
  defines "r \<equiv> elpis_bld_rollback b (elpis_bld_mark b0)"
  shows "wrote r = wrote b0" and "blen r = blen b0" and "bctab r = bctab b0" and "bttl r = bttl b0"
    and "bcounts r = bcounts b0" and "bld_ok S r" and "\<not> boverflow r" and "length (bbuf r) = length (bbuf b0)"
proof -
  have l: "blen b0 \<le> length (bbuf b0)" using assms(2) by (simp add: bld_ok_def)
  have "wrote r = take (length (wrote b0)) (wrote b)"
    using l assms(1) by (simp add: r_def elpis_bld_rollback_def elpis_bld_mark_def wrote_def ext_def min_def)
  then show w: "wrote r = wrote b0" using assms(1) by (auto simp: ext_def prefix_def)
  show f: "blen r = blen b0" "bctab r = bctab b0" "bttl r = bttl b0" "bcounts r = bcounts b0" "\<not> boverflow r"
    "length (bbuf r) = length (bbuf b0)"
    using assms(1) by (auto simp: r_def elpis_bld_rollback_def elpis_bld_mark_def ext_def prefix_def)
  show "bld_ok S r" using assms(2) w f by (simp add: bld_ok_def)
qed

lemma built_inv_rollback:
  assumes "built_inv b (ms1 @ b0 # ms2) pd"
  shows "built_inv (elpis_bld_rollback b (elpis_bld_mark b0)) (b0 # ms2) None"
proof -
  obtain S where s: "ext b0 b" "bld_ok S b0" "12 \<le> blen b0" "chain b0 ms2"
    using assms chain_split [of b ms1 b0 ms2] by (auto simp: built_inv_def)
  note r = rollback_back [OF s(1,2)]
  have "ext b0 (elpis_bld_rollback b (elpis_bld_mark b0))" using r by (simp add: ext_def)
  then show ?thesis using s r unfolding built_inv_def by auto
qed

lemma built_inv_rr_begin:
  assumes "built_inv b ms None" and "ok_labels ls" and "elpis_bld_rr_begin b (name_of ls) ty kl ttl = ((b', ELPIS_OK), pos)"
  shows "built_inv b' ms (Some pos)"
proof -
  obtain S where S: "bld_ok S b" "12 \<le> blen b" "chain b ms" using assms(1) by (auto simp: built_inv_def)
  obtain b1 where b1: "name_written S b ls b1" "pos = blen b1 + 8"
    "appends (S \<union> {blen b..<blen b1}) b1 (elpis_put16 ty @ elpis_put16 kl @ elpis_put32 ttl @ elpis_put16 0) b'"
    using rr_begin_ok [OF S(1,2) assms(2,3)] by blast
  have "S \<subseteq> {12..<blen b}" "blen b \<le> blen b1" using S(1) b1(1) by (auto simp: bld_ok_def name_written_def)
  moreover have "ext b b'" using safe_rr_begin [OF assms(2,3)] S by (auto simp: safe_def)
  moreover have "\<forall>b0\<in>set ms. blen b0 \<le> pos" using chain_le [OF S(3)] b1 by (fastforce simp: name_written_def)
  ultimately show ?thesis
    unfolding built_inv_def using S b1 chain_ext [OF S(3)]
    by (intro exI [of _ "S \<union> {blen b..<blen b1}"]) (auto simp: appends_def)
qed

lemma built_inv_rr_end:
  assumes "built_inv b ms (Some pos)"
  shows "built_inv (fst (elpis_bld_rr_end b pos)) ms None"
proof (cases "snd (elpis_bld_rr_end b pos) = ELPIS_OK")
  case False
  then have "fst (elpis_bld_rr_end b pos) = b" by (auto simp: elpis_bld_rr_end_def Let_def split: if_splits)
  then show ?thesis using assms by (auto simp: built_inv_def)
next
  case True
  obtain S where S: "bld_ok S b" "12 \<le> blen b" "chain b ms" "pos + 2 \<le> blen b" "S \<inter> {pos..<pos + 2} = {}"
    "\<forall>b0\<in>set ms. blen b0 \<le> pos" using assms by (auto simp: built_inv_def)
  define p where "p = elpis_put16 (word_of_nat (blen b - (pos + 2)))"
  have p: "length p = 2" and r: "fst (elpis_bld_rr_end b pos) = b\<lparr>bbuf := overwrite (bbuf b) pos p\<rparr>"
    using True by (auto simp: p_def elpis_bld_rr_end_def Let_def split: if_splits)
  note k = bld_ok_patch [OF S(1), of pos p, unfolded p, OF S(4,5)]
  have "ext b0 (b\<lparr>bbuf := overwrite (bbuf b) pos p\<rparr>)" if e: "ext b0 b" "bld_ok S0 b0" "blen b0 \<le> pos" for b0 S0
  proof -
    have "length (wrote b0) \<le> pos" using e(2,3) by (simp add: bld_ok_def length_wrote)
    moreover obtain z where "wrote b = wrote b0 @ z" using e(1) by (auto simp: ext_def prefix_def)
    ultimately have "prefix (wrote b0) (overwrite (wrote b) pos p)" by (simp add: overwrite_def)
    then show ?thesis using e(1) k(2) S(4) p S(1) by (simp add: ext_def bld_ok_def)
  qed
  then have "chain (b\<lparr>bbuf := overwrite (bbuf b) pos p\<rparr>) ms" using S(3,6) by (cases ms) auto
  then show ?thesis using k(1) S(2) unfolding built_inv_def r by auto
qed

lemma built_by_inv: "built_by b ms pd \<Longrightarrow> built_inv b ms pd"
proof (induction rule: built_by.induct)
  case (start buf ctab c arrays cap ident fl b)
  have "bld_ok {} b \<and> blen b = 12"
    using start by (auto simp: elpis_bld_header_def elpis_bld_init_def elpis_bld_track_ttl_def elpis_bld_bytes_def bld_ok_def
        split: if_splits)
  then show ?case by (auto simp: built_inv_def)
next
  case (rr_begin b ms ls ty kl ttl b' rc pos)
  show ?case
  proof (cases "rc = ELPIS_OK")
    case True
    then show ?thesis using built_inv_rr_begin [OF rr_begin.IH rr_begin.hyps(2)] rr_begin.hyps(3) by simp
  next
    case False
    then show ?thesis using built_inv_safe [OF rr_begin.IH safe_rr_begin [OF rr_begin.hyps(2,3)]] by simp
  qed
next
  case (mark b ms)
  then show ?case by (auto simp: built_inv_def)
qed (simp_all add: built_inv_rr_end built_inv_rollback built_inv_safe u16_bytes u32_bytes safe_bytes safe_name safe_question
    safe_question_raw safe_count built_inv_safe [OF _ safe_bytes] built_inv_safe [OF _ safe_name] built_inv_safe [OF _ safe_question]
    built_inv_safe [OF _ safe_question_raw] built_inv_safe [OF _ safe_count])

section \<open>Properties\<close>

text \<open>
  Property C3. On every run of the builder - whatever is written, marked, rolled back or refused for lack of
  room - the message never passes the buffer's capacity, the table never passes its size, and each
  of its entries is an offset a pointer can hold at which the parser finds, up to case, the name
  the entry stands for.
\<close>

theorem bld_compression_sound:
  assumes "built_by b ms pd"
  shows "blen b \<le> length (bbuf b) \<and> length (bctab b) \<le> ELPIS_BLD_CTAB \<and>
    list_all (\<lambda>(off, n). off < 0x4000 \<and>
      (\<exists>n' e. elpis_name_parse (wrote b) off = Ok (n', e) \<and> elpis_name_eq n' n)) (bctab b)"
proof -
  obtain S where S: "bld_ok S b" using built_by_inv [OF assms] by (auto simp: built_inv_def)
  have "off < 0x4000 \<and> (\<exists>n' e. elpis_name_parse (wrote b) off = Ok (n', e) \<and> elpis_name_eq n' n)"
    if "entry_ok (wrote b) S (off, n)" for off n
  proof -
    from that obtain ls ms k e where x: "n = name_of ls" "ok_labels ls" "fold_labels ms = fold_labels ls"
      "decodes_in (wrote b) S off off ms k e" "k < length ls" "off < 0x4000" by (auto simp: entry_ok_def)
    have ok: "ok_labels ms" using x(2,3) by (metis ok_fold_labels)
    have "k \<le> 128" using x(5) ok_labels_count [OF x(2)] by simp
    then have "elpis_name_parse (wrote b) off = Ok (name_of ms, e)"
      using decodes_in_decodes [OF x(4)] ok by (auto simp: parse_iff)
    then show ?thesis using name_eq_of [OF ok x(2)] x(1,3,6) by blast
  qed
  then show ?thesis using S by (auto simp: bld_ok_def list_all_iff)
qed

definition demo_hdr :: elpis_bld where
  "demo_hdr = fst (elpis_bld_header (elpis_bld_track_ttl (elpis_bld_init (replicate 22 0) True True) True 4) 7 0x8180)"

definition demo_q :: elpis_bld where
  "demo_q = fst (elpis_bld_question demo_hdr (name_of [[0x77], [0x6F, 0x72]]) 1 1)"

text \<open>One octet more does not fit.\<close>

definition demo_over :: elpis_bld where
  "demo_over = fst (elpis_bld_bytes demo_q [1])"

lemma demo_hdr_built: "built_by demo_hdr [demo_hdr] None"
proof -
  have "elpis_bld_header (elpis_bld_track_ttl (elpis_bld_init (replicate 22 0) True True) True 4) 7 0x8180 = (demo_hdr, ELPIS_OK)"
    by (simp add: demo_hdr_def elpis_bld_header_def elpis_bld_bytes_def elpis_bld_init_def elpis_bld_track_ttl_def)
  then show ?thesis by (intro built_by.mark built_by.start)
qed

lemma demo_over_built: "built_by demo_over [demo_hdr] None"
proof -
  have "ok_labels [[0x77], [0x6F, 0x72]]" by code_simp
  then show ?thesis unfolding demo_over_def demo_q_def by (intro built_by.intros demo_hdr_built)
qed

definition demo_bld :: "buffer \<Rightarrow> elpis_bld" where
  "demo_bld w = \<lparr>bbuf = w @ replicate (22 - length w) 0, blen = length w, bcompress = True, boverflow = False,
     btrack_ttl = True, bcounts = [0, 0, 0, 0], bttl = [], bttl_cap = 4, bctab = []\<rparr>"

lemma demo_steps:
  "elpis_bld_name_raw demo_hdr (name_of [[0x77], [0x6F, 0x72]]) =
    (demo_bld [0, 7, 0x81, 0x80, 0, 0, 0, 0, 0, 0, 0, 0, 1, 0x77, 2, 0x6F, 0x72, 0], ELPIS_OK)"
  "elpis_bld_u16 (demo_bld [0, 7, 0x81, 0x80, 0, 0, 0, 0, 0, 0, 0, 0, 1, 0x77, 2, 0x6F, 0x72, 0]) 1 =
    (demo_bld [0, 7, 0x81, 0x80, 0, 0, 0, 0, 0, 0, 0, 0, 1, 0x77, 2, 0x6F, 0x72, 0, 0, 1], ELPIS_OK)"
  "elpis_bld_u16 (demo_bld [0, 7, 0x81, 0x80, 0, 0, 0, 0, 0, 0, 0, 0, 1, 0x77, 2, 0x6F, 0x72, 0, 0, 1]) 1 =
    (demo_bld [0, 7, 0x81, 0x80, 0, 0, 0, 0, 0, 0, 0, 0, 1, 0x77, 2, 0x6F, 0x72, 0, 0, 1, 0, 1], ELPIS_OK)"
  "blen demo_hdr = 12"
  by code_simp+

lemma demo_parents:
  "elpis_name_parent (name_of [[0x77], [0x6F, 0x72]]) = Some (name_of [[0x6F, 0x72]])"
  "elpis_name_parent (name_of [[0x6F, 0x72]]) = Some (name_of [])"
  "dget (name_of [[0x77], [0x6F, 0x72]]) 0 = 1" "nlen (name_of [[0x77], [0x6F, 0x72]]) = 6"
  "nlen (name_of [[0x6F, 0x72]]) = 4" "nlen (name_of []) = 1"
  by code_simp+

lemma demo_q_eval: "demo_q = count_bump (ctab_add
    (demo_bld [0, 7, 0x81, 0x80, 0, 0, 0, 0, 0, 0, 0, 0, 1, 0x77, 2, 0x6F, 0x72, 0, 0, 1, 0, 1]) (name_of [[0x77], [0x6F, 0x72]]) 12)"
  by (simp add: demo_q_def elpis_bld_question_def bthen_def demo_steps)

lemma demo_over_eval:
  "boverflow demo_over \<and> blen demo_over = 22 \<and> map fst (bctab demo_over) = [12, 14]"
  by (simp add: demo_over_def demo_q_eval ctab_add_def ctab_add_loop.simps demo_parents count_bump_def
      elpis_bld_bytes_def Let_def demo_bld_def wire_def wire_prefix_def wire_label_def)

theorem bld_compression_sound_witness:
  "boverflow demo_over \<and> map fst (bctab demo_over) = [12, 14] \<and>
   list_all (\<lambda>(off, n). off < 0x4000 \<and>
      (\<exists>n' e. elpis_name_parse (wrote demo_over) off = Ok (n', e) \<and> elpis_name_eq n' n)) (bctab demo_over)"
  using bld_compression_sound [OF demo_over_built] demo_over_eval by blast

text \<open>
  Property C4. A rollback undoes everything since its mark on every run, also after a write that did not
  fit: the octets of the message, the table, the TTL offsets and the counts are those at the mark,
  and the overflow is forgotten.
\<close>

theorem bld_rollback_restores:
  assumes "built_by b (ms1 @ b0 # ms2) pd"
  shows "let r = elpis_bld_rollback b (elpis_bld_mark b0) in
    wrote r = wrote b0 \<and> blen r = blen b0 \<and> bctab r = bctab b0 \<and> bttl r = bttl b0 \<and> bcounts r = bcounts b0 \<and>
    length (bbuf r) = length (bbuf b0) \<and> \<not> boverflow r"
proof -
  obtain S where "ext b0 b" "bld_ok S b0"
    using built_by_inv [OF assms] chain_split [of b ms1 b0 ms2] by (auto simp: built_inv_def)
  then show ?thesis using rollback_back [of b0 b S] by (auto simp: Let_def)
qed

theorem bld_rollback_restores_witness:
  "boverflow demo_over \<and> blen demo_over = 22 \<and>
   wrote (elpis_bld_rollback demo_over (elpis_bld_mark demo_hdr)) = wrote demo_hdr"
  using demo_over_eval bld_rollback_restores [of demo_over "[]" demo_hdr "[]"] demo_over_built by (simp add: Let_def)

text \<open>Enough room: every write that fits by its uncompressed size succeeds.\<close>

definition fits :: "elpis_bld \<Rightarrow> nat \<Rightarrow> elpis_bld \<Rightarrow> bool" where
  "fits b k b' \<longleftrightarrow> blen b' \<le> blen b + k \<and> length (bbuf b') = length (bbuf b) \<and> boverflow b' = boverflow b"

lemma fits_trans: "fits a k b \<Longrightarrow> fits b l c \<Longrightarrow> fits a (k + l) c"
  by (simp add: fits_def)

lemma fits_bytes: "blen b + length p \<le> length (bbuf b) \<Longrightarrow> \<exists>b'. elpis_bld_bytes b p = (b', ELPIS_OK) \<and> fits b (length p) b' \<and> bcounts b' = bcounts b"
  by (auto simp: elpis_bld_bytes_def fits_def)

lemma ctab_add_blen [simp]: "blen (ctab_add_loop b n off) = blen b" "blen (ctab_add b n off) = blen b"
proof -
  show "blen (ctab_add_loop b n off) = blen b"
    by (induction b n off rule: ctab_add_loop.induct) (subst ctab_add_loop.simps, auto simp: Let_def split: option.split)
  then show "blen (ctab_add b n off) = blen b" by (simp add: ctab_add_def)
qed

lemma register_prefix_blen [simp]: "blen (register_prefix b n off k) = blen b"
  by (induction b n off k rule: register_prefix.induct) (subst register_prefix.simps, auto simp: Let_def split: option.split)

lemma fits_name:
  assumes "ok_labels ls" and "bld_ok S b" and "12 \<le> blen b" and "blen b + length (wire ls) \<le> length (bbuf b)"
  shows "\<exists>b'. elpis_bld_name b (name_of ls) = (b', ELPIS_OK) \<and> fits b (length (wire ls)) b' \<and> name_written S b ls b'"
proof -
  obtain b' rc where e: "elpis_bld_name b (name_of ls) = (b', rc)" by fastforce
  obtain b1 where raw: "elpis_bld_name_raw b (name_of ls) = (b1, ELPIS_OK)" "blen b1 = blen b + length (wire ls)"
    using assms(1,4) by (auto simp: elpis_bld_name_raw_def elpis_bld_bytes_def)
  have "rc = ELPIS_OK \<and> blen b' \<le> blen b + length (wire ls)"
  proof (cases "find_suffix (bctab b) (name_of ls)")
    case None
    then show ?thesis using e raw by (auto simp: elpis_bld_name_def bthen_def split: if_splits)
  next
    case (Some st)
    obtain sfx t where st: "st = (sfx, t)" by fastforce
    obtain xs ys where x: "ls = xs @ ys" "sfx = name_of ys" "ys \<noteq> []" using find_suffix_of [OF assms(1)] Some st by blast
    have "2 \<le> length (wire ys)" using x(3) by (cases ys) (auto simp: wire_def wire_prefix_def)
    moreover have "length (wire ls) = length (wire_prefix xs) + length (wire ys)" by (simp add: x(1) wire_def wire_prefix_def)
    ultimately have "nlen (name_of ls) - nlen sfx + 2 \<le> length (wire ls)" using assms(1) x by simp
    then show ?thesis using e Some st raw assms(4) by (auto simp: elpis_bld_name_def Let_def split: if_splits)
  qed
  moreover from this have "name_written S b ls b'" using bld_name_ok [OF assms(2,1,3)] e by simp
  ultimately show ?thesis using e by (auto simp: fits_def name_written_def bframe_def)
qed

definition rr_size :: "rr_spec \<Rightarrow> nat" where
  "rr_size r = length (wire (so r)) + 10 + length (sdata r)"

lemma fits_rr_begin:
  assumes ls: "ok_labels ls" and ok: "bld_ok S b" and l: "12 \<le> blen b" and room: "blen b + length (wire ls) + 10 \<le> length (bbuf b)"
  shows "\<exists>b' pos. elpis_bld_rr_begin b (name_of ls) ty kl ttl = ((b', ELPIS_OK), pos) \<and> fits b (length (wire ls) + 10) b' \<and>
    bcounts b' = bcounts b \<and> pos + 2 = blen b'"
proof -
  obtain b1 where b1: "elpis_bld_name b (name_of ls) = (b1, ELPIS_OK)" "fits b (length (wire ls)) b1" "name_written S b ls b1"
    using fits_name [OF ls ok l] room by auto
  have c1: "bcounts b1 = bcounts b" using b1(3) by (auto simp: name_written_def bframe_def)
  obtain b2 where b2: "elpis_bld_bytes b1 (elpis_put16 ty) = (b2, ELPIS_OK)" "fits b1 2 b2" "bcounts b2 = bcounts b1"
    using fits_bytes [of b1 "elpis_put16 ty"] b1(2) room by (auto simp: fits_def)
  obtain b3 where b3: "elpis_bld_bytes b2 (elpis_put16 kl) = (b3, ELPIS_OK)" "fits b2 2 b3" "bcounts b3 = bcounts b2"
    using fits_bytes [of b2 "elpis_put16 kl"] b1(2) b2(2) room by (auto simp: fits_def)
  have n: "fits b3 0 (note_ttl b3 ttl)" "bcounts (note_ttl b3 ttl) = bcounts b3" by (auto simp: fits_def note_ttl_def)
  obtain b4 where b4: "elpis_bld_bytes (note_ttl b3 ttl) (elpis_put32 ttl) = (b4, ELPIS_OK)" "fits (note_ttl b3 ttl) 4 b4"
      "bcounts b4 = bcounts (note_ttl b3 ttl)"
    using fits_bytes [of "note_ttl b3 ttl" "elpis_put32 ttl"] b1(2) b2(2) b3(2) n(1) room by (auto simp: fits_def)
  obtain b5 where b5: "elpis_bld_bytes b4 (elpis_put16 0) = (b5, ELPIS_OK)" "fits b4 2 b5" "bcounts b5 = bcounts b4"
    using fits_bytes [of b4 "elpis_put16 0"] b1(2) b2(2) b3(2) n(1) b4(2) room by (auto simp: fits_def)
  have "blen b5 = blen b4 + 2" using b5(1) by (auto simp: elpis_bld_bytes_def split: if_splits)
  then show ?thesis
    using b1 b2 b3 n b4 b5 c1 by (auto simp: elpis_bld_rr_begin_def u16_bytes u32_bytes bthen_def fits_def)
qed

lemma fits_rr:
  assumes "ok_labels (so r)" and "bld_ok S b" and "12 \<le> blen b" and "blen b + rr_size r \<le> length (bbuf b)" and "\<not> boverflow b"
    and "length (sdata r) < 65536" and "s < 3" and "unat (bcounts b ! (s + 1)) < 65535"
  shows "\<exists>b'. put_rr s b r = (b', ELPIS_OK) \<and> fits b (rr_size r) b'"
proof -
  obtain b1 pos where b1: "elpis_bld_rr_begin b (name_of (so r)) (sty r) (skl r) (sttl r) = ((b1, ELPIS_OK), pos)"
      "fits b (length (wire (so r)) + 10) b1" "bcounts b1 = bcounts b" "pos + 2 = blen b1"
    using fits_rr_begin [OF assms(1-3), of "sty r" "skl r" "sttl r"] assms(4) by (auto simp: rr_size_def)
  obtain b2 where b2: "elpis_bld_bytes b1 (sdata r) = (b2, ELPIS_OK)" "fits b1 (length (sdata r)) b2" "bcounts b2 = bcounts b1"
    using fits_bytes [of b1 "sdata r"] b1(2) assms(4) by (auto simp: fits_def rr_size_def)
  have "blen b2 = pos + 2 + length (sdata r)" using b2(1) b1(4) by (auto simp: elpis_bld_bytes_def split: if_splits)
  moreover have "blen b2 \<le> length (bbuf b2)" using b1(2) b2(2) assms(4) by (simp add: fits_def rr_size_def)
  ultimately obtain b3 where b3: "elpis_bld_rr_end b2 pos = (b3, ELPIS_OK)" "bcounts b3 = bcounts b2" "fits b2 0 b3"
    using assms(5,6) b1(2) b2(2) by (auto simp: elpis_bld_rr_end_def fits_def Let_def)
  have "int (unat (bcounts b ! (s + 1))) + 1 \<le> 65535" "\<not> int (unat (bcounts b ! (s + 1))) + 1 < 0" using assms(8) by linarith+
  then obtain b4 where b4: "elpis_bld_count b3 s 1 = (b4, ELPIS_OK)" "fits b3 0 b4"
    using assms(7) b1(3) b2(3) b3(2) by (auto simp: elpis_bld_count_def Let_def fits_def)
  show ?thesis using b1 b2 b3 b4 by (auto simp: put_rr_def bthen_def fits_def rr_size_def)
qed

lemma fits_rrs:
  "list_all (\<lambda>r. ok_labels (so r) \<and> length (sdata r) < 65536) rs \<Longrightarrow> bld_ok S b \<Longrightarrow> 12 \<le> blen b \<Longrightarrow>
   blen b + sum_list (map rr_size rs) \<le> length (bbuf b) \<Longrightarrow> \<not> boverflow b \<Longrightarrow> s < 3 \<Longrightarrow>
   unat (bcounts b ! (s + 1)) + length rs \<le> 65535 \<Longrightarrow>
   \<exists>b'. put_rrs s b rs = (b', ELPIS_OK) \<and> fits b (sum_list (map rr_size rs)) b'"
proof (induction rs arbitrary: b S)
  case Nil
  then show ?case by (simp add: fits_def)
next
  case (Cons r rs)
  obtain b1 where b1: "put_rr s b r = (b1, ELPIS_OK)" "fits b (rr_size r) b1"
    using fits_rr [of r S b s] Cons.prems by auto
  obtain T where T: "bld_ok T b1" "bumped s 1 b b1" "12 \<le> blen b1"
    using put_rr_ok [OF Cons.prems(2,3) _ b1(1)] Cons.prems(1,3) by auto
  then obtain b2 where "put_rrs s b1 rs = (b2, ELPIS_OK)" "fits b1 (sum_list (map rr_size rs)) b2"
    using Cons.IH [OF _ T(1,3)] Cons.prems b1(2) by (auto simp: fits_def bumped_def)
  then show ?case using b1 by (auto simp: bthen_def fits_def)
qed

lemma fits_question:
  assumes "ok_labels ls" and "blen b + length (wire ls) + 4 \<le> length (bbuf b)"
  shows "\<exists>b'. elpis_bld_question b (name_of ls) ty kl = (b', ELPIS_OK) \<and> boverflow b' = boverflow b"
proof -
  obtain b1 where b1: "elpis_bld_bytes b (wire ls) = (b1, ELPIS_OK)" "fits b (length (wire ls)) b1"
    using fits_bytes [of b "wire ls"] assms(2) by auto
  obtain b2 where b2: "elpis_bld_bytes b1 (elpis_put16 ty) = (b2, ELPIS_OK)" "fits b1 2 b2"
    using fits_bytes [of b1 "elpis_put16 ty"] b1(2) assms(2) by (auto simp: fits_def)
  obtain b3 where b3: "elpis_bld_bytes b2 (elpis_put16 kl) = (b3, ELPIS_OK)" "fits b2 2 b3"
    using fits_bytes [of b2 "elpis_put16 kl"] b1(2) b2(2) assms(2) by (auto simp: fits_def)
  have "boverflow (ctab_add_loop c n off) = boverflow c" for c n off
    by (induction c n off rule: ctab_add_loop.induct) (subst ctab_add_loop.simps, auto simp: Let_def split: option.split)
  then show ?thesis using b1 b2 b3 assms(1)
    by (auto simp: elpis_bld_question_def elpis_bld_name_raw_def u16_bytes bthen_def count_bump_def ctab_add_def fits_def)
qed

definition reply_size :: "label list \<Rightarrow> rr_spec list \<Rightarrow> nat" where
  "reply_size ls rs = 16 + length (wire ls) + sum_list (map rr_size rs)"

lemma reply_fits:
  assumes ls: "ok_labels ls" and rs: "list_all (\<lambda>r. ok_labels (so r) \<and> length (sdata r) < 65536) (an @ ns @ ar)"
    and room: "reply_size ls (an @ ns @ ar) \<le> length buf" and "length an < 65536" and "length ns < 65536" and "length ar < 65536"
  shows "\<exists>b. put_reply (elpis_bld_init buf ctab c) ident fl ls ty kl an ns ar = (b, ELPIS_OK)"
proof -
  have ok: "list_all (\<lambda>r. ok_labels (so r)) an" "list_all (\<lambda>r. ok_labels (so r)) ns" using rs by (auto simp: list_all_iff)
  obtain b1 where 1: "elpis_bld_header (elpis_bld_init buf ctab c) ident fl = (b1, ELPIS_OK)" "length (bbuf b1) = length buf" "\<not> boverflow b1"
    using room by (auto simp: elpis_bld_header_def elpis_bld_init_def elpis_bld_bytes_def reply_size_def)
  note h = header_ok [OF 1(1)]
  obtain b2 where 2: "elpis_bld_question b1 (name_of ls) ty kl = (b2, ELPIS_OK)" "\<not> boverflow b2"
    using fits_question [OF ls, of b1 ty kl] h 1 room by (auto simp: reply_size_def)
  obtain T where T: "bld_ok T b2" "blen b2 = 16 + length (wire ls)" "bcounts b2 = [1, 0, 0, 0]"
    using question_ok [OF _ _ ls 2(1)] h by auto
  have l2: "length (bbuf b2) = length buf"
    using safe_question [OF ls, of b1 ty kl] 2(1) h 1(2) by (auto simp: safe_def ext_def)
  obtain b3 where 3: "put_rrs 0 b2 an = (b3, ELPIS_OK)" "fits b2 (sum_list (map rr_size an)) b3"
    using fits_rrs [of an T b2 0] rs T l2 2(2) room assms(4) by (auto simp: reply_size_def)
  obtain U where U: "bld_ok U b3" "bumped 0 (length an) b2 b3" "blen b2 \<le> blen b3" using put_rrs_ok [OF T(1) _ ok(1) 3(1)] T(2) by auto
  obtain b4 where 4: "put_rrs 1 b3 ns = (b4, ELPIS_OK)" "fits b3 (sum_list (map rr_size ns)) b4"
    using fits_rrs [of ns U b3 1] rs T U l2 2(2) 3(2) room assms(5) by (auto simp: reply_size_def fits_def bumped_def)
  obtain V where V: "bld_ok V b4" "bumped 1 (length ns) b3 b4" "blen b3 \<le> blen b4"
    using put_rrs_ok [OF U(1) _ ok(2) 4(1)] T(2) U(3) by auto
  obtain b5 where 5: "put_rrs 2 b4 ar = (b5, ELPIS_OK)"
    using fits_rrs [of ar V b4 2] rs T U V l2 2(2) 3(2) 4(2) room assms(6) by (auto simp: reply_size_def fits_def bumped_def)
  show ?thesis using 1 2 3 4 5 by (simp add: put_reply_def bthen_def)
qed

lemma get16_mid: "length a = i \<Longrightarrow> elpis_get16 (a @ elpis_put16 v @ r) i = (Ok v :: ('e, u16) outcome)"
  by (rule get16_put16) auto

lemma parse_wire_at:
  assumes "ok_labels ls" and "length a = i"
  shows "elpis_name_parse (a @ wire ls @ r) i = Ok (name_of ls, i + length (wire ls))"
proof -
  have "decodes_in (a @ wire ls @ r) UNIV i i ls 0 (i + length (wire ls))"
    using assms ok_labels_valid by (intro decodes_in_wire) auto
  then show ?thesis unfolding parse_iff using assms(1) decodes_in_decodes by blast
qed

text \<open>
  Property C1. What the builder writes, the parser reads back.  A message of a header, a question and three
  sections of records (none of them OPT), written with or without compression into a buffer that
  could hold it uncompressed, is completed without an overflow; the parser accepts it, returns the
  same id, flags and question, and its iterators return the same records in the same order - same
  owner up to case, type, class, TTL and rdata.
\<close>

theorem reply_roundtrip:
  assumes ls: "ok_labels ls" and rs: "list_all not_opt (an @ ns @ ar)" "list_all (\<lambda>r. length (sdata r) < 65536) (an @ ns @ ar)"
    and room: "reply_size ls (an @ ns @ ar) \<le> length buf" and cnt: "length an < 65536" "length ns < 65536" "length ar < 65536"
    and flags: "flags AND ELPIS_PARSE_NO_WALK = 0"
      "if fl AND 0x8000 = 0 then flags AND ELPIS_PARSE_QUERY \<noteq> 0 else flags AND ELPIS_PARSE_RESPONSE \<noteq> 0"
  shows "\<exists>b m. put_reply (elpis_bld_init buf ctab c) ident fl ls ty kl an ns ar = (b, ELPIS_OK) \<and>
    elpis_msg_parse (wrote b) flags = Ok m \<and> hid (mhdr m) = ident \<and> hflags (mhdr m) = fl \<and>
    qname m = name_of ls \<and> qtype m = ty \<and> qclass m = kl \<and>
    (\<exists>ra ia rn in' rr ir. records (elpis_rr_iter m 0) = (ra, ia) \<and> list_all2 (rr_matches (wrote b)) an ra \<and>
       records (elpis_rr_iter m 1) = (rn, in') \<and> list_all2 (rr_matches (wrote b)) ns rn \<and>
       records (elpis_rr_iter m 2) = (rr, ir) \<and> list_all2 (rr_matches (wrote b)) ar rr)"
proof -
  have no: "list_all not_opt an" "list_all not_opt ns" "list_all not_opt ar" using rs(1) by (auto simp: list_all_iff)
  obtain b where b: "put_reply (elpis_bld_init buf ctab c) ident fl ls ty kl an ns ar = (b, ELPIS_OK)"
    using reply_fits [OF ls _ room cnt] rs by (fastforce simp: list_all_iff not_opt_def)
  obtain c3 o1 o2 z where w: "wrote b = elpis_put16 ident @ elpis_put16 fl @ elpis_put16 1 @ elpis_put16 (c3 0) @ elpis_put16 (c3 1) @
      elpis_put16 (c3 (2::nat)) @ wire ls @ elpis_put16 ty @ elpis_put16 kl @ z"
    and u: "unat (c3 0 :: u16) = length an" "unat (c3 1) = length ns" "unat (c3 2) = length ar"
    and at: "rrs_at (wrote b) (16 + length (wire ls)) an o1" "rrs_at (wrote b) o1 ns o2" "rrs_at (wrote b) o2 ar (length (wrote b))"
    by (rule reply_written [OF b ls no]) blast
  let ?h = "\<lparr>hid = ident, hflags = fl, qdcount = 1, ancount = c3 0, nscount = c3 1, arcount = c3 2\<rparr>"
  have h: "elpis_hdr_parse (wrote b) = Ok ?h"
    using get16_mid [where 'e = elpis_rc, of "[]" 0 ident] get16_mid [where 'e = elpis_rc, of "elpis_put16 ident" 2 fl] get16_mid [where 'e = elpis_rc, of "elpis_put16 ident @ elpis_put16 fl" 4 1]
      get16_mid [where 'e = elpis_rc, of "elpis_put16 ident @ elpis_put16 fl @ elpis_put16 1" 6 "c3 0"]
      get16_mid [where 'e = elpis_rc, of "elpis_put16 ident @ elpis_put16 fl @ elpis_put16 1 @ elpis_put16 (c3 0)" 8 "c3 1"]
      get16_mid [where 'e = elpis_rc, of "elpis_put16 ident @ elpis_put16 fl @ elpis_put16 1 @ elpis_put16 (c3 0) @ elpis_put16 (c3 1)" 10 "c3 2"]
    by (simp add: w elpis_hdr_parse_def)
  let ?p = "elpis_put16 ident @ elpis_put16 fl @ elpis_put16 1 @ elpis_put16 (c3 0) @ elpis_put16 (c3 1) @ elpis_put16 (c3 2)"
  have n: "elpis_name_parse (wrote b) 12 = Ok (name_of ls, 12 + length (wire ls))"
    using parse_wire_at [OF ls, of ?p 12] by (simp add: w)
  have q: "elpis_get16 (wrote b) (12 + length (wire ls)) = (Ok ty :: u16 parsed)"
    "elpis_get16 (wrote b) (12 + length (wire ls) + 2) = (Ok kl :: u16 parsed)"
    using get16_mid [where 'e = "elpis_rc \<times> elpis_drop", of "?p @ wire ls" "12 + length (wire ls)" ty] get16_mid [where 'e = "elpis_rc \<times> elpis_drop", of "?p @ wire ls @ elpis_put16 ty" "12 + length (wire ls) + 2" kl]
    by (simp_all add: w)
  have l: "\<not> length (wrote b) < 12 + length (wire ls) + 4" by (simp add: w)
  define m where "m = (msg_zero (wrote b))\<lparr>mhdr := ?h, qname := name_of ls, qtype := ty, qclass := kl, qend := 16 + length (wire ls),
    sec_cnt := [length an, length ns, length ar]\<rparr>"
  have "msg_sections m flags = Ok (m\<lparr>sec_off := [qend m, o1, o2]\<rparr>)"
    using at no by (intro sections_at) (auto simp: m_def msg_zero_def)
  moreover have "elpis_msg_parse (wrote b) flags = msg_sections m flags"
    using flags n q l u by (simp add: elpis_msg_parse_def h msg_question_def msg_zero_def m_def split: if_splits)
  ultimately have "elpis_msg_parse (wrote b) flags = Ok (m\<lparr>sec_off := [qend m, o1, o2]\<rparr>)" by simp
  moreover note rrs_at_records [OF at(1)] rrs_at_records [OF at(2)] rrs_at_records [OF at(3)]
  ultimately show ?thesis
    using b by (intro exI [of _ b] exI [of _ "m\<lparr>sec_off := [qend m, o1, o2]\<rparr>"])
      (auto simp: m_def msg_zero_def elpis_rr_iter_def)
qed

definition demo_rr :: rr_spec where
  "demo_rr = \<lparr>so = [[0x57], [0x4F, 0x72]], sty = 1, skl = 1, sttl = 300, sdata = [192, 0, 2, 1]\<rparr>"

theorem reply_roundtrip_witness:
  "\<exists>b m ra ia. put_reply (elpis_bld_init (replicate 60 0) True True) 7 0x8180 [[0x77], [0x6F, 0x72]] 1 1 [demo_rr] [] [] = (b, ELPIS_OK) \<and>
     elpis_msg_parse (wrote b) ELPIS_PARSE_RESPONSE = Ok m \<and> qname m = name_of [[0x77], [0x6F, 0x72]] \<and>
     records (elpis_rr_iter m 0) = (ra, ia) \<and> list_all2 (rr_matches (wrote b)) [demo_rr] ra"
proof -
  have "ok_labels [[0x77], [0x6F, 0x72]]" "list_all not_opt ([demo_rr] @ [] @ [])" "length (sdata demo_rr) = 4"
    "reply_size [[0x77], [0x6F, 0x72]] ([demo_rr] @ [] @ []) \<le> 60" by code_simp+
  moreover have "(ELPIS_PARSE_RESPONSE :: u32) AND ELPIS_PARSE_NO_WALK = 0" "(ELPIS_PARSE_RESPONSE :: u32) AND ELPIS_PARSE_RESPONSE \<noteq> 0"
    "(0x8180 :: u16) AND 0x8000 \<noteq> 0" by simp_all
  ultimately show ?thesis
    using reply_roundtrip [of "[[0x77], [0x6F, 0x72]]" "[demo_rr]" "[]" "[]" "replicate 60 0" ELPIS_PARSE_RESPONSE "0x8180" True True 7 1 1]
    by auto
qed

end
