(* ===== verification/Elpis_Rdata.thy ===== *)
theory Elpis_Rdata
  imports Elpis_Msg
begin

unbundle bit_operations_syntax

text \<open>
  Record data, \<open>src/dns/rdata.c\<close>: the table of field descriptors with its binary search, type and
  class mnemonics, NSEC type bitmaps, the walker that validates record data and copies it with its
  names expanded, target extraction and the presentation format.

  The walker's structure is the record \<open>walk_t\<close>; \<open>wout\<close> is what it has copied, \<open>None\<close> when
  it only validates.  An error carries the return code and the drop reason left in the structure.
  The per-thread scratch ring only lends storage to the mnemonics and is not modelled.
\<close>

section \<open>Definitions\<close>

subsection \<open>Descriptors and mnemonics\<close>

datatype rdf =
    RDF_U8 | RDF_U16 | RDF_U32 | RDF_U48 | RDF_U64 | RDF_A | RDF_AAAA | RDF_NAME | RDF_NAME_UNC
  | RDF_STR | RDF_STRS | RDF_BLOB | RDF_BLOB1 | RDF_BITMAP | RDF_NSEC3_SALT | RDF_NSEC3_HASH
  | RDF_SVCPARAMS | RDF_IPSECKEY | RDF_HIP | RDF_APL | RDF_LOC | RDF_WKS | RDF_AMTRELAY

text \<open>Type, mnemonic, fields, and whether names are folded for the canonical form.\<close>

type_synonym rr_desc = "u16 \<times> buffer \<times> rdf list \<times> bool"

definition k_desc :: "rr_desc list" where
  "k_desc =
    [(1, lit ''A'', [RDF_A], False),
     (2, lit ''NS'', [RDF_NAME], True),
     (3, lit ''MD'', [RDF_NAME], True),
     (4, lit ''MF'', [RDF_NAME], True),
     (5, lit ''CNAME'', [RDF_NAME], True),
     (6, lit ''SOA'', [RDF_NAME, RDF_NAME, RDF_U32, RDF_U32, RDF_U32, RDF_U32, RDF_U32], True),
     (7, lit ''MB'', [RDF_NAME], True),
     (8, lit ''MG'', [RDF_NAME], True),
     (9, lit ''MR'', [RDF_NAME], True),
     (10, lit ''NULL'', [RDF_BLOB], False),
     (11, lit ''WKS'', [RDF_WKS], False),
     (12, lit ''PTR'', [RDF_NAME], True),
     (13, lit ''HINFO'', [RDF_STR, RDF_STR], False),
     (14, lit ''MINFO'', [RDF_NAME, RDF_NAME], True),
     (15, lit ''MX'', [RDF_U16, RDF_NAME], True),
     (16, lit ''TXT'', [RDF_STR, RDF_STRS], False),
     (17, lit ''RP'', [RDF_NAME, RDF_NAME], True),
     (18, lit ''AFSDB'', [RDF_U16, RDF_NAME], True),
     (19, lit ''X25'', [RDF_STR], False),
     (20, lit ''ISDN'', [RDF_STR, RDF_STRS], False),
     (21, lit ''RT'', [RDF_U16, RDF_NAME], True),
     (22, lit ''NSAP'', [RDF_BLOB1], False),
     (23, lit ''NSAP-PTR'', [RDF_NAME], True),
     (24, lit ''SIG'', [RDF_U16, RDF_U8, RDF_U8, RDF_U32, RDF_U32, RDF_U32, RDF_U16, RDF_NAME_UNC, RDF_BLOB1], True),
     (25, lit ''KEY'', [RDF_U16, RDF_U8, RDF_U8, RDF_BLOB1], False),
     (26, lit ''PX'', [RDF_U16, RDF_NAME, RDF_NAME], True),
     (27, lit ''GPOS'', [RDF_STR, RDF_STR, RDF_STR], False),
     (28, lit ''AAAA'', [RDF_AAAA], False),
     (29, lit ''LOC'', [RDF_LOC], False),
     (30, lit ''NXT'', [RDF_NAME, RDF_BLOB], True),
     (33, lit ''SRV'', [RDF_U16, RDF_U16, RDF_U16, RDF_NAME_UNC], True),
     (35, lit ''NAPTR'', [RDF_U16, RDF_U16, RDF_STR, RDF_STR, RDF_STR, RDF_NAME_UNC], True),
     (36, lit ''KX'', [RDF_U16, RDF_NAME_UNC], True),
     (37, lit ''CERT'', [RDF_U16, RDF_U16, RDF_U8, RDF_BLOB], False),
     (38, lit ''A6'', [RDF_BLOB], False),
     (39, lit ''DNAME'', [RDF_NAME_UNC], True),
     (42, lit ''APL'', [RDF_APL], False),
     (43, lit ''DS'', [RDF_U16, RDF_U8, RDF_U8, RDF_BLOB1], False),
     (44, lit ''SSHFP'', [RDF_U8, RDF_U8, RDF_BLOB1], False),
     (45, lit ''IPSECKEY'', [RDF_IPSECKEY], False),
     (46, lit ''RRSIG'', [RDF_U16, RDF_U8, RDF_U8, RDF_U32, RDF_U32, RDF_U32, RDF_U16, RDF_NAME_UNC, RDF_BLOB1], True),
     (47, lit ''NSEC'', [RDF_NAME_UNC, RDF_BITMAP], False),
     (48, lit ''DNSKEY'', [RDF_U16, RDF_U8, RDF_U8, RDF_BLOB1], False),
     (49, lit ''DHCID'', [RDF_BLOB1], False),
     (50, lit ''NSEC3'', [RDF_U8, RDF_U8, RDF_U16, RDF_NSEC3_SALT, RDF_NSEC3_HASH, RDF_BITMAP], False),
     (51, lit ''NSEC3PARAM'', [RDF_U8, RDF_U8, RDF_U16, RDF_NSEC3_SALT], False),
     (52, lit ''TLSA'', [RDF_U8, RDF_U8, RDF_U8, RDF_BLOB1], False),
     (53, lit ''SMIMEA'', [RDF_U8, RDF_U8, RDF_U8, RDF_BLOB1], False),
     (55, lit ''HIP'', [RDF_HIP], False),
     (56, lit ''NINFO'', [RDF_STR, RDF_STRS], False),
     (57, lit ''RKEY'', [RDF_U16, RDF_U8, RDF_U8, RDF_BLOB1], False),
     (58, lit ''TALINK'', [RDF_NAME, RDF_NAME], False),
     (59, lit ''CDS'', [RDF_U16, RDF_U8, RDF_U8, RDF_BLOB1], False),
     (60, lit ''CDNSKEY'', [RDF_U16, RDF_U8, RDF_U8, RDF_BLOB1], False),
     (61, lit ''OPENPGPKEY'', [RDF_BLOB1], False),
     (62, lit ''CSYNC'', [RDF_U32, RDF_U16, RDF_BITMAP], False),
     (63, lit ''ZONEMD'', [RDF_U32, RDF_U8, RDF_U8, RDF_BLOB1], False),
     (64, lit ''SVCB'', [RDF_U16, RDF_NAME_UNC, RDF_SVCPARAMS], False),
     (65, lit ''HTTPS'', [RDF_U16, RDF_NAME_UNC, RDF_SVCPARAMS], False),
     (66, lit ''DSYNC'', [RDF_U16, RDF_U8, RDF_U16, RDF_NAME_UNC], False),
     (99, lit ''SPF'', [RDF_STR, RDF_STRS], False),
     (104, lit ''NID'', [RDF_U16, RDF_U64], False),
     (105, lit ''L32'', [RDF_U16, RDF_U32], False),
     (106, lit ''L64'', [RDF_U16, RDF_U64], False),
     (107, lit ''LP'', [RDF_U16, RDF_NAME_UNC], False),
     (108, lit ''EUI48'', [RDF_U48], False),
     (109, lit ''EUI64'', [RDF_U64], False),
     (256, lit ''URI'', [RDF_U16, RDF_U16, RDF_BLOB1], False),
     (257, lit ''CAA'', [RDF_U8, RDF_STR, RDF_BLOB], False),
     (258, lit ''AVC'', [RDF_STR, RDF_STRS], False),
     (260, lit ''AMTRELAY'', [RDF_AMTRELAY], False),
     (261, lit ''RESINFO'', [RDF_STR, RDF_STRS], False)]"

definition k_meta :: "(u16 \<times> buffer) list" where
  "k_meta =
    [(41, lit ''OPT''),
     (249, lit ''TKEY''),
     (250, lit ''TSIG''),
     (251, lit ''IXFR''),
     (252, lit ''AXFR''),
     (253, lit ''MAILB''),
     (254, lit ''MAILA''),
     (255, lit ''ANY''),
     (32768, lit ''TA''),
     (32769, lit ''DLV'')]"

text \<open>The binary search of \<open>desc_of\<close> between \<open>lo\<close> and \<open>hi\<close>.\<close>

function desc_search :: "u16 \<Rightarrow> nat \<Rightarrow> nat \<Rightarrow> rr_desc option" where
  "desc_search t lo hi =
     (if lo < hi then
        let mid = lo + (hi - lo) div 2 in
        if fst (k_desc ! mid) = t then Some (k_desc ! mid)
        else if fst (k_desc ! mid) < t then desc_search t (mid + 1) hi
        else desc_search t lo mid
      else None)"
  by pat_completeness auto
termination
  by (relation "measure (\<lambda>(t, lo, hi). hi - lo)") auto

declare desc_search.simps [simp del]

definition desc_of :: "u16 \<Rightarrow> rr_desc option" where
  "desc_of t = desc_search t 0 (length k_desc)"

text \<open>\<open>snprintf\<close> into the 24 octets of a scratch slot.\<close>

definition scratch_text :: "string \<Rightarrow> nat \<Rightarrow> buffer" where
  "scratch_text pre n = take 23 (lit pre @ udec n)"

definition elpis_type_name :: "u16 \<Rightarrow> buffer" where
  "elpis_type_name t =
     (case desc_of t of Some (_, n, _) \<Rightarrow> n
      | None \<Rightarrow> (case map_of k_meta t of Some n \<Rightarrow> n | None \<Rightarrow> scratch_text ''TYPE'' (unat t)))"

definition elpis_class_name :: "u16 \<Rightarrow> buffer" where
  "elpis_class_name c =
     (if c = 1 then lit ''IN'' else if c = 3 then lit ''CH'' else if c = 4 then lit ''HS''
      else if c = 254 then lit ''NONE'' else if c = 255 then lit ''ANY''
      else scratch_text ''CLASS'' (unat c))"

definition rcode_names :: "buffer list" where
  "rcode_names =
     map lit [''NOERROR'', ''FORMERR'', ''SERVFAIL'', ''NXDOMAIN'', ''NOTIMP'', ''REFUSED'',
       ''YXDOMAIN'', ''YXRRSET'', ''NXRRSET'', ''NOTAUTH'', ''NOTZONE'', ''DSOTYPENI'']"

definition elpis_rcode_name :: "u32 \<Rightarrow> buffer" where
  "elpis_rcode_name r =
     (if unat r < length rcode_names then rcode_names ! unat r
      else (case map_of [(16, ''BADVERS''), (17, ''BADKEY''), (18, ''BADTIME''), (19, ''BADMODE''),
                         (20, ''BADNAME''), (21, ''BADALG''), (22, ''BADTRUNC''), (23, ''BADCOOKIE'')] r of
              Some n \<Rightarrow> lit n | None \<Rightarrow> scratch_text ''RCODE'' (unat r)))"

definition elpis_opcode_name :: "u32 \<Rightarrow> buffer" where
  "elpis_opcode_name p =
     (case map_of [(0, ''QUERY''), (1, ''IQUERY''), (2, ''STATUS''), (4, ''NOTIFY''), (5, ''UPDATE''), (6, ''DSO'')] p of
        Some n \<Rightarrow> lit n | None \<Rightarrow> scratch_text ''OPCODE'' (unat p))"

datatype elpis_sec =
  ELPIS_SEC_UNCHECKED | ELPIS_SEC_INDETERMINATE | ELPIS_SEC_INSECURE | ELPIS_SEC_SECURE | ELPIS_SEC_BOGUS

definition elpis_sec_name :: "elpis_sec \<Rightarrow> buffer" where
  "elpis_sec_name s =
     lit (case s of ELPIS_SEC_UNCHECKED \<Rightarrow> ''unchecked'' | ELPIS_SEC_INDETERMINATE \<Rightarrow> ''indeterminate''
          | ELPIS_SEC_INSECURE \<Rightarrow> ''insecure'' | ELPIS_SEC_SECURE \<Rightarrow> ''secure'' | ELPIS_SEC_BOGUS \<Rightarrow> ''bogus'')"

definition elpis_alg_name :: "byte \<Rightarrow> buffer" where
  "elpis_alg_name a =
     (case map_of [(1, ''RSAMD5''), (3, ''DSA''), (5, ''RSASHA1''), (6, ''DSA-NSEC3-SHA1''),
                   (7, ''RSASHA1-NSEC3-SHA1''), (8, ''RSASHA256''), (10, ''RSASHA512''),
                   (13, ''ECDSAP256SHA256''), (14, ''ECDSAP384SHA384''), (15, ''ED25519''), (16, ''ED448'')] a of
        Some n \<Rightarrow> lit n | None \<Rightarrow> scratch_text ''ALG'' (unat a))"

text \<open>The digits behind a case-insensitive prefix, as a 16-bit number.\<close>

definition parse_u16 :: "buffer \<Rightarrow> u16 option" where
  "parse_u16 s =
     (case elpis_parse_u32 (Some s) of
        Some v \<Rightarrow> if v \<le> 0xFFFF then Some (ucast v) else None | None \<Rightarrow> None)"

definition has_letters :: "string \<Rightarrow> buffer \<Rightarrow> bool" where
  "has_letters up s \<longleftrightarrow> length up < length s \<and> map ascii_lower (take (length up) s) = map ascii_lower (lit up)"

definition elpis_type_parse :: "buffer \<Rightarrow> u16 option" where
  "elpis_type_parse s =
     (case find (\<lambda>(_, n, _). elpis_strcasecmp_ascii s n = 0) k_desc of
        Some (t, _) \<Rightarrow> Some t
      | None \<Rightarrow>
        (case find (\<lambda>(_, n). elpis_strcasecmp_ascii s n = 0) k_meta of
           Some (t, _) \<Rightarrow> Some t
         | None \<Rightarrow> if has_letters ''TYPE'' s then parse_u16 (drop 4 s) else None))"

definition elpis_class_parse :: "buffer \<Rightarrow> u16 option" where
  "elpis_class_parse s =
     (if elpis_strcasecmp_ascii s (lit ''IN'') = 0 then Some 1
      else if elpis_strcasecmp_ascii s (lit ''CH'') = 0 then Some 3
      else if elpis_strcasecmp_ascii s (lit ''HS'') = 0 then Some 4
      else if elpis_strcasecmp_ascii s (lit ''NONE'') = 0 then Some 254
      else if elpis_strcasecmp_ascii s (lit ''ANY'') = 0 then Some 255
      else if has_letters ''CLASS'' s then parse_u16 (drop 5 s) else None)"

definition elpis_type_is_singleton :: "u16 \<Rightarrow> bool" where
  "elpis_type_is_singleton t \<longleftrightarrow> t = 5 \<or> t = 39 \<or> t = 6"

definition elpis_type_is_meta :: "u16 \<Rightarrow> bool" where
  "elpis_type_is_meta t \<longleftrightarrow> t = 41 \<or> t = 250 \<or> t = 249 \<or> t = 251 \<or> t = 252 \<or> t = 255 \<or> t = 254 \<or> t = 253"

definition elpis_rdata_downcase :: "u16 \<Rightarrow> bool" where
  "elpis_rdata_downcase t = (case desc_of t of Some (_, _, _, d) \<Rightarrow> d | None \<Rightarrow> False)"

subsection \<open>Type bitmaps\<close>

function bitmap_validate_loop :: "buffer \<Rightarrow> nat \<Rightarrow> int \<Rightarrow> (elpis_rc, unit) outcome" where
  "bitmap_validate_loop bm i prev =
     (if i < length bm then
        if length bm < i + 2 then Err ELPIS_EFORMAT
        else obind (fetch bm i) (\<lambda>win. obind (fetch bm (i + 1)) (\<lambda>len.
          if len = 0 \<or> 32 < len then Err ELPIS_EFORMAT
          else if int (unat win) \<le> prev then Err ELPIS_EFORMAT
          else if length bm < i + 2 + unat len then Err ELPIS_EFORMAT
          else bitmap_validate_loop bm (i + (2 + unat len)) (int (unat win))))
      else Ok ())"
  by pat_completeness auto
termination
  by (relation "measure (\<lambda>(bm, i, prev). length bm - i)") auto

declare bitmap_validate_loop.simps [simp del]

definition elpis_bitmap_validate :: "buffer \<Rightarrow> (elpis_rc, unit) outcome" where
  "elpis_bitmap_validate bm = bitmap_validate_loop bm 0 (- 1)"

function bitmap_has_loop :: "buffer \<Rightarrow> u16 \<Rightarrow> nat \<Rightarrow> (elpis_rc, bool) outcome" where
  "bitmap_has_loop bm t i =
     (if i + 2 \<le> length bm then
        obind (fetch bm i) (\<lambda>win. obind (fetch bm (i + 1)) (\<lambda>len.
          if len = 0 \<or> 32 < len \<or> length bm < i + 2 + unat len then Ok False
          else if unat win = unat (drop_bit 8 t) then
            let bn = unat (t AND 0xFF); byte = bn div 8 in
            if unat len \<le> byte then Ok False
            else obind (fetch bm (i + 2 + byte)) (\<lambda>b. Ok (drop_bit (7 - bn mod 8) b AND 1 \<noteq> 0))
          else if unat (drop_bit 8 t) < unat win then Ok False
          else bitmap_has_loop bm t (i + (2 + unat len))))
      else Ok False)"
  by pat_completeness auto
termination
  by (relation "measure (\<lambda>(bm, t, i). length bm - i)") auto

declare bitmap_has_loop.simps [simp del]

definition elpis_bitmap_has :: "buffer \<Rightarrow> u16 \<Rightarrow> (elpis_rc, bool) outcome" where
  "elpis_bitmap_has bm t = bitmap_has_loop bm t 0"

subsection \<open>The walker\<close>

record walk_t =
  wwire :: buffer
  wpos :: nat
  wstop :: nat
  wout :: "buffer option"
  wosz :: nat
  wdown :: bool

definition w_need :: "walk_t \<Rightarrow> nat \<Rightarrow> bool" where
  "w_need w n \<longleftrightarrow> wpos w + n \<le> wstop w"

text \<open>Appending to the output, when there is one.\<close>

definition w_emit :: "walk_t \<Rightarrow> buffer \<Rightarrow> walk_t parsed" where
  "w_emit w b =
     (case wout w of None \<Rightarrow> Ok w
      | Some o1 \<Rightarrow> if wosz w < length o1 + length b then Err (ELPIS_ETRUNC, DROP_RDATA)
                  else Ok (w\<lparr>wout := Some (o1 @ b)\<rparr>))"

definition w_copy :: "walk_t \<Rightarrow> nat \<Rightarrow> walk_t parsed" where
  "w_copy w n =
     (if \<not> w_need w n then bad DROP_RDATA
      else obind
        (case wout w of None \<Rightarrow> Ok w
         | Some o1 \<Rightarrow> if wosz w < length o1 + n then Err (ELPIS_ETRUNC, DROP_RDATA)
                     else obind (fetch_bytes (wwire w) (wpos w) n) (\<lambda>b. Ok (w\<lparr>wout := Some (o1 @ b)\<rparr>)))
        (\<lambda>w1. Ok (w1\<lparr>wpos := wpos w + n\<rparr>)))"

definition w_name :: "walk_t \<Rightarrow> bool \<Rightarrow> walk_t parsed" where
  "w_name w fl =
     (case elpis_name_parse (wwire w) (wpos w) of
        Fault \<Rightarrow> Fault
      | Err (rc, d) \<Rightarrow> bad d
      | Ok (n0, e) \<Rightarrow>
        if wstop w < e then bad DROP_RDATA
        else let n = (if fl \<and> wdown w then elpis_name_lower n0 else n0) in
          obind (w_emit w (take (nlen n) (nd n))) (\<lambda>w1. Ok (w1\<lparr>wpos := e\<rparr>)))"

definition w_str :: "walk_t \<Rightarrow> walk_t parsed" where
  "w_str w =
     (if \<not> w_need w 1 then bad DROP_RDATA
      else obind (fetch (wwire w) (wpos w)) (\<lambda>l. w_copy w (1 + unat l)))"

definition wframe :: "walk_t \<Rightarrow> walk_t \<Rightarrow> bool" where
  "wframe w w' \<longleftrightarrow> wwire w' = wwire w \<and> wstop w' = wstop w \<and> wosz w' = wosz w \<and> wdown w' = wdown w \<and>
     (wout w' = None \<longleftrightarrow> wout w = None)"

lemma w_emit_Ok: "w_emit w b = Ok w' \<Longrightarrow> wframe w w' \<and> wpos w' = wpos w"
  by (auto simp: w_emit_def wframe_def split: option.splits if_splits)

lemma w_copy_Ok: "w_copy w n = Ok w' \<Longrightarrow> wframe w w' \<and> wpos w' = wpos w + n \<and> wpos w' \<le> wstop w"
  by (auto simp: w_copy_def wframe_def w_need_def split: option.splits if_splits)

lemma w_name_Ok: "w_name w fl = Ok w' \<Longrightarrow> wframe w w' \<and> wpos w < wpos w' \<and> wpos w' \<le> wstop w"
  by (auto simp: w_name_def Let_def wframe_def dest!: w_emit_Ok name_parse_Ok split: outcome.splits if_splits)

lemma w_str_Ok: "w_str w = Ok w' \<Longrightarrow> wframe w w' \<and> wpos w < wpos w' \<and> wpos w' \<le> wstop w"
  by (auto simp: w_str_def dest!: w_copy_Ok split: if_splits)

lemmas walk_progress = w_copy_Ok w_name_Ok w_str_Ok

function walk_strs :: "walk_t \<Rightarrow> walk_t parsed" where
  "walk_strs w = (if wpos w < wstop w then obind (w_str w) walk_strs else Ok w)"
  by pat_completeness auto
termination
  by (relation "measure (\<lambda>w. wstop w - wpos w)") (auto dest!: walk_progress simp: wframe_def)

function walk_names :: "walk_t \<Rightarrow> walk_t parsed" where
  "walk_names w = (if wpos w < wstop w then obind (w_name w False) walk_names else Ok w)"
  by pat_completeness auto
termination
  by (relation "measure (\<lambda>w. wstop w - wpos w)") (auto dest!: walk_progress simp: wframe_def)

function walk_apl :: "walk_t \<Rightarrow> walk_t parsed" where
  "walk_apl w =
     (if wpos w < wstop w then
        if \<not> w_need w 4 then bad DROP_RDATA
        else obind (fetch (wwire w) (wpos w + 3)) (\<lambda>b3. obind (fetch (wwire w) (wpos w + 2)) (\<lambda>b2.
          if 128 < b2 then bad DROP_RDATA
          else obind (w_copy w (4 + unat (b3 AND 0x7F))) walk_apl))
      else Ok w)"
  by pat_completeness auto
termination
  by (relation "measure (\<lambda>w. wstop w - wpos w)") (auto dest!: walk_progress simp: wframe_def)

function walk_svc :: "int \<Rightarrow> walk_t \<Rightarrow> walk_t parsed" where
  "walk_svc prev w =
     (if wpos w < wstop w then
        if \<not> w_need w 4 then bad DROP_RDATA
        else obind (elpis_get16 (wwire w) (wpos w)) (\<lambda>key. obind (elpis_get16 (wwire w) (wpos w + 2)) (\<lambda>vlen.
          if int (unat key) \<le> prev then bad DROP_RDATA
          else obind (w_copy w (4 + unat vlen)) (walk_svc (int (unat key)))))
      else Ok w)"
  by pat_completeness auto
termination
  by (relation "measure (\<lambda>(prev, w). wstop w - wpos w)") (auto dest!: walk_progress simp: wframe_def)

declare walk_strs.simps [simp del] walk_names.simps [simp del] walk_apl.simps [simp del] walk_svc.simps [simp del]

definition w_rest :: "walk_t \<Rightarrow> walk_t parsed" where
  "w_rest w = w_copy w (wstop w - wpos w)"

text \<open>The gateway or relay that IPSECKEY and AMTRELAY select by an octet.\<close>

definition w_gateway :: "walk_t \<Rightarrow> nat \<Rightarrow> walk_t parsed" where
  "w_gateway w g =
     (if g = 0 then Ok w else if g = 1 then w_copy w 4 else if g = 2 then w_copy w 16
      else if g = 3 then w_name w False else bad DROP_RDATA)"

fun walk_field :: "rdf \<Rightarrow> walk_t \<Rightarrow> walk_t parsed" where
  "walk_field RDF_U8 w = w_copy w 1"
| "walk_field RDF_U16 w = w_copy w 2"
| "walk_field RDF_U32 w = w_copy w 4"
| "walk_field RDF_U48 w = w_copy w 6"
| "walk_field RDF_U64 w = w_copy w 8"
| "walk_field RDF_A w = w_copy w 4"
| "walk_field RDF_AAAA w = w_copy w 16"
| "walk_field RDF_NAME w = w_name w True"
| "walk_field RDF_NAME_UNC w = w_name w True"
| "walk_field RDF_STR w = w_str w"
| "walk_field RDF_STRS w = walk_strs w"
| "walk_field RDF_BLOB w = w_rest w"
| "walk_field RDF_BLOB1 w = (if wstop w \<le> wpos w then bad DROP_RDATA else w_rest w)"
| "walk_field RDF_BITMAP w =
     (case elpis_bitmap_validate (take (wstop w - wpos w) (drop (wpos w) (wwire w))) of
        Ok _ \<Rightarrow> w_rest w | Err _ \<Rightarrow> bad DROP_RDATA | Fault \<Rightarrow> Fault)"
| "walk_field RDF_NSEC3_SALT w = w_str w"
| "walk_field RDF_NSEC3_HASH w =
     (if \<not> w_need w 1 then bad DROP_RDATA
      else obind (fetch (wwire w) (wpos w)) (\<lambda>l. if l = 0 then bad DROP_RDATA else w_copy w (1 + unat l)))"
| "walk_field RDF_LOC w =
     (let rem = wstop w - wpos w in
      if rem < 1 then bad DROP_RDATA
      else obind (fetch (wwire w) (wpos w)) (\<lambda>v. if v = 0 \<and> rem \<noteq> 16 then bad DROP_RDATA else w_copy w rem))"
| "walk_field RDF_WKS w = (if wstop w - wpos w < 5 then bad DROP_RDATA else w_rest w)"
| "walk_field RDF_IPSECKEY w =
     (if \<not> w_need w 3 then bad DROP_RDATA
      else obind (fetch (wwire w) (wpos w + 1)) (\<lambda>g. obind (w_copy w 3) (\<lambda>w1.
        obind (w_gateway w1 (unat g)) (\<lambda>w2. if wpos w2 < wstop w2 then w_rest w2 else Ok w2))))"
| "walk_field RDF_HIP w =
     (if \<not> w_need w 4 then bad DROP_RDATA
      else obind (fetch (wwire w) (wpos w)) (\<lambda>hitlen. obind (elpis_get16 (wwire w) (wpos w + 2)) (\<lambda>pklen.
        if hitlen = 0 \<or> pklen = 0 then bad DROP_RDATA
        else obind (w_copy w (4 + unat hitlen + unat pklen)) walk_names)))"
| "walk_field RDF_APL w = walk_apl w"
| "walk_field RDF_AMTRELAY w =
     (if \<not> w_need w 2 then bad DROP_RDATA
      else obind (fetch (wwire w) (wpos w + 1)) (\<lambda>r. obind (w_copy w 2) (\<lambda>w1.
        w_gateway w1 (unat (r AND 0x7F)))))"
| "walk_field RDF_SVCPARAMS w = walk_svc (- 1) w"

fun walk :: "rdf list \<Rightarrow> walk_t \<Rightarrow> walk_t parsed" where
  "walk [] w = (if wpos w \<noteq> wstop w then bad DROP_RDATA else Ok w)"
| "walk (f # fs) w = obind (walk_field f w) (walk fs)"

definition elpis_rdata_validate :: "u16 \<Rightarrow> buffer \<Rightarrow> nat \<Rightarrow> u16 \<Rightarrow> unit parsed" where
  "elpis_rdata_validate t msg off len =
     (if length msg < off + unat len then bad DROP_RDLEN
      else (case desc_of t of None \<Rightarrow> Ok ()
            | Some (_, _, fs, _) \<Rightarrow>
              (case walk fs \<lparr>wwire = msg, wpos = off, wstop = off + unat len, wout = None, wosz = 0, wdown = False\<rparr> of
                 Ok _ \<Rightarrow> Ok () | Err (_, d) \<Rightarrow> bad d | Fault \<Rightarrow> Fault)))"

definition elpis_rdata_canonical ::
  "u16 \<Rightarrow> buffer \<Rightarrow> nat \<Rightarrow> u16 \<Rightarrow> nat \<Rightarrow> bool \<Rightarrow> (elpis_rc, buffer) outcome" where
  "elpis_rdata_canonical t msg off len outsz downcase =
     (if length msg < off + unat len then Err ELPIS_EFORMAT
      else (case desc_of t of
              None \<Rightarrow> if outsz < unat len then Err ELPIS_ETRUNC else fetch_bytes msg off (unat len)
            | Some (_, _, fs, d) \<Rightarrow>
              obind (on_err fst (walk fs \<lparr>wwire = msg, wpos = off, wstop = off + unat len, wout = Some [],
                  wosz = outsz, wdown = (downcase \<and> d)\<rparr>)) (\<lambda>w. Ok (the (wout w)))))"

subsection \<open>Targets and presentation format\<close>

text \<open>The three character strings of NAPTR data, from \<open>p\<close> on.\<close>

fun naptr_skip :: "nat \<Rightarrow> buffer \<Rightarrow> nat \<Rightarrow> (elpis_rc, nat) outcome" where
  "naptr_skip 0 rd p = Ok p"
| "naptr_skip (Suc i) rd p =
     (if length rd \<le> p then Err ELPIS_EFORMAT
      else obind (fetch rd p) (\<lambda>l. naptr_skip i rd (p + (1 + unat l))))"

definition target_offset :: "u16 \<Rightarrow> buffer \<Rightarrow> (elpis_rc, nat) outcome" where
  "target_offset t rd =
     (if t \<in> {2, 5, 39, 12, 7, 3, 4, 8, 9, 23, 6} then Ok 0
      else if t \<in> {15, 18, 21, 36, 107} then Ok 2
      else if t = 33 then Ok 6
      else if t \<in> {64, 65} then Ok 2
      else if t = 35 then naptr_skip 3 rd 4
      else Err ELPIS_ENOTFOUND)"

definition elpis_rdata_target :: "u16 \<Rightarrow> buffer \<Rightarrow> (elpis_rc, elpis_name) outcome" where
  "elpis_rdata_target t rd =
     obind (target_offset t rd) (\<lambda>off.
       if length rd < off then Err ELPIS_EFORMAT
       else obind (elpis_name_parse_nocomp (drop off rd)) (\<lambda>(n, used). Ok n))"

text \<open>\<open>vsnprintf\<close> at the end of the text, refused when it would be cut.\<close>

definition txt_append :: "nat \<Rightarrow> buffer \<Rightarrow> buffer \<Rightarrow> (elpis_rc, buffer) outcome" where
  "txt_append sz buf t =
     (if sz \<le> length buf then Err ELPIS_ETRUNC
      else if sz - length buf \<le> length t then Err ELPIS_ETRUNC
      else Ok (buf @ t))"

definition hex_append :: "nat \<Rightarrow> buffer \<Rightarrow> buffer \<Rightarrow> (elpis_rc, buffer) outcome" where
  "hex_append sz buf p =
     (if sz < length buf + length p * 2 + 1 then Err ELPIS_ETRUNC
      else Ok (buf @ concat (map (\<lambda>c. [hexchar (unat (drop_bit 4 c)), hexchar (unat (c AND 0x0F))]) p)))"

definition txt_char :: "byte \<Rightarrow> buffer" where
  "txt_char c =
     (if 0x20 \<le> c \<and> c < 0x7F \<and> c \<noteq> 0x22 \<and> c \<noteq> 0x5C then [c]
      else [0x5C, 48 + c div 100, 48 + (c div 10) mod 10, 48 + c mod 10])"

fun txt_chars :: "nat \<Rightarrow> buffer \<Rightarrow> buffer \<Rightarrow> (elpis_rc, buffer) outcome" where
  "txt_chars sz buf [] = Ok buf"
| "txt_chars sz buf (c # cs) = obind (txt_append sz buf (txt_char c)) (\<lambda>b. txt_chars sz b cs)"

function txt_strings :: "nat \<Rightarrow> buffer \<Rightarrow> nat \<Rightarrow> buffer \<Rightarrow> (elpis_rc, buffer) outcome" where
  "txt_strings sz rd p buf =
     (if p < length rd then
        obind (fetch rd p) (\<lambda>l.
          if length rd < p + 1 + unat l then Ok buf
          else obind (txt_append sz buf ((if p \<noteq> 0 then [0x20] else []) @ [0x22])) (\<lambda>b1.
            obind (fetch_bytes rd (p + 1) (unat l)) (\<lambda>cs.
            obind (txt_chars sz b1 cs) (\<lambda>b2.
            obind (txt_append sz b2 [0x22]) (\<lambda>b3. txt_strings sz rd (p + (1 + unat l)) b3)))))
      else Ok buf)"
  by pat_completeness auto
termination
  by (relation "measure (\<lambda>(sz, rd, p, buf). length rd - p)") auto

declare txt_strings.simps [simp del]

text \<open>
  The text of a name in the local buffer.  The code does not look at the result of
  \<open>elpis_name_to_text\<close>; a failure would leave the buffer unspecified.
\<close>

definition name_txt :: "elpis_name \<Rightarrow> (elpis_rc, buffer) outcome" where
  "name_txt n = (case elpis_name_to_text n (ELPIS_MAX_NAME * 4 + 8) of Ok t \<Rightarrow> Ok t | _ \<Rightarrow> Fault)"

definition generic_text :: "buffer \<Rightarrow> nat \<Rightarrow> (elpis_rc, buffer) outcome" where
  "generic_text rd sz =
     obind (txt_append sz [] (lit [CHR 0x5C, CHR ''#'', CHR '' ''] @ udec (length rd) @ [0x20])) (\<lambda>b. hex_append sz b rd)"

text \<open>Parsing a name in a case of the switch: \<open>break\<close> goes on with the generic form.\<close>

definition name_or_generic ::
  "buffer \<Rightarrow> nat \<Rightarrow> buffer \<Rightarrow> (elpis_name \<Rightarrow> nat \<Rightarrow> (elpis_rc, buffer) outcome) \<Rightarrow> (elpis_rc, buffer) outcome" where
  "name_or_generic rd sz p k =
     (case elpis_name_parse_nocomp p of Ok (n, used) \<Rightarrow> k n used | Err _ \<Rightarrow> generic_text rd sz | Fault \<Rightarrow> Fault)"

definition soa_text :: "buffer \<Rightarrow> nat \<Rightarrow> (elpis_rc, buffer) outcome" where
  "soa_text rd sz =
     name_or_generic rd sz rd (\<lambda>mname u1. name_or_generic rd sz (drop u1 rd) (\<lambda>rname u2.
       if u1 + u2 + 20 \<noteq> length rd then generic_text rd sz
       else obind (name_txt mname) (\<lambda>t1. obind (txt_append sz [] (t1 @ [0x20])) (\<lambda>b.
         obind (name_txt rname) (\<lambda>t2.
         obind (elpis_get32 rd (u1 + u2)) (\<lambda>v0. obind (elpis_get32 rd (u1 + u2 + 4)) (\<lambda>v1.
         obind (elpis_get32 rd (u1 + u2 + 8)) (\<lambda>v2. obind (elpis_get32 rd (u1 + u2 + 12)) (\<lambda>v3.
         obind (elpis_get32 rd (u1 + u2 + 16)) (\<lambda>v4.
           txt_append sz b (t2 @ concat (map (\<lambda>v. [0x20] @ udec (unat v)) [v0, v1, v2, v3, v4]))))))))))))"

definition rrsig_text :: "buffer \<Rightarrow> nat \<Rightarrow> (elpis_rc, buffer) outcome" where
  "rrsig_text rd sz =
     name_or_generic rd sz (drop 18 rd) (\<lambda>n used.
       obind (name_txt n) (\<lambda>t.
       obind (elpis_get16 rd 0) (\<lambda>ty. obind (fetch rd 2) (\<lambda>b2. obind (fetch rd 3) (\<lambda>b3.
       obind (elpis_get32 rd 4) (\<lambda>v4. obind (elpis_get32 rd 8) (\<lambda>v8. obind (elpis_get32 rd 12) (\<lambda>v12.
       obind (elpis_get16 rd 16) (\<lambda>tag.
         txt_append sz [] (elpis_type_name ty @ [0x20] @ udec (unat b2) @ [0x20] @ udec (unat b3) @ [0x20] @
           udec (unat v4) @ [0x20] @ udec (unat v8) @ [0x20] @ udec (unat v12) @ [0x20] @ udec (unat tag) @ [0x20] @
           t @ lit '' <'' @ udec (length rd - 18 - used) @ lit ''-byte sig>''))))))))))"

definition elpis_rdata_to_text :: "u16 \<Rightarrow> buffer \<Rightarrow> nat \<Rightarrow> (elpis_rc, buffer) outcome" where
  "elpis_rdata_to_text t rd sz =
     (if sz = 0 then Err ELPIS_ETRUNC
      else if t = 1 then
        (if length rd \<noteq> 4 then generic_text rd sz
         else (case elpis_ntop4 rd (ELPIS_MAX_NAME * 4 + 8) of None \<Rightarrow> generic_text rd sz
               | Some s \<Rightarrow> txt_append sz [] s))
      else if t = 28 then
        (if length rd \<noteq> 16 then generic_text rd sz
         else (case elpis_ntop6 rd (ELPIS_MAX_NAME * 4 + 8) of None \<Rightarrow> generic_text rd sz
               | Some s \<Rightarrow> txt_append sz [] s))
      else if t \<in> {2, 5, 12, 39} then
        name_or_generic rd sz rd (\<lambda>n used. obind (name_txt n) (txt_append sz []))
      else if t = 15 then
        (if length rd < 3 then generic_text rd sz
         else name_or_generic rd sz (drop 2 rd) (\<lambda>n used. obind (name_txt n) (\<lambda>s.
           obind (elpis_get16 rd 0) (\<lambda>p. txt_append sz [] (udec (unat p) @ [0x20] @ s)))))
      else if t = 6 then soa_text rd sz
      else if t = 33 then
        (if length rd < 7 then generic_text rd sz
         else name_or_generic rd sz (drop 6 rd) (\<lambda>n used. obind (name_txt n) (\<lambda>s.
           obind (elpis_get16 rd 0) (\<lambda>a. obind (elpis_get16 rd 2) (\<lambda>b. obind (elpis_get16 rd 4) (\<lambda>c.
             txt_append sz [] (udec (unat a) @ [0x20] @ udec (unat b) @ [0x20] @ udec (unat c) @ [0x20] @ s)))))))
      else if t \<in> {16, 99} then txt_strings sz rd 0 []
      else if t \<in> {43, 59} then
        (if length rd < 5 then generic_text rd sz
         else obind (elpis_get16 rd 0) (\<lambda>tag. obind (fetch rd 2) (\<lambda>b2. obind (fetch rd 3) (\<lambda>b3.
           obind (txt_append sz [] (udec (unat tag) @ [0x20] @ udec (unat b2) @ [0x20] @ udec (unat b3) @ [0x20]))
             (\<lambda>b. hex_append sz b (drop 4 rd))))))
      else if t \<in> {48, 60} then
        (if length rd < 5 then generic_text rd sz
         else obind (elpis_get16 rd 0) (\<lambda>fl. obind (fetch rd 2) (\<lambda>b2. obind (fetch rd 3) (\<lambda>b3.
           txt_append sz [] (udec (unat fl) @ [0x20] @ udec (unat b2) @ [0x20] @ udec (unat b3) @ lit '' <'' @
             udec (length rd - 4) @ lit ''-byte key>'')))))
      else if t \<in> {46, 24} then
        (if length rd < 18 then generic_text rd sz else rrsig_text rd sz)
      else generic_text rd sz)"

section \<open>The descriptor table\<close>

lemma k_desc_sorted: "sorted_wrt (\<lambda>a b. fst a < fst b) k_desc"
  by code_simp

lemma k_desc_less: "i < j \<Longrightarrow> j < length k_desc \<Longrightarrow> fst (k_desc ! i) < fst (k_desc ! j)"
  by (rule sorted_wrt_nth_less [OF k_desc_sorted])

lemma desc_search_Some: "hi \<le> length k_desc \<Longrightarrow> desc_search t lo hi = Some d \<Longrightarrow> d \<in> set k_desc \<and> fst d = t"
proof (induction t lo hi rule: desc_search.induct)
  case (1 t lo hi)
  then show ?case
    by (subst (asm) (3) desc_search.simps) (auto simp: Let_def split: if_splits)
qed

lemma desc_search_None:
  "hi \<le> length k_desc \<Longrightarrow> desc_search t lo hi = None \<Longrightarrow> lo \<le> i \<Longrightarrow> i < hi \<Longrightarrow> fst (k_desc ! i) \<noteq> t"
proof (induction t lo hi rule: desc_search.induct)
  case (1 t lo hi)
  let ?mid = "lo + (hi - lo) div 2"
  have lt: "lo < hi" using 1(5,6) by simp
  then have mid: "?mid < hi" "lo \<le> ?mid" by auto
  have ne: "fst (k_desc ! ?mid) \<noteq> t"
    using 1(4) lt by (subst (asm) desc_search.simps) (auto simp: Let_def split: if_splits)
  show ?case
  proof (cases "fst (k_desc ! ?mid) < t")
    case True
    then have r: "desc_search t (?mid + 1) hi = None"
      using 1(4) lt ne by (subst (asm) desc_search.simps) (auto simp: Let_def split: if_splits)
    show ?thesis
    proof (cases "?mid + 1 \<le> i")
      case False
      then have "i = ?mid \<or> fst (k_desc ! i) < fst (k_desc ! ?mid)" using k_desc_less [of i ?mid] mid 1(3) by fastforce
      then show ?thesis using True ne by auto
    qed (use 1(1) [OF lt refl ne True 1(3) r _ 1(6)] in simp)
  next
    case False
    then have r: "desc_search t lo ?mid = None"
      using 1(4) lt ne by (subst (asm) desc_search.simps) (auto simp: Let_def split: if_splits)
    show ?thesis
    proof (cases "i < ?mid")
      case False
      then have "i = ?mid \<or> fst (k_desc ! ?mid) < fst (k_desc ! i)" using k_desc_less [of ?mid i] mid 1(3,6) by fastforce
      then show ?thesis using \<open>\<not> fst (k_desc ! ?mid) < t\<close> ne by auto
    qed (use 1(2) [OF lt refl ne False _ r 1(5)] mid 1(3) in simp)
  qed
qed

lemma desc_of_iff: "desc_of t = Some d \<longleftrightarrow> d \<in> set k_desc \<and> fst d = t"
proof
  assume "desc_of t = Some d"
  then show "d \<in> set k_desc \<and> fst d = t" using desc_search_Some [of "length k_desc" t 0 d] by (simp add: desc_of_def)
next
  assume d: "d \<in> set k_desc \<and> fst d = t"
  then obtain i where i: "i < length k_desc" "k_desc ! i = d" by (auto simp: in_set_conv_nth)
  then have "desc_of t \<noteq> None" using desc_search_None [of "length k_desc" t 0 i] d unfolding desc_of_def by blast
  then obtain e where e: "desc_of t = Some e" by blast
  then have "e \<in> set k_desc" "fst e = t" using desc_search_Some [of "length k_desc" t 0 e] by (auto simp: desc_of_def)
  then obtain j where j: "j < length k_desc" "k_desc ! j = e" by (auto simp: in_set_conv_nth)
  have "i = j" using k_desc_less [of i j] k_desc_less [of j i] i j d \<open>fst e = t\<close> by (metis less_irrefl linorder_neqE_nat)
  then show "desc_of t = Some d" using e i j by simp
qed

section \<open>Mnemonics\<close>

lemma ascii_lower_zero: "c \<noteq> 0 \<Longrightarrow> ascii_lower c \<noteq> 0"
  by (auto simp: ascii_lower_def word_le_nat_alt unat_arith_simps split: if_splits)

lemma strcasecmp_zero:
  "0 \<notin> set a \<Longrightarrow> 0 \<notin> set b \<Longrightarrow> elpis_strcasecmp_ascii a b = 0 \<longleftrightarrow> map ascii_lower a = map ascii_lower b"
proof (induction a b rule: elpis_strcasecmp_ascii.induct)
  case (2 a as)
  then have "ascii_lower a \<noteq> 0" using ascii_lower_zero [of a] by simp
  then have "unat (ascii_lower a) \<noteq> 0" by (simp only: word_unat_eq_iff unsigned_0) simp
  then show ?case by (simp only: elpis_strcasecmp_ascii.simps of_nat_eq_0_iff list.map list.distinct simp_thms)
next
  case (3 b bs)
  then have "ascii_lower b \<noteq> 0" using ascii_lower_zero [of b] by simp
  then have "unat (ascii_lower b) \<noteq> 0" by (simp only: word_unat_eq_iff unsigned_0) simp
  then show ?case
    by (simp only: elpis_strcasecmp_ascii.simps neg_equal_0_iff_equal of_nat_eq_0_iff list.map list.distinct simp_thms)
next
  case (4 a as b bs)
  have "int (unat (ascii_lower a)) - int (unat (ascii_lower b)) = 0 \<longleftrightarrow> ascii_lower a = ascii_lower b"
    by (simp only: right_minus_eq of_nat_eq_iff word_unat_eq_iff)
  then show ?case using 4 by (cases "ascii_lower a = ascii_lower b") (simp_all only: elpis_strcasecmp_ascii.simps if_True if_False list.map list.inject list.set insert_iff simp_thms de_Morgan_disj)
qed simp

definition names :: "(u16 \<times> buffer) list" where
  "names = map (\<lambda>(t, n, _). (t, n)) k_desc @ k_meta"

lemma names_ok:
  "list_all (\<lambda>(t, n). 0 \<notin> set n \<and> \<not> has_letters ''TYPE'' n) names"
  "distinct (map (map ascii_lower \<circ> snd) names)" "distinct (map fst names)"
  by code_simp+

lemma names_nz: "(t, n) \<in> set names \<Longrightarrow> 0 \<notin> set n \<and> \<not> has_letters ''TYPE'' n"
  using names_ok(1) unfolding list_all_iff by blast

lemma names_inj: "inj_on (map ascii_lower \<circ> snd) (set names)"
  using names_ok(2) by (simp only: distinct_map)

lemma type_parse_names:
  "elpis_type_parse s = (case find (\<lambda>(_, n). elpis_strcasecmp_ascii s n = 0) names of
     Some (t, _) \<Rightarrow> Some t | None \<Rightarrow> if has_letters ''TYPE'' s then parse_u16 (drop 4 s) else None)"
proof -
  have "find P (map f xs) = map_option f (find (P \<circ> f) xs)" for P :: "u16 \<times> buffer \<Rightarrow> bool" and f :: "rr_desc \<Rightarrow> _" and xs
    by (induction xs) auto
  moreover have "find P (xs @ ys) = (case find P xs of None \<Rightarrow> find P ys | Some x \<Rightarrow> Some x)" for P :: "u16 \<times> buffer \<Rightarrow> bool" and xs ys
    by (induction xs) auto
  ultimately show ?thesis
    by (auto simp: elpis_type_parse_def names_def comp_def case_prod_unfold split: option.splits)
qed

lemma type_name_names:
  "elpis_type_name t = (case map_of names t of Some n \<Rightarrow> n | None \<Rightarrow> scratch_text ''TYPE'' (unat t))"
proof -
  have n: "map_of (map (\<lambda>(t, n, _). (t, n)) xs) t = Some n \<longleftrightarrow> (\<exists>d\<in>set xs. fst d = t \<and> fst (snd d) = n)"
    if "distinct (map fst xs)" for xs :: "rr_desc list" and n
    using that by (induction xs) (auto simp: case_prod_unfold image_iff)
  have "distinct (map fst k_desc)" using names_ok(3) by (simp add: names_def comp_def case_prod_unfold)
  note n = n [OF this]
  have d: "map_of (map (\<lambda>(t, n, _). (t, n)) k_desc) t = map_option (fst \<circ> snd) (desc_of t)"
  proof (cases "desc_of t")
    case None
    then have "map_of (map (\<lambda>(t, n, _). (t, n)) k_desc) t \<noteq> Some x" for x using n desc_of_iff [of t] by auto
    then show ?thesis using None by (cases "map_of (map (\<lambda>(t, n, _). (t, n)) k_desc) t") auto
  next
    case (Some d)
    then show ?thesis using n desc_of_iff [of t d] by auto
  qed
  show ?thesis
  proof (cases "desc_of t")
    case None
    then show ?thesis by (simp add: elpis_type_name_def names_def d map_add_def split: option.split)
  next
    case (Some x)
    have "map_of k_meta t = None"
    proof -
      have "t \<in> fst ` set k_desc" using Some desc_of_iff [of t x] by auto
      then have "t \<notin> fst ` set k_meta" using names_ok(3) by (auto simp: names_def comp_def case_prod_unfold)
      then show ?thesis by (simp add: map_of_eq_None_iff)
    qed
    then show ?thesis using Some by (cases x) (simp add: elpis_type_name_def names_def d map_add_def)
  qed
qed

lemma parse_u16_udec: "parse_u16 (udec (unat (t :: u16))) = Some t"
proof -
  have t: "unat t < 65536" by (rule unat_u16_less)
  define v :: u32 where "v = word_of_nat (unat t)"
  have u: "unat v = unat t" unfolding v_def using t by (subst unat_of_nat) simp
  then have "v \<le> 0xFFFF" using t by (simp add: word_le_nat_alt)
  moreover have "ucast v = t" using u t by (intro word_unat_eq_iff [THEN iffD2]) (simp add: unat_ucast)
  moreover have "elpis_parse_u32 (Some (udec (unat t))) = Some v" unfolding v_def using t by (intro parse_u32_udec) simp
  ultimately show ?thesis by (simp add: parse_u16_def)
qed

lemma scratch_text_u16: "length pre \<le> 5 \<Longrightarrow> scratch_text pre (unat (t :: u16)) = lit pre @ udec (unat t)"
  using length_udec [of "unat t" 5] unat_u16_less [of t] by (simp add: scratch_text_def lit_def)

lemma find_unique:
  "x \<in> set xs \<Longrightarrow> P x \<Longrightarrow> (\<And>y. y \<in> set xs \<Longrightarrow> P y \<Longrightarrow> y = x) \<Longrightarrow> find P xs = Some x"
proof (induction xs)
  case (Cons a xs)
  show ?case
  proof (cases "P a")
    case True
    then show ?thesis using Cons.prems(3) [of a] by simp
  next
    case False
    then have "x \<in> set xs" using Cons.prems(1,2) by auto
    then have "find P xs = Some x" by (rule Cons.IH) (rule Cons.prems(2), rule Cons.prems(3), simp_all)
    then show ?thesis using False by simp
  qed
qed simp

lemma find_names: "(t, n) \<in> set names \<Longrightarrow> find (\<lambda>(_, m). elpis_strcasecmp_ascii n m = 0) names = Some (t, n)"
proof -
  assume n: "(t, n) \<in> set names"
  have e: "elpis_strcasecmp_ascii n m = 0 \<longleftrightarrow> map ascii_lower n = map ascii_lower m" if "(t', m) \<in> set names" for t' m
    using names_nz [OF n] names_nz [OF that] by (intro strcasecmp_zero) simp_all
  have u: "y = (t, n)" if "y \<in> set names" "map ascii_lower n = map ascii_lower (snd y)" for y
    by (rule inj_onD [OF names_inj _ that(1) n]) (simp add: that(2))
  show ?thesis
  proof (rule find_unique [OF n])
    show "case (t, n) of (_, m) \<Rightarrow> elpis_strcasecmp_ascii n m = 0" using e [OF n] by simp
  next
    fix y assume y: "y \<in> set names" "case y of (_, m) \<Rightarrow> elpis_strcasecmp_ascii n m = 0"
    then show "y = (t, n)" using e [of "fst y" "snd y"] u [OF y(1)] by (simp add: case_prod_unfold)
  qed
qed

lemma generic_type_new: "list_all (\<lambda>(_, n). elpis_strcasecmp_ascii (lit ''TYPE'' @ udec k) n \<noteq> 0) names"
proof -
  have "elpis_strcasecmp_ascii (lit ''TYPE'' @ udec k) n \<noteq> 0" if "(t, n) \<in> set names" for t n
  proof
    assume z: "elpis_strcasecmp_ascii (lit ''TYPE'' @ udec k) n = 0"
    have nz: "0 \<notin> set n" "\<not> has_letters ''TYPE'' n" using names_nz that by blast+
    have "0 \<notin> set (lit ''TYPE'' @ udec k)" using udec_set [of 0 k] by (auto simp: lit_def is_digit_def)
    then have m: "map ascii_lower (lit ''TYPE'' @ udec k) = map ascii_lower n" using z nz(1) strcasecmp_zero by blast
    have "length n = 4 + length (udec k)" using arg_cong [OF m, of length] by (simp only: length_map) (simp add: lit_def)
    moreover have "udec k \<noteq> []" using udec_digits [of k 0] by simp
    moreover have "map ascii_lower (take 4 n) = map ascii_lower (lit ''TYPE'')"
      using arg_cong [OF m, of "take 4"] by (simp add: take_map lit_def)
    ultimately show False using nz(2) by (simp add: has_letters_def numeral_eq_Suc)
  qed
  then show ?thesis by (auto simp: list_all_iff)
qed

text \<open>
  Property C28.  Every type number has a text, the mnemonic of the table or the generic TYPE form of RFC 3597, and
  parsing that text gives the number back; so no mnemonic hides another and none can be mistaken for a generic form.
\<close>

theorem type_name_roundtrip: "elpis_type_parse (elpis_type_name t) = Some t"
proof (cases "map_of names t")
  case (Some n)
  then have "(t, n) \<in> set names" by (rule map_of_SomeD)
  then show ?thesis using Some find_names by (simp add: type_parse_names type_name_names)
next
  case None
  let ?s = "lit ''TYPE'' @ udec (unat t)"
  have "find (\<lambda>(_, n). elpis_strcasecmp_ascii ?s n = 0) names = None"
    using generic_type_new [of "unat t"] by (auto simp: find_None_iff list_all_iff)
  moreover have "has_letters ''TYPE'' ?s" "drop 4 ?s = udec (unat t)"
    using udec_digits [of "unat t" 0] by (simp_all add: has_letters_def lit_def)
  ultimately show ?thesis
    using None by (simp add: type_parse_names type_name_names scratch_text_u16 parse_u16_udec)
qed

section \<open>Bitmaps as windows\<close>

definition enc_window :: "byte \<times> buffer \<Rightarrow> buffer" where
  "enc_window w = fst w # word_of_nat (length (snd w)) # snd w"

definition enc_windows :: "(byte \<times> buffer) list \<Rightarrow> buffer" where
  "enc_windows ws = concat (map enc_window ws)"

lemma enc_windows_simps [simp]: "enc_windows [] = []" "enc_windows (w # ws) = enc_window w @ enc_windows ws"
  by (simp_all add: enc_windows_def)

text \<open>Windows of 1 to 32 octets in strictly increasing order, all above \<open>prev\<close>.\<close>

fun windows_ok :: "int \<Rightarrow> (byte \<times> buffer) list \<Rightarrow> bool" where
  "windows_ok prev [] = True"
| "windows_ok prev (w # ws) =
     (prev < int (unat (fst w)) \<and> 1 \<le> length (snd w) \<and> length (snd w) \<le> 32 \<and> windows_ok (int (unat (fst w))) ws)"

lemma bitmap_validate_loop_simps [simp]:
  "length bm \<le> i \<Longrightarrow> bitmap_validate_loop bm i prev = Ok ()"
  by (simp add: bitmap_validate_loop.simps)

lemma bitmap_validate_loop_enc:
  "drop i bm = enc_windows ws \<Longrightarrow> i \<le> length bm \<Longrightarrow> windows_ok prev ws \<Longrightarrow> bitmap_validate_loop bm i prev = Ok ()"
proof (induction ws arbitrary: i prev)
  case (Cons w ws)
  let ?n = "length (snd w)"
  have d: "drop i bm = fst w # word_of_nat ?n # snd w @ enc_windows ws" using Cons.prems(1) by (simp add: enc_window_def)
  have len: "i + 2 + ?n \<le> length bm" using arg_cong [OF d, of length] Cons.prems(2) by simp
  have b: "bm ! i = fst w" "bm ! (i + 1) = word_of_nat ?n"
    using arg_cong [OF d, of "\<lambda>x. x ! 0"] arg_cong [OF d, of "\<lambda>x. x ! 1"] len by simp_all
  have n: "unat (word_of_nat ?n :: byte) = ?n" "(word_of_nat ?n :: byte) \<noteq> 0" "\<not> 32 < (word_of_nat ?n :: byte)"
    using Cons.prems(3) by (auto simp: word_less_nat_alt word_unat_eq_iff)
  have "drop (i + (2 + ?n)) bm = enc_windows ws"
    using arg_cong [OF d, of "drop (2 + ?n)"] by (simp add: add.commute)
  then have "bitmap_validate_loop bm (i + (2 + ?n)) (int (unat (fst w))) = Ok ()"
    using Cons.prems(3) len by (intro Cons.IH) auto
  then show ?case using b n len Cons.prems(3) by (subst bitmap_validate_loop.simps) simp
qed simp

lemma bitmap_validate_loop_dec:
  "bitmap_validate_loop bm i prev = Ok () \<Longrightarrow> i \<le> length bm \<Longrightarrow> \<exists>ws. drop i bm = enc_windows ws \<and> windows_ok prev ws"
proof (induction bm i prev rule: bitmap_validate_loop.induct)
  case (1 bm i prev)
  show ?case
  proof (cases "i < length bm")
    case False
    then show ?thesis using 1(3) by (intro exI [of _ "[]"]) simp
  next
    case True
    let ?w = "bm ! i" and ?l = "bm ! (i + 1)"
    have c: "i + 2 \<le> length bm" "?l \<noteq> 0" "\<not> 32 < ?l" "prev < int (unat ?w)" "i + 2 + unat ?l \<le> length bm"
      "bitmap_validate_loop bm (i + (2 + unat ?l)) (int (unat ?w)) = Ok ()"
      using 1(2) True by (subst (asm) bitmap_validate_loop.simps; auto split: if_splits)+
    obtain ws where ws: "drop (i + (2 + unat ?l)) bm = enc_windows ws" "windows_ok (int (unat ?w)) ws"
      using 1(1) [of ?w ?l] True c by auto
    let ?bs = "take (unat ?l) (drop (i + 2) bm)"
    have "drop i bm = ?w # ?l # drop (i + 2) bm" using c(1) by (simp add: Cons_nth_drop_Suc)
    moreover have "drop (i + 2) bm = ?bs @ enc_windows ws"
      using ws(1) append_take_drop_id [of "unat ?l" "drop (i + 2) bm"] by (simp add: ac_simps)
    moreover have "length ?bs = unat ?l" using c(5) by simp
    ultimately have "drop i bm = enc_windows ((?w, ?bs) # ws)" by (simp add: enc_window_def)
    moreover have "windows_ok prev ((?w, ?bs) # ws)"
      using c ws(2) \<open>length ?bs = unat ?l\<close> by (auto simp: word_less_nat_alt word_unat_eq_iff not_less Suc_le_eq)
    ultimately show ?thesis by blast
  qed
qed

lemma bitmap_validate_iff: "elpis_bitmap_validate bm = Ok () \<longleftrightarrow> (\<exists>ws. bm = enc_windows ws \<and> windows_ok (- 1) ws)"
  using bitmap_validate_loop_dec [of bm 0 "- 1"] bitmap_validate_loop_enc [of 0 bm _ "- 1"] by (auto simp: elpis_bitmap_validate_def)

lemma bitmap_validate_errors:
  "bitmap_validate_loop bm i prev \<noteq> Fault \<and> (\<forall>e. bitmap_validate_loop bm i prev = Err e \<longrightarrow> e = ELPIS_EFORMAT)"
proof (induction bm i prev rule: bitmap_validate_loop.induct)
  case (1 bm i prev)
  then show ?case by (subst (1 2) bitmap_validate_loop.simps) auto
qed

text \<open>The type numbers a sequence of windows names.\<close>

definition in_windows :: "(byte \<times> buffer) list \<Rightarrow> nat \<Rightarrow> bool" where
  "in_windows ws t \<longleftrightarrow> (\<exists>w \<in> set ws. unat (fst w) = t div 256 \<and> t mod 256 div 8 < length (snd w) \<and>
     bit (snd w ! (t mod 256 div 8)) (7 - t mod 8))"

lemma windows_above: "windows_ok prev ws \<Longrightarrow> w \<in> set ws \<Longrightarrow> prev < int (unat (fst w))"
  by (induction ws arbitrary: prev) (auto intro: less_trans)

lemma drop_bit_and_1: "drop_bit k b AND 1 \<noteq> 0 \<longleftrightarrow> bit (b :: byte) k"
  by (simp add: bit_iff_odd_drop_bit and_one_eq odd_iff_mod_2_eq_one)

lemma type_parts: "unat (drop_bit 8 t) = unat t div 256" "unat (t AND 0xFF) = unat t mod 256" for t :: u16
proof -
  show "unat (drop_bit 8 t) = unat t div 256" by (simp only: unat_drop_bit_eq) (simp add: drop_bit_eq_div)
  have "t AND 0xFF = take_bit 8 t" by (simp add: take_bit_eq_mask mask_eq_exp_minus_1)
  then show "unat (t AND 0xFF) = unat t mod 256" by (simp only: unsigned_take_bit_eq) (simp add: take_bit_eq_mod)
qed

lemma bitmap_has_loop_enc:
  "drop i bm = enc_windows ws \<Longrightarrow> i \<le> length bm \<Longrightarrow> windows_ok prev ws \<Longrightarrow>
   bitmap_has_loop bm t i = Ok (in_windows ws (unat t))"
proof (induction ws arbitrary: i prev)
  case Nil
  then show ?case by (simp add: bitmap_has_loop.simps in_windows_def)
next
  case (Cons w ws)
  let ?n = "length (snd w)" and ?b = "unat t mod 256 div 8"
  have d: "drop i bm = fst w # word_of_nat ?n # snd w @ enc_windows ws" using Cons.prems(1) by (simp add: enc_window_def)
  have len: "i + 2 + ?n \<le> length bm" using arg_cong [OF d, of length] Cons.prems(2) by simp
  have b: "bm ! i = fst w" "bm ! (i + 1) = word_of_nat ?n"
    using arg_cong [OF d, of "\<lambda>x. x ! 0"] arg_cong [OF d, of "\<lambda>x. x ! 1"] len by simp_all
  have o: "bm ! (i + 2 + k) = snd w ! k" if "k < ?n" for k
    using arg_cong [OF d, of "\<lambda>x. x ! (2 + k)"] len that by (simp add: nth_append add.assoc)
  have n: "unat (word_of_nat ?n :: byte) = ?n" "(word_of_nat ?n :: byte) \<noteq> 0" "\<not> 32 < (word_of_nat ?n :: byte)"
    using Cons.prems(3) by (auto simp: word_less_nat_alt word_unat_eq_iff)
  have above: "unat (fst w) < unat (fst v)" if "v \<in> set ws" for v
    using windows_above [OF _ that, of "int (unat (fst w))"] Cons.prems(3)
    by (simp only: windows_ok.simps of_nat_less_iff)
  have "drop (i + (2 + ?n)) bm = enc_windows ws"
    using arg_cong [OF d, of "drop (2 + ?n)"] by (simp add: add.commute)
  then have IH: "bitmap_has_loop bm t (i + (2 + ?n)) = Ok (in_windows ws (unat t))"
    using Cons.prems(3) len by (intro Cons.IH [of _ "int (unat (fst w))"]) auto
  have m8: "unat t mod 256 mod 8 = unat t mod 8" by (simp add: mod_mod_cancel)
  have u: "bitmap_has_loop bm t i = (if unat (fst w) = unat t div 256 then
       (if ?n \<le> ?b then Ok False else Ok (bit (bm ! (i + 2 + ?b)) (7 - unat t mod 8)))
     else if unat t div 256 < unat (fst w) then Ok False else bitmap_has_loop bm t (i + (2 + ?n)))"
    using b n len by (subst bitmap_has_loop.simps) (simp add: type_parts Let_def drop_bit_and_1 m8)
  show ?case
    unfolding u IH using above o [of ?b] by (auto simp: in_windows_def dest: above)
qed

section \<open>Validating and copying agree\<close>

definition walk_ok :: "walk_t \<Rightarrow> bool" where
  "walk_ok w \<longleftrightarrow> wpos w \<le> wstop w \<and> wstop w \<le> length (wwire w)"

text \<open>The walker without output, and one whose output has room for whatever is left if \<open>rm\<close>.\<close>

definition erase :: "walk_t \<Rightarrow> walk_t" where
  "erase w = w\<lparr>wout := None, wosz := 0, wdown := False\<rparr>"

definition room :: "bool \<Rightarrow> walk_t \<Rightarrow> bool" where
  "room rm w \<longleftrightarrow> (\<exists>o1. wout w = Some o1 \<and> (rm \<longrightarrow> length o1 + 255 * (wstop w - wpos w) \<le> wosz w))"

lemma erase_sel [simp]:
  "wwire (erase w) = wwire w" "wpos (erase w) = wpos w" "wstop (erase w) = wstop w" "wout (erase w) = None"
  "w_need (erase w) n = w_need w n"
  by (simp_all add: erase_def w_need_def)

definition agrees :: "bool \<Rightarrow> walk_t parsed \<Rightarrow> walk_t parsed \<Rightarrow> bool" where
  "agrees rm r0 r \<longleftrightarrow>
     (case r of Ok w \<Rightarrow> r0 = Ok (erase w) \<and> room rm w \<and> walk_ok w
      | Err e \<Rightarrow> r0 = Err e \<and> fst e = ELPIS_EFORMAT \<or> \<not> rm \<and> fst e = ELPIS_ETRUNC | Fault \<Rightarrow> False)"

lemma agrees_simps [simp]:
  "agrees rm (bad d) (bad d)" "agrees rm (Ok w0) (Ok w) \<longleftrightarrow> w0 = erase w \<and> room rm w \<and> walk_ok w"
  by (auto simp: agrees_def)

lemma agrees_bind:
  "agrees rm r0 r \<Longrightarrow> (\<And>w. room rm w \<Longrightarrow> walk_ok w \<Longrightarrow> r = Ok w \<Longrightarrow> agrees rm (g0 (erase w)) (g w)) \<Longrightarrow>
   agrees rm (obind r0 g0) (obind r g)"
  by (cases r) (auto simp: agrees_def)

lemma agrees_copy: "walk_ok w \<Longrightarrow> room rm w \<Longrightarrow> agrees rm (w_copy (erase w) n) (w_copy w n)"
proof (cases "w_need w n")
  case True
  assume w: "walk_ok w" "room rm w"
  then obtain o1 where o1: "wout w = Some o1" "rm \<Longrightarrow> length o1 + 255 * (wstop w - wpos w) \<le> wosz w" by (auto simp: room_def)
  have n: "wpos w + n \<le> wstop w" "wstop w \<le> length (wwire w)" using True w(1) by (auto simp: w_need_def walk_ok_def)
  then have sp: "rm \<Longrightarrow> length o1 + n + 255 * (wstop w - (wpos w + n)) \<le> wosz w" using o1(2) by simp
  define w' where "w' = w\<lparr>wout := Some (o1 @ take n (drop (wpos w) (wwire w))), wpos := wpos w + n\<rparr>"
  have c: "w_copy w n = (if wosz w < length o1 + n then Err (ELPIS_ETRUNC, DROP_RDATA) else Ok w')"
    using True o1(1) n by (simp add: w_copy_def w'_def)
  have c0: "w_copy (erase w) n = Ok (erase w')" using True by (simp add: w_copy_def w'_def erase_def w_need_def)
  have "room rm w'" "walk_ok w'" using n sp by (auto simp: w'_def room_def walk_ok_def)
  then show ?thesis using sp unfolding c c0 by (auto simp: agrees_def)
qed (simp add: w_copy_def)

lemma agrees_name: "walk_ok w \<Longrightarrow> room rm w \<Longrightarrow> agrees rm (w_name (erase w) fl) (w_name w fl)"
proof (cases "elpis_name_parse (wwire w) (wpos w)")
  case (Ok x)
  assume w: "walk_ok w" "room rm w"
  obtain n0 e where x: "x = (n0, e)" by fastforce
  have p: "wf_name n0" "wpos w < e" using name_parse_Ok [of "wwire w" "wpos w" n0 e] Ok x by auto
  obtain o1 where o1: "wout w = Some o1" "rm \<Longrightarrow> length o1 + 255 * (wstop w - wpos w) \<le> wosz w" using w(2) by (auto simp: room_def)
  define n where "n = (if fl \<and> wdown w then elpis_name_lower n0 else n0)"
  obtain ls where ls: "n0 = name_of ls" "ok_labels ls" using p(1) by (auto simp: wf_name_def)
  have "n = name_of (if fl \<and> wdown w then fold_labels ls else ls)" using ls by (simp add: n_def name_lower_of)
  then have l: "length (take (nlen n) (nd n)) \<le> 255" using ls(2) ok_fold_labels [of ls] by (auto simp: ok_labels_def)
  show ?thesis
  proof (cases "wstop w < e")
    case True
    then show ?thesis using Ok x by (simp add: w_name_def)
  next
    case False
    then have sp: "rm \<Longrightarrow> length o1 + length (take (nlen n) (nd n)) + 255 * (wstop w - e) \<le> wosz w" using o1(2) p(2) l by simp
    define w' where "w' = w\<lparr>wout := Some (o1 @ take (nlen n) (nd n)), wpos := e\<rparr>"
    have c: "w_name w fl = (if wosz w < length o1 + length (take (nlen n) (nd n)) then Err (ELPIS_ETRUNC, DROP_RDATA) else Ok w')"
      using Ok x False o1(1) by (simp add: w_name_def w_emit_def n_def [symmetric] w'_def Let_def)
    have c0: "w_name (erase w) fl = Ok (erase w')" using Ok x False by (simp add: w_name_def w_emit_def w'_def erase_def Let_def)
    have "room rm w'" "walk_ok w'" using False sp w(1) p(2) by (auto simp: w'_def room_def walk_ok_def)
    then show ?thesis using sp unfolding c c0 by (auto simp: agrees_def)
  qed
next
  case (Err e)
  then show ?thesis by (cases e) (simp add: w_name_def)
next
  case Fault
  then show ?thesis using name_parse_errors(1) [of "wwire w" "wpos w"] by simp
qed

lemma agrees_fetch:
  "walk_ok w \<Longrightarrow> w_need w k \<Longrightarrow> i < wpos w + k \<Longrightarrow> (\<And>b. agrees rm (g0 b) (g b)) \<Longrightarrow>
   agrees rm (obind (fetch (wwire w) i) g0) (obind (fetch (wwire w) i) g)"
  by (simp add: walk_ok_def w_need_def)

lemma agrees_get16:
  "walk_ok w \<Longrightarrow> w_need w k \<Longrightarrow> i + 1 < wpos w + k \<Longrightarrow> (\<And>b. agrees rm (g0 b) (g b)) \<Longrightarrow>
   agrees rm (obind (elpis_get16 (wwire w) i) g0) (obind (elpis_get16 (wwire w) i) g)"
  by (simp add: walk_ok_def w_need_def get16_ok)

lemma agrees_str: "walk_ok w \<Longrightarrow> room rm w \<Longrightarrow> agrees rm (w_str (erase w)) (w_str w)"
  by (auto simp: w_str_def intro: agrees_fetch agrees_copy)

lemma agrees_strs: "walk_ok w \<Longrightarrow> room rm w \<Longrightarrow> agrees rm (walk_strs (erase w)) (walk_strs w)"
proof (induction w rule: walk_strs.induct)
  case (1 w)
  then show ?case
    by (subst (1 2) walk_strs.simps) (auto intro!: agrees_bind agrees_str)
qed

lemma agrees_names: "walk_ok w \<Longrightarrow> room rm w \<Longrightarrow> agrees rm (walk_names (erase w)) (walk_names w)"
proof (induction w rule: walk_names.induct)
  case (1 w)
  then show ?case
    by (subst (1 2) walk_names.simps) (auto intro!: agrees_bind agrees_name)
qed

lemma agrees_apl: "walk_ok w \<Longrightarrow> room rm w \<Longrightarrow> agrees rm (walk_apl (erase w)) (walk_apl w)"
proof (induction w rule: walk_apl.induct)
  case (1 w)
  show ?case
  proof (cases "wpos w < wstop w \<and> w_need w 4")
    case True
    then have "wpos w + 3 < length (wwire w)" "wpos w + 2 < length (wwire w)" using 1(2) by (auto simp: walk_ok_def w_need_def)
    with True 1 show ?thesis
      by (subst (1 2) walk_apl.simps) (auto intro!: agrees_bind agrees_copy)
  qed (use 1(2,3) in \<open>subst (1 2) walk_apl.simps, auto\<close>)
qed

lemma agrees_svc: "walk_ok w \<Longrightarrow> room rm w \<Longrightarrow> agrees rm (walk_svc k (erase w)) (walk_svc k w)"
proof (induction k w rule: walk_svc.induct)
  case (1 prev w)
  show ?case
  proof (cases "wpos w < wstop w \<and> w_need w 4")
    case True
    then have "wpos w + 2 \<le> length (wwire w)" "wpos w + 2 + 2 \<le> length (wwire w)" using 1(2) by (auto simp: walk_ok_def w_need_def)
    with True 1 show ?thesis
      by (subst (1 2) walk_svc.simps) (auto simp: get16_ok intro!: agrees_bind agrees_copy)
  qed (use 1(2,3) in \<open>subst (1 2) walk_svc.simps, auto\<close>)
qed

lemma agrees_gateway: "walk_ok w \<Longrightarrow> room rm w \<Longrightarrow> agrees rm (w_gateway (erase w) g) (w_gateway w g)"
  by (auto simp: w_gateway_def intro: agrees_copy agrees_name)

lemma agrees_rest: "walk_ok w \<Longrightarrow> room rm w \<Longrightarrow> agrees rm (w_rest (erase w)) (w_rest w)"
  by (simp add: w_rest_def agrees_copy)

lemmas agrees_intros = agrees_bind agrees_fetch agrees_get16 agrees_copy agrees_name agrees_str agrees_strs agrees_names
  agrees_apl agrees_svc agrees_gateway agrees_rest

lemma agrees_field: "walk_ok w \<Longrightarrow> room rm w \<Longrightarrow> agrees rm (walk_field f (erase w)) (walk_field f w)"
proof (cases f)
  case RDF_BITMAP
  assume "walk_ok w" "room rm w"
  then show ?thesis using RDF_BITMAP bitmap_validate_errors [of "take (wstop w - wpos w) (drop (wpos w) (wwire w))" 0 "- 1"]
    by (auto simp: elpis_bitmap_validate_def intro!: agrees_rest split: outcome.split)
next
  case RDF_LOC
  assume w: "walk_ok w" "room rm w"
  then have "1 \<le> wstop w - wpos w \<Longrightarrow> wpos w < length (wwire w)" by (auto simp: walk_ok_def)
  then show ?thesis using RDF_LOC w by (auto simp: Let_def intro!: agrees_copy)
qed (auto intro!: agrees_intros)

lemma agrees_walk: "walk_ok w \<Longrightarrow> room rm w \<Longrightarrow> agrees rm (walk fs (erase w)) (walk fs w)"
  by (induction fs arbitrary: w) (auto intro!: agrees_bind agrees_field)

section \<open>Copied data reads back as itself\<close>

text \<open>A step from \<open>w\<close> to \<open>w'\<close> that appends \<open>c\<close> to the output.\<close>

definition emitted :: "walk_t \<Rightarrow> walk_t \<Rightarrow> buffer \<Rightarrow> bool" where
  "emitted w w' c \<longleftrightarrow> wframe w w' \<and> wpos w \<le> wpos w' \<and> wpos w' \<le> wstop w \<and> (wpos w' = wpos w \<longleftrightarrow> c = []) \<and>
     (\<forall>o1. wout w = Some o1 \<longrightarrow> wout w' = Some (o1 @ c))"

lemma emitted_trans: "emitted w w1 a \<Longrightarrow> emitted w1 w2 b \<Longrightarrow> emitted w w2 (a @ b)"
  by (auto simp: emitted_def wframe_def)

lemma emitted_refl: "wpos w \<le> wstop w \<Longrightarrow> emitted w w []"
  by (simp add: emitted_def wframe_def)

lemma emitted_ok: "emitted w w' c \<Longrightarrow> walk_ok w \<Longrightarrow> walk_ok w'"
  by (simp add: emitted_def walk_ok_def wframe_def)

text \<open>The walker over copied data.\<close>

definition wst :: "buffer \<Rightarrow> nat \<Rightarrow> buffer \<Rightarrow> nat \<Rightarrow> bool \<Rightarrow> walk_t" where
  "wst msg p o1 z d = \<lparr>wwire = msg, wpos = p, wstop = length msg, wout = Some o1, wosz = z, wdown = d\<rparr>"

definition replays :: "bool \<Rightarrow> bool \<Rightarrow> (walk_t \<Rightarrow> walk_t parsed) \<Rightarrow> buffer \<Rightarrow> bool" where
  "replays e d f c \<longleftrightarrow> (\<forall>pre r o1 z. (e \<longrightarrow> r = []) \<longrightarrow> length o1 + length c \<le> z \<longrightarrow>
     f (wst (pre @ c @ r) (length pre) o1 z d) = Ok (wst (pre @ c @ r) (length (pre @ c)) (o1 @ c) z d))"

lemma replaysD:
  "replays e d f c \<Longrightarrow> (e \<Longrightarrow> r = []) \<Longrightarrow> length o1 + length c \<le> z \<Longrightarrow> msg = pre @ c @ r \<Longrightarrow> p = length pre \<Longrightarrow>
   f (wst msg p o1 z d) = Ok (wst msg (p + length c) (o1 @ c) z d)"
  by (simp add: replays_def)

lemma wst_sel [simp]:
  "wwire (wst msg p o1 z d) = msg" "wpos (wst msg p o1 z d) = p" "wstop (wst msg p o1 z d) = length msg"
  "w_need (wst msg p o1 z d) n \<longleftrightarrow> p + n \<le> length msg"
  by (simp_all add: wst_def w_need_def)

lemma copy_replays: "replays False d (\<lambda>w. w_copy w (length c)) c"
  by (simp add: replays_def w_copy_def wst_def w_need_def)

lemma copy_wst:
  "length o1 + length c \<le> z \<Longrightarrow> msg = pre @ c @ r \<Longrightarrow> p = length pre \<Longrightarrow> n = length c \<Longrightarrow>
   w_copy (wst msg p o1 z d) n = Ok (wst msg (p + length c) (o1 @ c) z d)"
  using replaysD [OF copy_replays [of d c], of r o1 z msg pre p] by simp

lemma copy_emitted:
  assumes "walk_ok w" and "w_copy w n = Ok w'"
  shows "emitted w w' (take n (drop (wpos w) (wwire w))) \<and> length (take n (drop (wpos w) (wwire w))) = n \<and> wpos w' = wpos w + n"
  using assms by (auto simp: w_copy_def emitted_def wframe_def walk_ok_def w_need_def split: option.splits if_splits)

lemma name_parse_wire:
  assumes "ok_labels ls"
  shows "elpis_name_parse (pre @ wire ls @ r) (length pre) = Ok (name_of ls, length pre + length (wire ls))"
proof -
  have "decodes (pre @ wire ls @ r) (length pre) (length pre) ls 0 (length pre + length (wire ls))"
    using assms by (intro decodes_wire) (auto simp: ok_labels_valid)
  then show ?thesis unfolding parse_iff using assms by (metis bot_nat_0.extremum)
qed

lemma name_replays: "ok_labels ls \<Longrightarrow> (fl \<and> d \<longrightarrow> fold_labels ls = ls) \<Longrightarrow> replays False d (\<lambda>w. w_name w fl) (wire ls)"
  unfolding replays_def
  by (auto simp: w_name_def wst_def w_emit_def name_parse_wire name_lower_of Let_def)

lemma name_emitted:
  assumes "walk_ok w" and "w_name w fl = Ok w'"
  obtains ls where "emitted w w' (wire ls)" and "ok_labels ls" and "fl \<and> wdown w \<longrightarrow> fold_labels ls = ls" and "wpos w < wpos w'"
proof -
  obtain n0 e where n: "elpis_name_parse (wwire w) (wpos w) = Ok (n0, e)" "e \<le> wstop w"
    using assms(2) by (auto simp: w_name_def split: outcome.splits if_splits)
  obtain ms where ms: "n0 = name_of ms" "ok_labels ms" using name_parse_Ok [OF n(1)] by (auto simp: wf_name_def)
  define ls where "ls = (if fl \<and> wdown w then fold_labels ms else ms)"
  have ls: "ok_labels ls" using ms(2) ok_fold_labels by (simp add: ls_def)
  have "(if fl \<and> wdown w then elpis_name_lower n0 else n0) = name_of ls" using ms by (simp add: ls_def name_lower_of)
  then have "emitted w w' (wire ls)"
    using assms(2) n ls name_parse_Ok [OF n(1)]
    by (auto simp: w_name_def w_emit_def Let_def emitted_def wframe_def split: if_splits option.splits)
  moreover have "wpos w < wpos w'" using w_name_Ok [OF assms(2)] by simp
  ultimately show ?thesis using that [of ls] ls by (simp add: ls_def)
qed

text \<open>Reading octets of the copied chunk.\<close>

lemma fetch_wst: "k < length c \<Longrightarrow> fetch (pre @ c @ r) (length pre + k) = Ok (c ! k)"
  by (simp add: fetch_def nth_append)

lemma chunk_nth: "k < n \<Longrightarrow> i + n \<le> length msg \<Longrightarrow> take n (drop i msg) ! k = msg ! (i + k)"
  by simp

text \<open>
  A step whose output, read again by the same step, is copied unchanged; \<open>e\<close> marks the steps that
  consume the data to its end.
\<close>

definition rat :: "bool \<Rightarrow> (walk_t \<Rightarrow> walk_t parsed) \<Rightarrow> walk_t \<Rightarrow> bool" where
  "rat e f w \<longleftrightarrow> (walk_ok w \<longrightarrow> (\<forall>w'. f w = Ok w' \<longrightarrow>
     (\<exists>c. emitted w w' c \<and> replays e (wdown w) f c) \<and> (e \<longrightarrow> wpos w' = wstop w)))"

lemma ratD:
  assumes "rat e f w" and "walk_ok w" and "f w = Ok w'"
  obtains c where "emitted w w' c" and "replays e (wdown w) f c" and "e \<longrightarrow> wpos w' = wstop w"
  using assms unfolding rat_def by blast

lemma ratI:
  "(\<And>w'. walk_ok w \<Longrightarrow> f w = Ok w' \<Longrightarrow> \<exists>c. emitted w w' c \<and> replays e (wdown w) f c \<and> (e \<longrightarrow> wpos w' = wstop w)) \<Longrightarrow> rat e f w"
  unfolding rat_def by blast

lemma rat_copy: "rat False (\<lambda>w. w_copy w n) w"
  by (rule ratI) (metis copy_emitted copy_replays)

lemma rat_name: "rat False (\<lambda>w. w_name w fl) w"
  by (rule ratI) (metis name_emitted name_replays)

lemma replays_bind:
  assumes "replays e1 d f c1" and "replays e d g c2" and "e1 \<Longrightarrow> e \<and> c2 = []"
  shows "replays e d (\<lambda>w. obind (f w) g) (c1 @ c2)"
  unfolding replays_def
proof (intro allI impI)
  fix pre r o1 :: buffer and z
  assume r: "e \<longrightarrow> r = []" and z: "length o1 + length (c1 @ c2) \<le> z"
  let ?m = "pre @ (c1 @ c2) @ r"
  have "f (wst ?m (length pre) o1 z d) = Ok (wst ?m (length pre + length c1) (o1 @ c1) z d)"
    using r z assms(3) by (intro replaysD [OF assms(1), of "c2 @ r"]) auto
  moreover have "g (wst ?m (length pre + length c1) (o1 @ c1) z d) = Ok (wst ?m (length pre + length c1 + length c2) ((o1 @ c1) @ c2) z d)"
    using r z by (intro replaysD [OF assms(2), of r _ _ _ "pre @ c1"]) auto
  ultimately show "obind (f (wst ?m (length pre) o1 z d)) g = Ok (wst ?m (length (pre @ c1 @ c2)) (o1 @ c1 @ c2) z d)"
    by (simp add: add.assoc)
qed

lemma emitted_end: "emitted w w' c \<Longrightarrow> wpos w = wstop w \<Longrightarrow> c = []"
  by (auto simp: emitted_def)

lemma rat_bind:
  assumes "rat e1 f w" and "e1 \<Longrightarrow> e" and "\<And>w1. f w = Ok w1 \<Longrightarrow> rat e g w1"
  shows "rat e (\<lambda>w. obind (f w) g) w"
proof (rule ratI)
  fix w' assume w: "walk_ok w" and "obind (f w) g = Ok w'"
  then obtain w1 where w1: "f w = Ok w1" "g w1 = Ok w'" by (cases "f w") auto
  obtain c1 where c1: "emitted w w1 c1" "replays e1 (wdown w) f c1" "e1 \<longrightarrow> wpos w1 = wstop w"
    by (rule ratD [OF assms(1) w w1(1)])
  have w1': "walk_ok w1" "wdown w1 = wdown w" "wstop w1 = wstop w"
    using emitted_ok [OF c1(1) w] c1(1) by (auto simp: emitted_def wframe_def)
  obtain c2 where c2: "emitted w1 w' c2" "replays e (wdown w1) g c2" "e \<longrightarrow> wpos w' = wstop w1"
    by (rule ratD [OF assms(3) [OF w1(1)] w1'(1) w1(2)])
  have "replays e (wdown w) (\<lambda>w. obind (f w) g) (c1 @ c2)"
    using c1(3) w1' assms(2) emitted_end [OF c2(1)] by (intro replays_bind [OF c1(2) c2(2) [unfolded w1'(2)]]) auto
  then show "\<exists>c. emitted w w' c \<and> replays e (wdown w) (\<lambda>w. obind (f w) g) c \<and> (e \<longrightarrow> wpos w' = wstop w)"
    using emitted_trans [OF c1(1) c2(1)] c2(3) w1'(3) by auto
qed

text \<open>Steps that read \<open>m\<close> octets ahead to learn how much to copy.\<close>

definition reads :: "nat \<Rightarrow> (buffer \<Rightarrow> nat \<Rightarrow> 'a parsed) \<Rightarrow> bool" where
  "reads m rd \<longleftrightarrow> (\<exists>h. \<forall>msg p. p + m \<le> length msg \<longrightarrow> rd msg p = Ok (h (take m (drop p msg))))"

lemma rat_header:
  assumes "reads m rd" and "\<And>x. \<not> P x \<Longrightarrow> m \<le> n x" and "0 < m"
    and "\<And>x w1. \<not> P x \<Longrightarrow> rd (wwire w) (wpos w) = Ok x \<Longrightarrow> w_copy w (n x) = Ok w1 \<Longrightarrow> rat e (g x) w1"
  shows "rat e (\<lambda>w. if \<not> w_need w m then bad d1 else obind (rd (wwire w) (wpos w)) (\<lambda>x. if P x then bad d2 else obind (w_copy w (n x)) (g x))) w"
    (is "rat e ?f w")
proof (rule ratI)
  fix w' assume w: "walk_ok w" and fw: "?f w = Ok w'"
  obtain h where h: "\<And>msg p. p + m \<le> length msg \<Longrightarrow> rd msg p = Ok (h (take m (drop p msg)))"
    using assms(1) by (auto simp: reads_def)
  define x where "x = h (take m (drop (wpos w) (wwire w)))"
  have need: "w_need w m" using fw by (auto split: if_splits)
  have x: "rd (wwire w) (wpos w) = Ok x" using h need w by (auto simp: x_def walk_ok_def w_need_def)
  then have P: "\<not> P x" and b: "obind (w_copy w (n x)) (g x) = Ok w'" using fw need by (auto split: if_splits)
  obtain w1 where w1: "w_copy w (n x) = Ok w1" using b by (cases "w_copy w (n x)") auto
  let ?c1 = "take (n x) (drop (wpos w) (wwire w))"
  have c1: "emitted w w1 ?c1" "length ?c1 = n x" using copy_emitted [OF w w1] by auto
  have w1': "walk_ok w1" "wdown w1 = wdown w" "wstop w1 = wstop w"
    using emitted_ok [OF c1(1) w] c1(1) by (auto simp: emitted_def wframe_def)
  have g: "g x w1 = Ok w'" using b w1 by simp
  obtain c2 where c2: "emitted w1 w' c2" "replays e (wdown w1) (g x) c2" "e \<longrightarrow> wpos w' = wstop w1"
    by (rule ratD [OF assms(4) [OF P x w1] w1'(1) g])
  have rb: "replays e (wdown w) (\<lambda>w. obind (w_copy w (n x)) (g x)) (?c1 @ c2)"
    using copy_replays [of "wdown w" ?c1] unfolding c1(2) by (rule replays_bind [OF _ c2(2) [unfolded w1'(2)]]) simp
  have "replays e (wdown w) ?f (?c1 @ c2)"
    unfolding replays_def
  proof (intro allI impI)
    fix pre r o1 :: buffer and z
    assume r: "e \<longrightarrow> r = []" and z: "length o1 + length (?c1 @ c2) \<le> z"
    let ?m = "pre @ (?c1 @ c2) @ r"
    have m: "m \<le> n x" by (rule assms(2) [OF P])
    have "take m (drop (length pre) ?m) = take m (drop (wpos w) (wwire w))" using c1(2) m by (simp add: min_absorb1)
    moreover have "length pre + m \<le> length ?m" using c1(2) m by simp
    ultimately have "rd ?m (length pre) = Ok x" using h x_def by metis
    then show "?f (wst ?m (length pre) o1 z (wdown w)) = Ok (wst ?m (length (pre @ ?c1 @ c2)) (o1 @ ?c1 @ c2) z (wdown w))"
      using P \<open>length pre + m \<le> length ?m\<close> rb [unfolded replays_def, rule_format, OF _ z, of r pre] r by simp
  qed
  then show "\<exists>c. emitted w w' c \<and> replays e (wdown w) ?f c \<and> (e \<longrightarrow> wpos w' = wstop w)"
    using emitted_trans [OF c1(1) c2(1)] c2(3) w1'(3) by (intro exI [of _ "?c1 @ c2"] conjI) simp_all
qed

lemma reads_nil: "reads m (\<lambda>msg p. Ok x)"
  by (auto simp: reads_def)

lemma reads_fetch: "k < m \<Longrightarrow> reads m (\<lambda>msg p. fetch msg (p + k))"
  unfolding reads_def by (intro exI [of _ "\<lambda>b. b ! k"]) (auto simp: fetch_def)

lemma reads_fetch0: "0 < m \<Longrightarrow> reads m fetch"
  using reads_fetch [of 0 m] by simp

lemma reads_get16: "k + 1 < m \<Longrightarrow> reads m (\<lambda>msg p. elpis_get16 msg (p + k))"
  unfolding reads_def
proof (intro exI [of _ "\<lambda>b. case (elpis_get16 b k :: u16 parsed) of Ok v \<Rightarrow> v | _ \<Rightarrow> 0"] allI impI)
  fix msg :: buffer and p assume "k + 1 < m" "p + m \<le> length msg"
  then show "elpis_get16 msg (p + k) = Ok (case (elpis_get16 (take m (drop p msg)) k :: u16 parsed) of Ok v \<Rightarrow> v | _ \<Rightarrow> 0)"
    by (simp add: elpis_get16_def fetch_def add.assoc)
qed

lemma reads_get16_0: "1 < m \<Longrightarrow> reads m elpis_get16"
  using reads_get16 [of 0 m] by simp

lemma reads_pair: "reads m f \<Longrightarrow> reads m g \<Longrightarrow> reads m (\<lambda>msg p. obind (f msg p) (\<lambda>x. obind (g msg p) (\<lambda>y. Ok (x, y))))"
  unfolding reads_def
  by (elim exE, rule_tac x = "\<lambda>b. (h b, ha b)" in exI) simp

text \<open>Loops that repeat a step to the end of the data.\<close>

lemma rat_ok_end: "wpos w = wstop w \<Longrightarrow> f w = Ok w \<Longrightarrow> (\<And>msg o1 z. f (wst msg (length msg) o1 z (wdown w)) = Ok (wst msg (length msg) o1 z (wdown w))) \<Longrightarrow> rat True f w"
  by (intro ratI exI [of _ "[]"]) (auto simp: replays_def emitted_refl walk_ok_def)

lemma rat_loop:
  assumes "\<And>w. f w = (if wpos w < wstop w then s w else Ok w)" and "wpos w < wstop w \<Longrightarrow> rat True s w"
  shows "rat True f w"
proof (cases "wpos w < wstop w")
  case True
  show ?thesis
  proof (rule ratI)
    fix w' assume w: "walk_ok w" and "f w = Ok w'"
    then have "s w = Ok w'" using assms(1) True by simp
    then obtain c where c: "emitted w w' c" "replays True (wdown w) s c" "wpos w' = wstop w"
      using ratD [OF assms(2) [OF True] w] by blast
    have "c \<noteq> []" using c True by (auto simp: emitted_def)
    then have "replays True (wdown w) f c" using c(2) by (simp add: replays_def assms(1))
    then show "\<exists>c. emitted w w' c \<and> replays True (wdown w) f c \<and> (True \<longrightarrow> wpos w' = wstop w)" using c by blast
  qed
next
  case False
  show ?thesis
  proof (cases "wpos w = wstop w")
    case True
    then show ?thesis by (intro rat_ok_end) (simp_all add: assms(1))
  next
    case neq: False
    then show ?thesis using False by (simp add: rat_def walk_ok_def)
  qed
qed

lemma obind_Ok: "obind m Ok = m"
  by (cases m) simp_all

lemma obind_assoc: "obind (obind m f) g = obind m (\<lambda>x. obind (f x) g)"
  by (cases m) simp_all

lemma rat_cong: "(\<And>w. f w = g w) \<Longrightarrow> rat e g w \<Longrightarrow> rat e f w"
  by (simp add: ext [of f g])

lemma rat_header2:
  assumes "reads m f" and "reads m g" and "\<And>x y. \<not> P x y \<Longrightarrow> m \<le> n x y" and "0 < m"
    and "\<And>x y w1. \<not> P x y \<Longrightarrow> f (wwire w) (wpos w) = Ok x \<Longrightarrow> g (wwire w) (wpos w) = Ok y \<Longrightarrow>
      w_copy w (n x y) = Ok w1 \<Longrightarrow> rat e (k x y) w1"
  shows "rat e (\<lambda>w. if \<not> w_need w m then bad d1 else obind (f (wwire w) (wpos w)) (\<lambda>x. obind (g (wwire w) (wpos w)) (\<lambda>y.
    if P x y then bad d2 else obind (w_copy w (n x y)) (k x y)))) w"
proof -
  let ?rd = "\<lambda>msg p. obind (f msg p) (\<lambda>x. obind (g msg p) (\<lambda>y. Ok (x, y)))"
  have "rat e (\<lambda>w. if \<not> w_need w m then bad d1 else obind (?rd (wwire w) (wpos w)) (\<lambda>z. if P (fst z) (snd z) then bad d2
      else obind (w_copy w (n (fst z) (snd z))) (k (fst z) (snd z)))) w"
  proof (rule rat_header [OF reads_pair [OF assms(1,2)]])
    fix z w1
    assume "\<not> P (fst z) (snd z)" "?rd (wwire w) (wpos w) = Ok z" "w_copy w (n (fst z) (snd z)) = Ok w1"
    then show "rat e (k (fst z) (snd z)) w1"
      by (intro assms(5)) (cases "f (wwire w) (wpos w)"; cases "g (wwire w) (wpos w)"; auto)+
  qed (use assms(3,4) in auto)
  then show ?thesis by (rule rat_cong [rotated]) (simp add: obind_assoc cong: if_cong)
qed

lemma rat_Ok: "rat False Ok w"
  by (intro ratI exI [of _ "[]"]) (auto simp: replays_def emitted_refl walk_ok_def)

lemma rat_bad: "rat e (\<lambda>w. bad d) w"
  by (simp add: rat_def)

lemma rat_str: "rat False w_str w"
  by (rule rat_cong [OF _ rat_header [where e = False and m = 1 and rd = "\<lambda>msg p. fetch msg p" and P = "\<lambda>_. False" and
    n = "\<lambda>l. 1 + unat l" and g = "\<lambda>_. Ok" and ?d1.0 = DROP_RDATA and ?d2.0 = DROP_RDATA]])
    (auto simp: w_str_def obind_Ok rat_Ok intro: reads_fetch0)

lemma rat_hash: "rat False (walk_field RDF_NSEC3_HASH) w"
  by (rule rat_cong [OF _ rat_header [where e = False and m = 1 and rd = "\<lambda>msg p. fetch msg p" and P = "\<lambda>l. l = 0" and
    n = "\<lambda>l. 1 + unat l" and g = "\<lambda>_. Ok" and ?d1.0 = DROP_RDATA and ?d2.0 = DROP_RDATA]])
    (simp_all add: obind_Ok rat_Ok reads_fetch0 cong: if_cong)

lemma rat_strs: "rat True walk_strs w"
proof (induction w rule: walk_strs.induct)
  case (1 w)
  show ?case by (rule rat_loop [OF walk_strs.simps], rule rat_bind [OF rat_str], simp, rule 1)
qed

lemma rat_names: "rat True walk_names w"
proof (induction w rule: walk_names.induct)
  case (1 w)
  show ?case by (rule rat_loop [OF walk_names.simps], rule rat_bind [OF rat_name], simp, rule 1)
qed

lemma rat_apl: "rat True walk_apl w"
proof (induction w rule: walk_apl.induct)
  case (1 w)
  show ?case
  proof (rule rat_loop [OF walk_apl.simps], rule rat_header2 [where m = 4 and f = "\<lambda>msg p. fetch msg (p + 3)" and
        g = "\<lambda>msg p. fetch msg (p + 2)" and P = "\<lambda>b3 b2. 128 < b2" and n = "\<lambda>b3 b2. 4 + unat (b3 AND 0x7F)" and k = "\<lambda>_ _. walk_apl"])
    fix x y w1
    assume "wpos w < wstop w" "\<not> 128 < y" "fetch (wwire w) (wpos w + 3) = (Ok x :: byte parsed)" "fetch (wwire w) (wpos w + 2) = (Ok y :: byte parsed)"
      "w_copy w (4 + unat (x AND 0x7F)) = Ok w1"
    moreover have "w_need w 4" using w_copy_Ok [OF calculation(5)] by (simp add: w_need_def)
    ultimately show "rat True walk_apl w1" by (intro 1 [of x y w1]) auto
  qed (simp_all add: reads_fetch del: add_2_eq_Suc')
qed

lemma rat_svc: "rat True (walk_svc prev) w"
proof (induction prev w rule: walk_svc.induct)
  case (1 prev w)
  show ?case
  proof (rule rat_loop [OF walk_svc.simps], rule rat_header2 [where m = 4 and f = "\<lambda>msg p. elpis_get16 msg p" and
        g = "\<lambda>msg p. elpis_get16 msg (p + 2)" and P = "\<lambda>key vlen. int (unat key) \<le> prev" and n = "\<lambda>key vlen. 4 + unat vlen" and
        k = "\<lambda>key _. walk_svc (int (unat key))"])
    fix x y w1
    assume "wpos w < wstop w" "\<not> int (unat x) \<le> prev" "elpis_get16 (wwire w) (wpos w) = (Ok x :: u16 parsed)"
      "elpis_get16 (wwire w) (wpos w + 2) = (Ok y :: u16 parsed)" "w_copy w (4 + unat y) = Ok w1"
    moreover have "w_need w 4" using w_copy_Ok [OF calculation(5)] by (simp add: w_need_def)
    ultimately show "rat True (walk_svc (int (unat x))) w1" by (intro 1 [of x y w1]) auto
  qed (simp_all add: reads_get16 reads_get16_0 del: add_2_eq_Suc')
qed

definition remains :: "walk_t \<Rightarrow> buffer" where
  "remains w = take (wstop w - wpos w) (drop (wpos w) (wwire w))"

lemma remains_wst: "remains (wst (pre @ c) (length pre) o1 z d) = c"
  by (simp add: remains_def)

lemma rat_rest:
  assumes "\<And>w. walk_ok w \<Longrightarrow> f w = (if G (remains w) then bad d else w_rest w)"
  shows "rat True f w"
proof (rule ratI)
  fix w' assume w: "walk_ok w" and "f w = Ok w'"
  then have g: "\<not> G (remains w)" and c: "w_copy w (wstop w - wpos w) = Ok w'"
    using assms [OF w] by (auto simp: w_rest_def split: if_splits)
  have "replays True (wdown w) f (remains w)"
    unfolding replays_def
  proof (intro allI impI)
    fix pre r o1 :: buffer and z assume "True \<longrightarrow> r = []" "length o1 + length (remains w) \<le> z"
    moreover have "walk_ok (wst (pre @ remains w) (length pre) o1 z (wdown w))" by (simp add: walk_ok_def)
    ultimately show "f (wst (pre @ remains w @ r) (length pre) o1 z (wdown w)) =
        Ok (wst (pre @ remains w @ r) (length (pre @ remains w)) (o1 @ remains w) z (wdown w))"
      using g copy_wst [of o1 "remains w" z _ pre "[]"] by (simp add: assms remains_wst w_rest_def)
  qed
  then show "\<exists>c. emitted w w' c \<and> replays True (wdown w) f c \<and> (True \<longrightarrow> wpos w' = wstop w)"
    using copy_emitted [OF w c] w by (intro exI [of _ "remains w"]) (auto simp: remains_def walk_ok_def)
qed

lemma remains_length: "walk_ok w \<Longrightarrow> length (remains w) = wstop w - wpos w"
  by (auto simp: remains_def walk_ok_def)

lemma remains_first: "walk_ok w \<Longrightarrow> wpos w < wstop w \<Longrightarrow> fetch (wwire w) (wpos w) = Ok (remains w ! 0)"
  by (auto simp: remains_def walk_ok_def fetch_def)

lemma rat_gateway: "rat False (\<lambda>w. w_gateway w g) w"
  unfolding w_gateway_def
  by (cases "g = 0"; cases "g = 1"; cases "g = 2"; cases "g = 3") (simp_all add: rat_Ok rat_copy rat_name rat_bad)

lemma rat_tail: "rat True (\<lambda>w. if wpos w < wstop w then w_rest w else Ok w) w"
  by (rule rat_loop [OF refl], rule rat_rest [where G = "\<lambda>_. False"]) simp

lemma rat_ipseckey: "rat True (walk_field RDF_IPSECKEY) w"
  by (rule rat_cong [OF _ rat_header [where e = True and m = 3 and rd = "\<lambda>msg p. fetch msg (p + 1)" and P = "\<lambda>_. False" and
    n = "\<lambda>_. 3" and g = "\<lambda>g w1. obind (w_gateway w1 (unat g)) (\<lambda>w2. if wpos w2 < wstop w2 then w_rest w2 else Ok w2)" and
    ?d1.0 = DROP_RDATA and ?d2.0 = DROP_RDATA]])
    (simp_all add: reads_fetch rat_bind [OF rat_gateway _ rat_tail] del: One_nat_def)

lemma rat_amtrelay: "rat False (walk_field RDF_AMTRELAY) w"
  by (rule rat_cong [OF _ rat_header [where e = False and m = 2 and rd = "\<lambda>msg p. fetch msg (p + 1)" and P = "\<lambda>_. False" and
    n = "\<lambda>_. 2" and g = "\<lambda>r w1. w_gateway w1 (unat (r AND 0x7F))" and ?d1.0 = DROP_RDATA and ?d2.0 = DROP_RDATA]])
    (simp_all add: reads_fetch rat_gateway del: One_nat_def)

lemma rat_hip: "rat True (walk_field RDF_HIP) w"
  by (rule rat_cong [OF _ rat_header2 [where e = True and m = 4 and f = fetch and g = "\<lambda>msg p. elpis_get16 msg (p + 2)" and
    P = "\<lambda>hitlen pklen. hitlen = 0 \<or> pklen = 0" and n = "\<lambda>hitlen pklen. 4 + unat hitlen + unat pklen" and k = "\<lambda>_ _. walk_names" and
    ?d1.0 = DROP_RDATA and ?d2.0 = DROP_RDATA]])
    (simp_all add: reads_fetch0 reads_get16 rat_names del: add_2_eq_Suc')

definition to_end :: "rdf \<Rightarrow> bool" where
  "to_end f \<longleftrightarrow> f \<in> {RDF_STRS, RDF_BLOB, RDF_BLOB1, RDF_BITMAP, RDF_LOC, RDF_WKS, RDF_IPSECKEY, RDF_HIP, RDF_APL, RDF_SVCPARAMS}"

lemma rat_blobs:
  "rat True (walk_field RDF_BLOB) w" "rat True (walk_field RDF_BLOB1) w" "rat True (walk_field RDF_WKS) w" "rat True (walk_field RDF_LOC) w"
proof -
  show "rat True (walk_field RDF_BLOB) w" by (rule rat_rest [where G = "\<lambda>_. False"]) simp
  show "rat True (walk_field RDF_BLOB1) w" by (rule rat_rest [where G = "\<lambda>c. c = []"]) (auto simp: remains_def walk_ok_def)
  show "rat True (walk_field RDF_WKS) w" by (rule rat_rest [where G = "\<lambda>c. length c < 5"]) (simp add: remains_length)
  show "rat True (walk_field RDF_LOC) w"
    by (rule rat_rest [where G = "\<lambda>c. length c < 1 \<or> (c ! 0 = 0 \<and> length c \<noteq> 16)"])
      (auto simp: remains_length Let_def remains_first w_rest_def)
qed

lemma rat_bitmap: "rat True (walk_field RDF_BITMAP) w"
  by (rule rat_rest [where G = "\<lambda>c. elpis_bitmap_validate c \<noteq> Ok ()" and d = DROP_RDATA])
    (use bitmap_validate_errors in \<open>auto simp: remains_def elpis_bitmap_validate_def split: outcome.splits\<close>)

lemma rat_field: "rat (to_end f) (walk_field f) w"
  by (cases f)
    (simp_all add: to_end_def rat_blobs rat_bitmap rat_hip rat_amtrelay rat_ipseckey rat_hash
      rat_cong [OF _ rat_copy] rat_cong [OF _ rat_name] rat_cong [OF _ rat_str] rat_cong [OF _ rat_strs]
      rat_cong [OF _ rat_apl] rat_cong [OF _ rat_svc])

lemma rat_walk: "rat True (walk fs) w"
proof (induction fs arbitrary: w)
  case Nil
  show ?case
  proof (cases "wpos w = wstop w")
    case True
    then show ?thesis by (rule rat_ok_end) (simp_all add: True)
  qed (simp add: rat_def)
next
  case (Cons f fs)
  then show ?case by (intro rat_cong [OF _ rat_bind [OF rat_field [of f w]]]) auto
qed

section \<open>Properties of record data\<close>

lemma canonical_walk:
  assumes "desc_of t = Some (t0, nm, fs, d)" and "off + unat len \<le> length msg"
  shows "elpis_rdata_canonical t msg off len sz down =
    obind (on_err fst (walk fs \<lparr>wwire = msg, wpos = off, wstop = off + unat len, wout = Some [], wosz = sz, wdown = (down \<and> d)\<rparr>))
      (\<lambda>w. Ok (the (wout w)))"
  using assms by (simp add: elpis_rdata_canonical_def)

lemma mx_desc: "desc_of 15 = Some (15, lit ''MX'', [RDF_U16, RDF_NAME], True)"
  by (simp add: desc_of_iff k_desc_def)

lemma mx_walk:
  "walk [RDF_U16, RDF_NAME] \<lparr>wwire = [0, 1, 0x41, 0, 0, 10, 1, 0x42, 0xC0, 1], wpos = 4, wstop = 10, wout = Some [], wosz = 255, wdown = True\<rparr>
   = Ok \<lparr>wwire = [0, 1, 0x41, 0, 0, 10, 1, 0x42, 0xC0, 1], wpos = 10, wstop = 10, wout = Some [0, 10, 1, 0x62, 1, 0x61, 0],
           wosz = 255, wdown = True\<rparr>"
  by code_simp

lemma mx_canonical:
  "elpis_rdata_canonical 15 [0, 1, 0x41, 0, 0, 10, 1, 0x42, 0xC0, 1] 4 6 255 True = Ok [0, 10, 1, 0x62, 1, 0x61, 0]"
  by (simp add: canonical_walk [OF mx_desc] mx_walk on_err_def del: walk.simps)

lemma canonical_idempotent_known:
  assumes "desc_of t = Some (t0, nm, fs, d)" and "elpis_rdata_canonical t msg off len sz down = Ok out"
    and "length out < 65536" and "length out \<le> sz'"
  shows "elpis_rdata_canonical t (pre @ out) (length pre) (word_of_nat (length out)) sz' down = Ok out"
proof -
  let ?w = "\<lparr>wwire = msg, wpos = off, wstop = off + unat len, wout = Some [], wosz = sz, wdown = (down \<and> d)\<rparr>"
  have len: "off + unat len \<le> length msg" using assms(2) by (auto simp: elpis_rdata_canonical_def split: if_splits)
  have "walk_ok ?w" using len by (simp add: walk_ok_def)
  obtain w' where w': "walk fs ?w = Ok w'" "out = the (wout w')"
    using assms(2) canonical_walk [OF assms(1) len, of sz down] by (cases "walk fs ?w") (auto simp: on_err_def)
  obtain c where c: "emitted ?w w' c" "replays True (wdown ?w) (walk fs) c"
    by (rule ratD [OF rat_walk \<open>walk_ok ?w\<close> w'(1)])
  have "c = out" using c(1) w'(2) by (auto simp: emitted_def)
  have n: "unat (word_of_nat (length out) :: u16) = length out" using assms(3) by (simp add: unat_of_nat)
  have "walk fs (wst (pre @ out @ []) (length pre) [] sz' (down \<and> d)) = Ok (wst (pre @ out @ []) (length pre + length out) ([] @ out) sz' (down \<and> d))"
    using c(2) \<open>c = out\<close> assms(4) by (intro replaysD) auto
  then show ?thesis
    using assms(1) n by (subst canonical_walk [OF assms(1)]) (simp_all add: wst_def on_err_def)
qed

text \<open>
  Property C25.  The canonical form is a fixed point: canonical record data of any type, read back at any offset of a
  buffer that ends with it, with room for it and within 16 bits of length, is copied unchanged by the same routine; so
  names stay uncompressed, the lower-cased ones stay lower-cased, and every field boundary is found again.
\<close>

theorem rdata_canonical_idempotent:
  assumes "elpis_rdata_canonical t msg off len sz down = Ok out" and "length out < 65536" and "length out \<le> sz'"
  shows "elpis_rdata_canonical t (pre @ out) (length pre) (word_of_nat (length out)) sz' down = Ok out"
proof (cases "desc_of t")
  case None
  have "unat (word_of_nat (length out) :: u16) = length out" using assms(2) by (simp add: unat_of_nat)
  with None assms(3) show ?thesis by (simp add: elpis_rdata_canonical_def)
next
  case (Some x)
  then show ?thesis using canonical_idempotent_known [OF _ assms] by (cases x) auto
qed

theorem rdata_canonical_idempotent_witness:
  "elpis_rdata_canonical 15 [0, 1, 0x41, 0, 0, 10, 1, 0x42, 0xC0, 1] 4 6 255 True = Ok [0, 10, 1, 0x62, 1, 0x61, 0] \<and>
   elpis_rdata_canonical 15 [9, 0, 10, 1, 0x62, 1, 0x61, 0] 1 7 7 True = Ok [0, 10, 1, 0x62, 1, 0x61, 0]"
  using mx_canonical rdata_canonical_idempotent [OF mx_canonical, of 7 "[9]"] by simp

lemma agrees_start:
  assumes "off + unat len \<le> length msg" and "rm \<longrightarrow> 255 * unat len \<le> sz"
  shows "agrees rm (walk fs \<lparr>wwire = msg, wpos = off, wstop = off + unat len, wout = None, wosz = 0, wdown = False\<rparr>)
    (walk fs \<lparr>wwire = msg, wpos = off, wstop = off + unat len, wout = Some [], wosz = sz, wdown = dn\<rparr>)" (is "agrees rm (walk fs ?v) (walk fs ?w)")
proof -
  have "erase ?w = ?v" by (simp add: erase_def)
  then show ?thesis using agrees_walk [of ?w rm fs] assms by (simp add: walk_ok_def room_def)
qed

lemma validate_canonical_known:
  assumes "desc_of t = Some (t0, nm, fs, d)" and "rm \<longrightarrow> 255 * unat len \<le> sz" and "off + unat len \<le> length msg"
  shows "elpis_rdata_canonical t msg off len sz down \<noteq> Fault \<and> (rm \<longrightarrow> elpis_rdata_validate t msg off len \<noteq> Fault) \<and>
    (\<forall>out. elpis_rdata_canonical t msg off len sz down = Ok out \<longrightarrow> elpis_rdata_validate t msg off len = Ok ()) \<and>
    (rm \<and> elpis_rdata_validate t msg off len = Ok () \<longrightarrow> (\<exists>out. elpis_rdata_canonical t msg off len sz down = Ok out))"
  using agrees_start [OF assms(3), of False sz fs "down \<and> d"] agrees_start [OF assms(3,2), of fs "down \<and> d"] assms(1,3)
  by (cases "walk fs \<lparr>wwire = msg, wpos = off, wstop = off + unat len, wout = Some [], wosz = sz, wdown = (down \<and> d)\<rparr>")
    (auto simp: elpis_rdata_validate_def canonical_walk [OF assms(1,3)] agrees_def on_err_def split: outcome.splits)

text \<open>
  Property C26.  Validating and copying walk the data in the same way.  Neither ever reads outside the message; what is
  copied validates; and with 255 octets of room for every octet of data (each can at most start one compressed name),
  what validates is copied.
\<close>

theorem rdata_validate_canonical_agree:
  assumes "255 * unat len \<le> sz"
  shows "elpis_rdata_canonical t msg off len z down \<noteq> Fault \<and> elpis_rdata_validate t msg off len \<noteq> Fault \<and>
    (elpis_rdata_canonical t msg off len z down = Ok out \<longrightarrow> elpis_rdata_validate t msg off len = Ok ()) \<and>
    (elpis_rdata_validate t msg off len = Ok () \<longleftrightarrow> (\<exists>out. elpis_rdata_canonical t msg off len sz down = Ok out))"
proof (cases "off + unat len \<le> length msg")
  case True
  show ?thesis
  proof (cases "desc_of t")
    case None
    then show ?thesis using assms True by (auto simp: elpis_rdata_canonical_def elpis_rdata_validate_def)
  next
    case (Some x)
    obtain t0 nm fs d where x: "x = (t0, nm, fs, d)" by (cases x)
    show ?thesis
      using validate_canonical_known [OF Some [unfolded x], of False len z off msg down]
        validate_canonical_known [OF Some [unfolded x], of True len sz off msg down] assms True by blast
  qed
qed (simp add: elpis_rdata_canonical_def elpis_rdata_validate_def)

theorem rdata_validate_canonical_agree_witness:
  "(\<exists>out. elpis_rdata_canonical 15 [0, 1, 0x41, 0, 0, 10, 1, 0x42, 0xC0, 1] 4 6 1530 True = Ok out) \<and>
   elpis_rdata_validate 15 [0, 1, 0x41, 0, 0, 10, 1, 0x42, 0xC0, 1] 4 6 = Ok ()"
  using mx_canonical rdata_validate_canonical_agree [of 6 1530 15 "[0, 1, 0x41, 0, 0, 10, 1, 0x42, 0xC0, 1]" 4 255 True "[0, 10, 1, 0x62, 1, 0x61, 0]"] by auto

text \<open>
  Property C27.  A type bitmap is accepted exactly when it is a sequence of windows of 1 to 32 octets in strictly
  increasing order, and then membership is decided by the bits of those windows, most significant bit first, for all
  65536 types.
\<close>

theorem bitmap_spec:
  "elpis_bitmap_validate bm = Ok () \<longleftrightarrow>
   (\<exists>ws. bm = enc_windows ws \<and> windows_ok (- 1) ws \<and> (\<forall>t. elpis_bitmap_has bm t = Ok (in_windows ws (unat t))))"
  using bitmap_has_loop_enc [of 0 bm _ "- 1"] by (auto simp: bitmap_validate_iff elpis_bitmap_has_def)

end
