(* ===== verification/Elpis_Cache.thy ===== *)
theory Elpis_Cache
  imports Elpis_Simd "HOL-Library.Multiset"
begin

unbundle bit_operations_syntax

text \<open>
  The sharded open-addressing cache of \<open>src/cache/cache.c\<close>: control bytes scanned sixteen at a
  time, tombstones, rehashing, CLOCK eviction against a byte budget, and the sizing of the caches
  from the memory of the host.

  An entry is its header \<open>elpis_chdr_t\<close> and a payload, the rest of the client's structure; the
  comparison function of a client is the parameter \<open>eqfn\<close>.  A shard keeps its counters as the
  machine integers of the code; capacities and positions are natural numbers, with the wrap of
  32-bit products written out.  The allocator is the parameter \<open>mem\<close>, which says whether a table
  of a given capacity can be had; the clock and whether a lock is free are parameters too.  Each
  public operation runs under the lock of its shard, so an operation is one step here.
\<close>

section \<open>The program\<close>

subsection \<open>Entries and shards\<close>

definition CTRL_EMPTY :: byte where "CTRL_EMPTY = 0x80"

definition CTRL_DELETED :: byte where "CTRL_DELETED = 0xFE"

definition IS_FULL :: "byte \<Rightarrow> bool" where
  "IS_FULL c \<longleftrightarrow> c AND 0x80 = 0"

definition MIN_CAP :: nat where "MIN_CAP = 64"

record 'v centry =
  ehash :: u64
  eexpiry :: u32
  esize :: u32
  eref :: bool
  epinned :: bool
  epay :: 'v

record 'v shard =
  ctrl :: buffer
  slots :: "'v centry option list"
  cap :: nat
  used :: u32
  tomb :: u32
  hand :: nat
  bytes :: u64
  bytes_max :: u64
  hits :: u64
  misses :: u64
  inserts :: u64
  evictions :: u64
  expired :: u64
  collisions :: u64
  pinned_entries :: u32
  pinned_bytes :: u64

definition h2 :: "u64 \<Rightarrow> byte" where
  "h2 h = ucast (h AND 0x7F)"

definition h1 :: "u64 \<Rightarrow> u64" where
  "h1 h = drop_bit 7 h"

text \<open>The slot a pointer array holds; nothing outside it.\<close>

definition slot_at :: "'v shard \<Rightarrow> nat \<Rightarrow> 'v centry option" where
  "slot_at s i = (if i < length (slots s) then slots s ! i else None)"

subsection \<open>Table primitives\<close>

definition shard_alloc :: "(nat \<Rightarrow> bool) \<Rightarrow> 'v shard \<Rightarrow> nat \<Rightarrow> 'v shard option" where
  "shard_alloc mem s n =
     (if mem n then Some (s\<lparr>ctrl := replicate (n + ELPIS_GROUP) CTRL_EMPTY, slots := replicate n None, cap := n,
                            used := 0, tomb := 0, hand := 0\<rparr>)
      else None)"

definition ctrl_set :: "'v shard \<Rightarrow> nat \<Rightarrow> byte \<Rightarrow> 'v shard" where
  "ctrl_set s i v =
     (let c = (ctrl s)[i := v] in s\<lparr>ctrl := (if i < ELPIS_GROUP then c[cap s + i := v] else c)\<rparr>)"

definition start_pos :: "nat \<Rightarrow> u64 \<Rightarrow> nat" where
  "start_pos n hash = unat (h1 hash AND word_of_nat (n - 1))"

lemma clear_lowest_less: "m \<noteq> 0 \<Longrightarrow> unat (m AND (m - 1)) < unat (m :: u32)"
proof -
  assume "m \<noteq> 0"
  have "m AND (m - 1) \<le> m - 1" by (rule word_and_le1)
  moreover have "unat (m - 1) < unat m" using \<open>m \<noteq> 0\<close> by (simp add: unat_minus_one unat_gt_0)
  ultimately show ?thesis by (simp add: word_le_nat_alt)
qed

text \<open>The candidates of a group, lowest bit first.\<close>

function match_scan :: "('v \<Rightarrow> 'k \<Rightarrow> bool) \<Rightarrow> 'v shard \<Rightarrow> u64 \<Rightarrow> 'k \<Rightarrow> nat \<Rightarrow> u32 \<Rightarrow> (nat \<times> 'v centry) option" where
  "match_scan eqfn s hash key g m =
     (if m = 0 then None
      else let i = (g + elpis_ctz32 m) AND (cap s - 1) in
        case slot_at s i of
          None \<Rightarrow> match_scan eqfn s hash key g (m AND (m - 1))
        | Some e \<Rightarrow>
          if ehash e = hash \<and> eqfn (epay e) key then Some (i, e)
          else match_scan eqfn s hash key g (m AND (m - 1)))"
  by pat_completeness auto
termination
  by (relation "measure (\<lambda>(eqfn, s, hash, key, g, m). unat m)") (auto simp: clear_lowest_less)

function empty_scan :: "buffer \<Rightarrow> u32 \<Rightarrow> u32 \<Rightarrow> u32" where
  "empty_scan grp sp acc =
     (if sp = 0 then acc
      else empty_scan grp (sp AND (sp - 1))
        (if grp ! elpis_ctz32 sp = CTRL_EMPTY then acc OR push_bit (elpis_ctz32 sp) 1 else acc))"
  by pat_completeness auto
termination
  by (relation "measure (\<lambda>(grp, sp, acc). unat sp)") (auto simp: clear_lowest_less)

declare match_scan.simps [simp del] empty_scan.simps [simp del]

function find_loop :: "('v \<Rightarrow> 'k \<Rightarrow> bool) \<Rightarrow> 'v shard \<Rightarrow> u64 \<Rightarrow> 'k \<Rightarrow> nat \<Rightarrow> nat \<Rightarrow> (nat \<times> 'v centry) option" where
  "find_loop eqfn s hash key pos step =
     (let g = pos AND (cap s - 1); grp = drop g (ctrl s) in
      case match_scan eqfn s hash key g (elpis_group_match grp (h2 hash)) of
        Some r \<Rightarrow> Some r
      | None \<Rightarrow>
        if empty_scan grp (elpis_group_special grp) 0 \<noteq> 0 then None
        else if cap s < step + ELPIS_GROUP then None
        else find_loop eqfn s hash key ((g + ELPIS_GROUP) AND (cap s - 1)) (step + ELPIS_GROUP))"
  by pat_completeness auto
termination
  by (relation "measure (\<lambda>(eqfn, s, hash, key, pos, step). cap s + 1 - step)") (auto simp: ELPIS_GROUP_def)

definition find_slot :: "('v \<Rightarrow> 'k \<Rightarrow> bool) \<Rightarrow> 'v shard \<Rightarrow> u64 \<Rightarrow> 'k \<Rightarrow> (nat \<times> 'v centry) option" where
  "find_slot eqfn s hash key = find_loop eqfn s hash key (start_pos (cap s) hash) 0"

function free_loop :: "'v shard \<Rightarrow> nat \<Rightarrow> nat \<Rightarrow> nat option" where
  "free_loop s pos step =
     (let g = pos AND (cap s - 1); sp = elpis_group_special (drop g (ctrl s)) in
      if sp \<noteq> 0 then Some ((g + elpis_ctz32 sp) AND (cap s - 1))
      else if cap s < step + ELPIS_GROUP then None
      else free_loop s ((g + ELPIS_GROUP) AND (cap s - 1)) (step + ELPIS_GROUP))"
  by pat_completeness auto
termination
  by (relation "measure (\<lambda>(s, pos, step). cap s + 1 - step)") (auto simp: ELPIS_GROUP_def)

definition find_free :: "'v shard \<Rightarrow> u64 \<Rightarrow> nat option" where
  "find_free s hash = free_loop s (start_pos (cap s) hash) 0"

declare find_loop.simps [simp del] free_loop.simps [simp del]

definition rehash_step :: "byte \<times> 'v centry option \<Rightarrow> 'v shard \<Rightarrow> 'v shard" where
  "rehash_step = (\<lambda>(c, x) s.
     if \<not> IS_FULL c then s
     else case x of None \<Rightarrow> s
       | Some e \<Rightarrow>
         (case find_free s (ehash e) of None \<Rightarrow> s
          | Some slot \<Rightarrow>
            (ctrl_set (s\<lparr>slots := (slots s)[slot := Some e]\<rparr>) slot (h2 (ehash e)))\<lparr>used := used s + 1\<rparr>))"

definition shard_rehash :: "(nat \<Rightarrow> bool) \<Rightarrow> 'v shard \<Rightarrow> nat \<Rightarrow> 'v shard option" where
  "shard_rehash mem s newcap =
     (case shard_alloc mem s newcap of None \<Rightarrow> None
      | Some s1 \<Rightarrow> Some (fold rehash_step (zip (take (cap s) (ctrl s)) (slots s)) s1))"

definition slot_drop :: "'v shard \<Rightarrow> nat \<Rightarrow> 'v shard" where
  "slot_drop s i =
     (case slot_at s i of None \<Rightarrow> s
      | Some e \<Rightarrow>
        let s1 = s\<lparr>bytes := bytes s - ucast (esize e)\<rparr>;
            s2 = (if epinned e then s1\<lparr>pinned_entries := pinned_entries s - 1,
                                        pinned_bytes := pinned_bytes s - ucast (esize e)\<rparr> else s1);
            s3 = ctrl_set (s2\<lparr>slots := (slots s)[i := None]\<rparr>) i CTRL_DELETED
        in s3\<lparr>used := used s - 1, tomb := tomb s + 1\<rparr>)"

fun evict_loop :: "nat \<Rightarrow> u32 \<Rightarrow> 'v shard \<Rightarrow> 'v shard \<times> bool" where
  "evict_loop 0 now s = (s, False)"
| "evict_loop (Suc n) now s =
     (let i = hand s; s1 = s\<lparr>hand := (hand s + 1) AND (cap s - 1)\<rparr> in
      case (if IS_FULL (ctrl s ! i) then slot_at s i else None) of
        None \<Rightarrow> evict_loop n now s1
      | Some h \<Rightarrow>
        if eexpiry h \<noteq> 0 \<and> eexpiry h \<le> now then ((slot_drop s1 i)\<lparr>expired := expired s + 1\<rparr>, True)
        else if epinned h then evict_loop n now s1
        else if eref h then evict_loop n now (s1\<lparr>slots := (slots s)[i := Some (h\<lparr>eref := False\<rparr>)]\<rparr>)
        else ((slot_drop s1 i)\<lparr>evictions := evictions s + 1\<rparr>, True))"

definition shard_evict_one :: "u32 \<Rightarrow> 'v shard \<Rightarrow> 'v shard \<times> bool" where
  "shard_evict_one now s = evict_loop (cap s * 2 mod 2 ^ 32) now s"

subsection \<open>Inserting\<close>

definition live :: "'v shard \<Rightarrow> nat" where
  "live s = length (filter (\<lambda>x. x \<noteq> None) (slots s))"

lemma live_update_None:
  "i < length xs \<Longrightarrow> xs ! i = Some e \<Longrightarrow>
   length (filter (\<lambda>x. x \<noteq> None) (xs[i := None])) < length (filter (\<lambda>x. x \<noteq> None) xs)"
proof (induction xs arbitrary: i)
  case (Cons x xs)
  then show ?case by (cases i) auto
qed simp

lemma live_update_Some:
  "i < length xs \<Longrightarrow> xs ! i = Some e \<Longrightarrow>
   length (filter (\<lambda>x. x \<noteq> None) (xs[i := Some e'])) = length (filter (\<lambda>x. x \<noteq> None) xs)"
proof (induction xs arbitrary: i)
  case (Cons x xs)
  then show ?case by (cases i) auto
qed simp

lemma slots_ctrl_set [simp]: "slots (ctrl_set s i v) = slots s"
  by (simp add: ctrl_set_def Let_def)

lemma slot_at_upd [simp]:
  "slot_at (s\<lparr>hand := h\<rparr>) i = slot_at s i" "slot_at (s\<lparr>slots := (slots s)[i := x]\<rparr>) i = (if i < length (slots s) then x else None)"
  by (simp_all add: slot_at_def)

lemma slot_at_Some: "slot_at s i = Some e \<longleftrightarrow> i < length (slots s) \<and> slots s ! i = Some e"
  by (simp add: slot_at_def)

lemma live_upd [simp]:
  "live (s\<lparr>hand := h\<rparr>) = live s" "live (s\<lparr>expired := x\<rparr>) = live s" "live (s\<lparr>evictions := x\<rparr>) = live s"
  by (simp_all add: live_def)

lemma slots_slot_drop: "slot_at s i = Some e \<Longrightarrow> slots (slot_drop s i) = (slots s)[i := None]"
  by (simp add: slot_drop_def Let_def)

lemma live_slot_drop: "slot_at s i = Some e \<Longrightarrow> live (slot_drop s i) < live s"
  using live_update_None [of i "slots s" e] slots_slot_drop [of s i e] by (simp add: live_def slot_at_Some)

lemma live_set_ref: "slot_at s i = Some e \<Longrightarrow> live (s\<lparr>hand := h, slots := (slots s)[i := Some e']\<rparr>) = live s"
  using live_update_Some [of i "slots s" e e'] by (simp add: live_def slot_at_Some)

lemma live_evict: "evict_loop n now s = (s', True) \<Longrightarrow> live s' < live s"
proof (induction n now s rule: evict_loop.induct)
  case (2 n now s)
  let ?i = "hand s" and ?s1 = "s\<lparr>hand := (hand s + 1) AND (cap s - 1)\<rparr>"
  have d: "live (slot_drop ?s1 ?i) < live s" if "slot_at s ?i = Some h" for h
    using live_slot_drop [of ?s1 ?i h] that by simp
  show ?case
    using 2(4) 2(1-3) [OF refl refl] d live_set_ref [of s ?i]
    by (auto simp: Let_def split: option.splits if_splits)
qed simp

text \<open>The loop that makes room: it ends because every eviction empties a slot.\<close>

function make_room :: "u32 \<Rightarrow> u32 \<Rightarrow> 'v shard \<Rightarrow> 'v shard" where
  "make_room now sz s =
     (if bytes_max s < bytes s + ucast sz then
        (case shard_evict_one now s of (s1, ok) \<Rightarrow> if ok then make_room now sz s1 else s1)
      else s)"
  by pat_completeness auto
termination
  by (relation "measure (\<lambda>(now, sz, s). live s)") (auto simp: shard_evict_one_def live_evict)

declare make_room.simps [simp del]

definition add_counts :: "'v centry \<Rightarrow> 'v shard \<Rightarrow> 'v shard" where
  "add_counts e s =
     (let s1 = s\<lparr>bytes := bytes s + ucast (esize e)\<rparr>;
          s2 = (if epinned e then s1\<lparr>pinned_entries := pinned_entries s + 1, pinned_bytes := pinned_bytes s + ucast (esize e)\<rparr> else s1)
      in s2\<lparr>inserts := inserts s + 1\<rparr>)"

definition replace_entry :: "'v shard \<Rightarrow> nat \<Rightarrow> 'v centry \<Rightarrow> 'v centry \<Rightarrow> 'v shard" where
  "replace_entry s idx old e =
     (let s1 = s\<lparr>bytes := bytes s - ucast (esize old)\<rparr>;
          s2 = (if epinned old then s1\<lparr>pinned_entries := pinned_entries s - 1, pinned_bytes := pinned_bytes s - ucast (esize old)\<rparr> else s1)
      in add_counts e (s2\<lparr>slots := (slots s)[idx := Some e]\<rparr>))"

definition grow :: "(nat \<Rightarrow> bool) \<Rightarrow> 'v shard \<Rightarrow> 'v shard option" where
  "grow mem s =
     (if cap s * 7 < unat (used s + tomb s + 1) * 8 then
        let newcap = (if cap s < unat ((used s + 1) * 2) then cap s * 2 mod 2 ^ 32 else cap s)
        in shard_rehash mem s (if newcap < MIN_CAP then MIN_CAP else newcap)
      else Some s)"

definition place :: "'v shard \<Rightarrow> 'v centry \<Rightarrow> 'v shard option" where
  "place s e =
     (case find_free s (ehash e) of None \<Rightarrow> None
      | Some idx \<Rightarrow>
        let s1 = (if ctrl s ! idx = CTRL_DELETED \<and> tomb s > 0 then s\<lparr>tomb := tomb s - 1\<rparr> else s);
            s2 = ctrl_set (s1\<lparr>slots := (slots s)[idx := Some e]\<rparr>) idx (h2 (ehash e))
        in Some (add_counts e (s2\<lparr>used := used s + 1\<rparr>)))"

definition shard_insert :: "('v \<Rightarrow> 'k \<Rightarrow> bool) \<Rightarrow> (nat \<Rightarrow> bool) \<Rightarrow> u32 \<Rightarrow> 'v shard \<Rightarrow> 'v centry \<Rightarrow> 'k \<Rightarrow> 'v shard \<times> elpis_rc" where
  "shard_insert eqfn mem now s e key =
     (case find_slot eqfn s (ehash e) key of
        Some (idx, old) \<Rightarrow> (replace_entry s idx old e, ELPIS_OK)
      | None \<Rightarrow>
        let s1 = make_room now (esize e) s in
        if bytes_max s1 < bytes s1 + ucast (esize e) \<and> \<not> epinned e then (s1, ELPIS_ENOMEM)
        else (case grow mem s1 of None \<Rightarrow> (s1, ELPIS_ENOMEM)
              | Some s2 \<Rightarrow> (case place s2 e of None \<Rightarrow> (s2, ELPIS_ENOMEM) | Some s3 \<Rightarrow> (s3, ELPIS_OK))))"

definition shard_remove :: "('v \<Rightarrow> 'k \<Rightarrow> bool) \<Rightarrow> 'v shard \<Rightarrow> u64 \<Rightarrow> 'k \<Rightarrow> 'v shard \<times> elpis_rc" where
  "shard_remove eqfn s hash key =
     (case find_slot eqfn s hash key of None \<Rightarrow> (s, ELPIS_ENOTFOUND) | Some (idx, e) \<Rightarrow> (slot_drop s idx, ELPIS_OK))"

definition shard_read :: "('v \<Rightarrow> 'k \<Rightarrow> bool) \<Rightarrow> 'v shard \<Rightarrow> u64 \<Rightarrow> 'k \<Rightarrow> 'v shard \<times> 'v centry option" where
  "shard_read eqfn s hash key =
     (case find_slot eqfn s hash key of
        None \<Rightarrow> (s\<lparr>misses := misses s + 1\<rparr>, None)
      | Some (i, e) \<Rightarrow>
        let e1 = e\<lparr>eref := True\<rparr> in (s\<lparr>slots := (slots s)[i := Some e1], hits := hits s + 1\<rparr>, Some e1))"

definition flush_step :: "nat \<Rightarrow> 'v shard \<Rightarrow> 'v shard" where
  "flush_step j s = (if IS_FULL (ctrl s ! j) \<and> slot_at s j \<noteq> None then slot_drop s j else s)"

definition shard_flush :: "'v shard \<Rightarrow> 'v shard" where
  "shard_flush s =
     (let s1 = fold flush_step [0..<cap s] s
      in s1\<lparr>tomb := 0, ctrl := replicate (cap s1 + ELPIS_GROUP) CTRL_EMPTY\<rparr>)"

fun expire_loop :: "nat \<Rightarrow> u32 \<Rightarrow> 'v shard \<times> nat \<Rightarrow> 'v shard \<times> nat" where
  "expire_loop 0 now (s, n) = (s, n)"
| "expire_loop (Suc k) now (s, n) =
     (let j = hand s; s1 = s\<lparr>hand := (hand s + 1) AND (cap s - 1)\<rparr> in
      case (if IS_FULL (ctrl s ! j) then slot_at s j else None) of
        None \<Rightarrow> expire_loop k now (s1, n)
      | Some h \<Rightarrow>
        if eexpiry h \<noteq> 0 \<and> eexpiry h \<le> now
        then expire_loop k now ((slot_drop s1 j)\<lparr>expired := expired s + 1\<rparr>, n + 1)
        else expire_loop k now (s1, n))"

subsection \<open>The cache\<close>

record 'v elpis_cache =
  cname :: buffer
  nshards :: nat
  sh :: "'v shard list"
  cbytes_max :: u64

definition ROUND_MAX :: nat where "ROUND_MAX = 2 ^ 20"

function round_loop :: "nat \<Rightarrow> nat \<Rightarrow> nat" where
  "round_loop v p = (if p < v \<and> p < ROUND_MAX \<and> 0 < p then round_loop v (p * 2) else p)"
  by pat_completeness auto
termination
  by (relation "measure (\<lambda>(v, p). ROUND_MAX - p)") auto

declare round_loop.simps [simp del]

definition round_pow2 :: "nat \<Rightarrow> nat" where
  "round_pow2 v = round_loop v 1"

definition shard_zero :: "'v shard" where
  "shard_zero = \<lparr>ctrl = [], slots = [], cap = 0, used = 0, tomb = 0, hand = 0, bytes = 0, bytes_max = 0, hits = 0, misses = 0,
     inserts = 0, evictions = 0, expired = 0, collisions = 0, pinned_entries = 0, pinned_bytes = 0\<rparr>"

definition shard_new :: "u64 \<Rightarrow> 'v shard" where
  "shard_new mx = (shard_zero\<lparr>ctrl := replicate (MIN_CAP + ELPIS_GROUP) CTRL_EMPTY, slots := replicate MIN_CAP None,
     cap := MIN_CAP, bytes_max := (if mx < 64 * 1024 then 64 * 1024 else mx)\<rparr>)"

definition elpis_cache_new :: "(nat \<Rightarrow> bool) \<Rightarrow> buffer \<Rightarrow> u64 \<Rightarrow> u32 \<Rightarrow> 'v elpis_cache option" where
  "elpis_cache_new mem name mx shards0 =
     (let shards = round_pow2 (if shards0 = 0 then 16 else unat shards0);
          n = (if 4096 < shards then 4096 else shards) in
      if mem MIN_CAP
      then Some \<lparr>cname = take 31 name, nshards = n, sh = replicate n (shard_new (mx div word_of_nat n)), cbytes_max = mx\<rparr>
      else None)"

definition shard_of :: "'v elpis_cache \<Rightarrow> u64 \<Rightarrow> nat" where
  "shard_of c hash = unat (drop_bit 48 hash AND word_of_nat (nshards c - 1))"

definition elpis_cache_read :: "('v \<Rightarrow> 'k \<Rightarrow> bool) \<Rightarrow> 'v elpis_cache \<Rightarrow> u64 \<Rightarrow> 'k \<Rightarrow> 'v elpis_cache \<times> 'v centry option" where
  "elpis_cache_read eqfn c hash key =
     (let si = shard_of c hash; (s, r) = shard_read eqfn (sh c ! si) hash key in (c\<lparr>sh := (sh c)[si := s]\<rparr>, r))"

definition elpis_cache_insert ::
  "('v \<Rightarrow> 'k \<Rightarrow> bool) \<Rightarrow> (nat \<Rightarrow> bool) \<Rightarrow> u32 \<Rightarrow> 'v elpis_cache \<Rightarrow> 'v centry \<Rightarrow> 'k \<Rightarrow> 'v elpis_cache \<times> elpis_rc" where
  "elpis_cache_insert eqfn mem now c e key =
     (let si = shard_of c (ehash e); (s, r) = shard_insert eqfn mem now (sh c ! si) e key in (c\<lparr>sh := (sh c)[si := s]\<rparr>, r))"

definition elpis_cache_remove :: "('v \<Rightarrow> 'k \<Rightarrow> bool) \<Rightarrow> 'v elpis_cache \<Rightarrow> u64 \<Rightarrow> 'k \<Rightarrow> 'v elpis_cache \<times> elpis_rc" where
  "elpis_cache_remove eqfn c hash key =
     (let si = shard_of c hash; (s, r) = shard_remove eqfn (sh c ! si) hash key in (c\<lparr>sh := (sh c)[si := s]\<rparr>, r))"

definition elpis_cache_flush :: "'v elpis_cache \<Rightarrow> 'v elpis_cache" where
  "elpis_cache_flush c = c\<lparr>sh := map shard_flush (sh c)\<rparr>"

text \<open>\<open>busy i\<close> says that the lock of shard \<open>i\<close> is taken, so that the shard is left for the next tick.\<close>

definition elpis_cache_expire :: "(nat \<Rightarrow> bool) \<Rightarrow> 'v elpis_cache \<Rightarrow> u32 \<Rightarrow> nat \<Rightarrow> 'v elpis_cache \<times> nat" where
  "elpis_cache_expire busy c now budget =
     (let per0 = budget div (if nshards c = 0 then 1 else nshards c); per = (if per0 = 0 then 16 else per0);
          rs = map (\<lambda>i. if busy i then (sh c ! i, 0) else expire_loop per now (sh c ! i, 0)) [0..<length (sh c)]
      in (c\<lparr>sh := map fst rs\<rparr>, sum_list (map snd rs)))"

record elpis_cache_stats =
  st_hits :: u64
  st_misses :: u64
  st_inserts :: u64
  st_evictions :: u64
  st_expired :: u64
  st_collisions :: u64
  st_entries :: u64
  st_bytes :: u64
  st_bytes_max :: u64
  st_capacity :: u64
  st_pinned_entries :: u64
  st_pinned_bytes :: u64

definition cache_stats :: "'v elpis_cache \<Rightarrow> elpis_cache_stats" where
  "cache_stats c =
     \<lparr>st_hits = sum_list (map hits (sh c)), st_misses = sum_list (map misses (sh c)), st_inserts = sum_list (map inserts (sh c)),
      st_evictions = sum_list (map evictions (sh c)), st_expired = sum_list (map expired (sh c)),
      st_collisions = sum_list (map collisions (sh c)), st_entries = sum_list (map (\<lambda>s. ucast (used s)) (sh c)),
      st_bytes = sum_list (map bytes (sh c)), st_bytes_max = sum_list (map bytes_max (sh c)),
      st_capacity = sum_list (map (\<lambda>s. word_of_nat (cap s)) (sh c)),
      st_pinned_entries = sum_list (map (\<lambda>s. ucast (pinned_entries s)) (sh c)),
      st_pinned_bytes = sum_list (map pinned_bytes (sh c))\<rparr>"

subsection \<open>Automatic sizing\<close>

record elpis_cache_plan =
  ram_total :: u64
  budget_total :: u64
  msg_bytes :: u64
  rrset_bytes :: u64
  infra_bytes :: u64
  deleg_bytes :: u64
  pshards :: nat

definition MB :: u64 where "MB = 1024 * 1024"

definition GB :: u64 where "GB = 1024 * MB"

definition plan_budget :: "u64 \<Rightarrow> u64 \<Rightarrow> u64" where
  "plan_budget ram override_total =
     (let b = (if override_total \<noteq> 0 then override_total
               else if ram = 0 then 64 * MB
               else if ram < 512 * MB then (let q = ram div 8 in if q < 16 * MB then 16 * MB else q)
               else if ram < 2 * GB then ram div 6
               else if ram < 8 * GB then ram div 5
               else if ram < 64 * GB then ram div 4
               else 16 * GB);
          b1 = (if 32 * GB < b then 32 * GB else b)
      in if b1 < 8 * MB then 8 * MB else b1)"

definition plan_shards :: "u32 \<Rightarrow> nat" where
  "plan_shards cpus =
     (let n = round_pow2 (if cpus \<noteq> 0 then unat (cpus * 8) else 16); n1 = (if n < 16 then 16 else n)
      in if 512 < n1 then 512 else n1)"

text \<open>\<open>ram\<close> is what \<open>elpis_physical_ram\<close> reports.\<close>

definition cache_plan :: "u64 \<Rightarrow> u64 \<Rightarrow> u32 \<Rightarrow> elpis_cache_plan" where
  "cache_plan ram override_total cpus =
     (let b = plan_budget ram override_total; m = b div 2; r = b div 100 * 32; d = b div 100 * 12; i = b - m - r - d in
      \<lparr>ram_total = ram, budget_total = b, msg_bytes = m, rrset_bytes = r,
       infra_bytes = (if i < 2 * MB then 2 * MB else i), deleg_bytes = (if d < 8 * MB then 8 * MB else d),
       pshards = plan_shards cpus\<rparr>)"

section \<open>Bit scans\<close>

lemma bit_pred_nat:
  fixes n :: nat
  assumes "bit n z" and "\<And>j. j < z \<Longrightarrow> \<not> bit n j" and "z \<le> k"
  shows "bit (n - 1) k \<longleftrightarrow> k \<noteq> z \<and> bit n k"
proof -
  have "n \<noteq> 0" using assms(1) by (intro notI) simp
  then obtain m where n: "n = Suc m" using not0_implies_Suc by blast
  have low: "n mod 2 ^ z = 0"
  proof -
    have "take_bit z n = 0" by (rule bit_eqI) (use assms(2) in \<open>auto simp: bit_take_bit_iff\<close>)
    then show ?thesis by (simp add: take_bit_eq_mod)
  qed
  have "n mod 2 ^ k \<noteq> 0" if "z < k"
  proof
    assume "n mod 2 ^ k = 0"
    then have "take_bit k n = 0" by (simp add: take_bit_eq_mod)
    then have "\<not> bit (take_bit k n) z" by simp
    then show False using assms(1) that by (simp add: bit_take_bit_iff)
  qed
  then have "k = z \<and> n div 2 ^ k = Suc (m div 2 ^ k) \<or> z < k \<and> n div 2 ^ k = m div 2 ^ k"
    using low assms(3) n by (cases "k = z") (auto simp: div_Suc)
  then show ?thesis using assms(1) n by (auto simp: bit_iff_odd)
qed

lemma bit_clear_lowest: "bit (m AND (m - 1)) k \<longleftrightarrow> bit m k \<and> k \<noteq> elpis_ctz32 m" if "m \<noteq> 0" for m :: u32
proof -
  let ?z = "elpis_ctz32 m"
  have z: "bit m ?z" "\<And>j. j < ?z \<Longrightarrow> \<not> bit m j" using ctz32_bit [OF that] ctz32_least [of m] by auto
  have u: "bit (unat w) j = bit w j" for w :: u32 and j
    using bit_imp_le_length [of w j] by (auto simp: bit_unsigned_iff)
  have "unat (m - 1) = unat m - 1" using that by (simp add: unat_minus_one)
  then have "bit (m - 1) k \<longleftrightarrow> k \<noteq> ?z \<and> bit m k" if "?z \<le> k"
    using bit_pred_nat [of "unat m" ?z k] z that by (metis u)
  then show ?thesis using z by (cases "?z \<le> k") (auto simp: bit_and_iff)
qed

section \<open>Scanning a group\<close>

definition matches :: "('v \<Rightarrow> 'k \<Rightarrow> bool) \<Rightarrow> u64 \<Rightarrow> 'k \<Rightarrow> 'v centry \<Rightarrow> bool" where
  "matches eqfn hash key e \<longleftrightarrow> ehash e = hash \<and> eqfn (epay e) key"

lemma match_scan_Some:
  "match_scan eqfn s hash key g m = Some (i, e) \<Longrightarrow>
   (\<exists>b. bit m b \<and> i = (g + b) AND (cap s - 1)) \<and> slot_at s i = Some e \<and> matches eqfn hash key e"
proof (induction eqfn s hash key g m rule: match_scan.induct)
  case (1 eqfn s hash key g m)
  let ?i = "(g + elpis_ctz32 m) AND (cap s - 1)" and ?m = "m AND (m - 1)"
  have m: "m \<noteq> 0" using 1(3) by (subst (asm) match_scan.simps) (auto split: if_splits)
  show ?case
  proof (cases "\<exists>e. slot_at s ?i = Some e \<and> matches eqfn hash key e")
    case True
    then show ?thesis using 1(3) m ctz32_bit [OF m]
      by (subst (asm) match_scan.simps) (auto simp: Let_def matches_def)
  next
    case False
    then have "match_scan eqfn s hash key g ?m = Some (i, e)"
      using 1(3) m by (subst (asm) match_scan.simps) (auto simp: Let_def matches_def split: option.splits)
    moreover have "match_scan eqfn s hash key g ?m = Some (i, e) \<Longrightarrow>
        (\<exists>b. bit ?m b \<and> i = (g + b) AND (cap s - 1)) \<and> slot_at s i = Some e \<and> matches eqfn hash key e"
      using 1(1,2) m False by (cases "slot_at s ?i") (auto simp: matches_def)
    ultimately show ?thesis by (auto simp: bit_clear_lowest [OF m])
  qed
qed

lemma match_scan_None:
  "match_scan eqfn s hash key g m = None \<Longrightarrow> bit m b \<Longrightarrow> slot_at s ((g + b) AND (cap s - 1)) = Some e \<Longrightarrow> \<not> matches eqfn hash key e"
proof (induction eqfn s hash key g m rule: match_scan.induct)
  case (1 eqfn s hash key g m)
  let ?i = "(g + elpis_ctz32 m) AND (cap s - 1)" and ?m = "m AND (m - 1)"
  have m: "m \<noteq> 0" using 1(4) by auto
  have n: "\<not> (\<exists>e. slot_at s ?i = Some e \<and> matches eqfn hash key e)" "match_scan eqfn s hash key g ?m = None"
    using 1(3) m by (subst (asm) match_scan.simps; auto simp: Let_def matches_def split: option.splits if_splits)+
  show ?case
  proof (cases "b = elpis_ctz32 m")
    case True
    then show ?thesis using n(1) 1(5) by auto
  next
    case False
    then have "bit ?m b" using 1(4) by (simp add: bit_clear_lowest [OF m])
    then show ?thesis using 1(1,2) m n 1(5) by (cases "slot_at s ?i") (auto simp: matches_def)
  qed
qed

lemma bit_empty_scan:
  "bit (empty_scan grp sp acc) k \<longleftrightarrow> bit acc k \<or> bit sp k \<and> grp ! k = CTRL_EMPTY"
proof (induction grp sp acc rule: empty_scan.induct)
  case (1 grp sp acc)
  show ?case
  proof (cases "sp = 0")
    case True
    then show ?thesis by (simp add: empty_scan.simps)
  next
    case False
    have z: "bit sp (elpis_ctz32 sp)" by (rule ctz32_bit [OF False])
    have "elpis_ctz32 sp < 32" using bit_imp_le_length [OF z] by simp
    then have p: "bit (2 ^ elpis_ctz32 sp :: u32) k \<longleftrightarrow> k = elpis_ctz32 sp"
      by (auto simp: bit_exp_iff)
    have "empty_scan grp sp acc = empty_scan grp (sp AND (sp - 1))
        (if grp ! elpis_ctz32 sp = CTRL_EMPTY then acc OR push_bit (elpis_ctz32 sp) 1 else acc)"
      using False by (simp add: empty_scan.simps)
    then have "bit (empty_scan grp sp acc) k \<longleftrightarrow>
        (bit acc k \<or> k = elpis_ctz32 sp \<and> grp ! k = CTRL_EMPTY) \<or> (bit sp k \<and> k \<noteq> elpis_ctz32 sp) \<and> grp ! k = CTRL_EMPTY"
      by (simp only: 1 [OF False] bit_clear_lowest [OF False]) (auto simp: bit_or_iff p)
    then show ?thesis using z by auto
  qed
qed

lemma empty_scan_zero:
  "empty_scan grp (elpis_group_special grp) 0 = 0 \<longleftrightarrow> (\<forall>k < 16. grp ! k \<noteq> CTRL_EMPTY)"
proof -
  have "CTRL_EMPTY AND 0x80 \<noteq> 0" by (simp add: CTRL_EMPTY_def)
  then have "bit (empty_scan grp (elpis_group_special grp) 0) k \<longleftrightarrow> k < 16 \<and> grp ! k = CTRL_EMPTY" for k
    unfolding bit_empty_scan by (auto simp del: bit_eq_iff)
  then show ?thesis by (metis bit_0_eq bit_eqI bot_apply bot_bool_def)
qed

lemma group_special_zero: "elpis_group_special grp = 0 \<longleftrightarrow> (\<forall>k < 16. IS_FULL (grp ! k))"
  by (auto simp: bit_eq_iff IS_FULL_def)

section \<open>The table invariant\<close>

text \<open>The distance of a slot from the start of the probe sequence of a hash.\<close>

definition dist :: "nat \<Rightarrow> u64 \<Rightarrow> nat \<Rightarrow> nat" where
  "dist n hash i = (i + n - start_pos n hash) mod n"

text \<open>
  A slot is full exactly when its control byte is a tag, the first sixteen control bytes are
  mirrored behind the last, and no group before the one that holds an entry has an empty byte.
\<close>

definition table_ok :: "'v shard \<Rightarrow> bool" where
  "table_ok s \<longleftrightarrow>
     (\<exists>k. 6 \<le> k \<and> k \<le> 31 \<and> cap s = 2 ^ k) \<and> length (ctrl s) = cap s + 16 \<and> length (slots s) = cap s \<and>
     (\<forall>i < 16. ctrl s ! (cap s + i) = ctrl s ! i) \<and>
     (\<forall>i < cap s. case slots s ! i of None \<Rightarrow> ctrl s ! i \<in> {CTRL_EMPTY, CTRL_DELETED}
        | Some e \<Rightarrow> ctrl s ! i = h2 (ehash e) \<and>
            (\<forall>j < cap s. dist (cap s) (ehash e) j div 16 < dist (cap s) (ehash e) i div 16 \<longrightarrow> ctrl s ! j \<noteq> CTRL_EMPTY))"

lemma mask_mod: "cap s = 2 ^ k \<Longrightarrow> (n :: nat) AND (cap s - 1) = n mod cap s"
  by (simp add: take_bit_eq_mod [symmetric] take_bit_eq_mask mask_eq_exp_minus_1)

lemma IS_FULL_iff: "IS_FULL c \<longleftrightarrow> unat c < 128"
  unfolding IS_FULL_def by (rule all_byte) code_simp

lemma h2_full: "IS_FULL (h2 h)"
proof -
  have "h AND 0x7F \<le> 0x7F" by (rule word_and_le1)
  then have "unat (h AND 0x7F) \<le> 127" by (simp add: word_le_nat_alt)
  then show ?thesis by (simp add: IS_FULL_iff h2_def unsigned_ucast_eq take_bit_eq_mod)
qed

lemma ctrl_consts [simp]: "\<not> IS_FULL CTRL_EMPTY" "\<not> IS_FULL CTRL_DELETED" "CTRL_EMPTY \<noteq> CTRL_DELETED" "CTRL_DELETED \<noteq> CTRL_EMPTY"
  by (simp_all add: IS_FULL_def CTRL_EMPTY_def CTRL_DELETED_def)

lemma table_okE:
  assumes "table_ok s"
  obtains k where "6 \<le> k" "k \<le> 31" "cap s = 2 ^ k" "64 \<le> cap s" "cap s \<le> 2 ^ 31" "16 dvd cap s"
    "length (ctrl s) = cap s + 16" "length (slots s) = cap s"
proof -
  obtain k where k: "6 \<le> k" "k \<le> 31" "cap s = 2 ^ k" using assms by (auto simp: table_ok_def)
  have "(2::nat) ^ 6 \<le> 2 ^ k" "(2::nat) ^ k \<le> 2 ^ 31" by (rule power_increasing; use k in simp)+
  moreover have "(2::nat) ^ 4 dvd 2 ^ k" by (rule le_imp_power_dvd) (use k in simp)
  ultimately show ?thesis using that [of k] k assms by (auto simp: table_ok_def)
qed

lemma table_full: "table_ok s \<Longrightarrow> i < cap s \<Longrightarrow> IS_FULL (ctrl s ! i) \<longleftrightarrow> slots s ! i \<noteq> None"
  by (auto simp: table_ok_def h2_full split: option.splits)

lemma table_tag: "table_ok s \<Longrightarrow> i < cap s \<Longrightarrow> slots s ! i = Some e \<Longrightarrow> ctrl s ! i = h2 (ehash e)"
  by (auto simp: table_ok_def split: option.splits)

lemma table_none: "table_ok s \<Longrightarrow> i < cap s \<Longrightarrow> slots s ! i = None \<Longrightarrow> ctrl s ! i = CTRL_EMPTY \<or> ctrl s ! i = CTRL_DELETED"
  by (auto simp: table_ok_def split: option.splits)

lemma table_probe:
  "table_ok s \<Longrightarrow> i < cap s \<Longrightarrow> slots s ! i = Some e \<Longrightarrow> j < cap s \<Longrightarrow>
   dist (cap s) (ehash e) j div 16 < dist (cap s) (ehash e) i div 16 \<Longrightarrow> ctrl s ! j \<noteq> CTRL_EMPTY"
  unfolding table_ok_def by (auto split: option.splits)

lemma table_mirror: "table_ok s \<Longrightarrow> i < 16 \<Longrightarrow> ctrl s ! (cap s + i) = ctrl s ! i"
  by (simp add: table_ok_def)

text \<open>A group read at \<open>g\<close> sees the control bytes of sixteen consecutive slots, around the end.\<close>

lemma group_byte:
  assumes "table_ok s" and "g < cap s" and "b < 16"
  shows "drop g (ctrl s) ! b = ctrl s ! ((g + b) mod cap s)"
proof -
  have l: "length (ctrl s) = cap s + 16" "64 \<le> cap s" by (rule table_okE [OF assms(1)], simp)+
  show ?thesis
  proof (cases "g + b < cap s")
    case True
    then show ?thesis using l assms(2,3) by simp
  next
    case False
    then have m: "(g + b) mod cap s = g + b - cap s" using assms l by (simp add: mod_if)
    have "ctrl s ! (cap s + (g + b - cap s)) = ctrl s ! (g + b - cap s)"
      using assms False by (intro table_mirror) auto
    then show ?thesis using l False assms m by simp
  qed
qed

lemma unat_of_nat64: "m < 2 ^ 64 \<Longrightarrow> unat (word_of_nat m :: u64) = m"
  by (simp add: unat_of_nat)

lemma start_less: "table_ok s \<Longrightarrow> start_pos (cap s) hash < cap s"
proof -
  assume "table_ok s"
  then have k: "64 \<le> cap s" "cap s \<le> 2 ^ 31" by (auto elim: table_okE)
  have "start_pos (cap s) hash \<le> unat (word_of_nat (cap s - 1) :: u64)"
    unfolding start_pos_def by (simp add: word_and_le1 flip: word_le_nat_alt)
  also have "\<dots> = cap s - 1" by (rule unat_of_nat64) (use k in simp)
  finally show ?thesis using k by simp
qed

text \<open>Distance and slot determine each other.\<close>

lemma dist_slot:
  assumes "table_ok s" and "i < cap s"
  shows "dist (cap s) hash i < cap s" and "(start_pos (cap s) hash + dist (cap s) hash i) mod cap s = i"
proof -
  let ?n = "cap s" and ?a = "start_pos (cap s) hash"
  have a: "?a < ?n" by (rule start_less [OF assms(1)])
  show "dist ?n hash i < ?n" using a by (simp add: dist_def)
  have "(?a + dist ?n hash i) mod ?n = (?a + (i + ?n - ?a)) mod ?n" unfolding dist_def by (simp add: mod_add_right_eq)
  also have "\<dots> = i" using a assms(2) by simp
  finally show "(?a + dist ?n hash i) mod ?n = i" .
qed

lemma slot_dist:
  assumes "table_ok s" and "d < cap s"
  shows "dist (cap s) hash ((start_pos (cap s) hash + d) mod cap s) = d"
proof -
  let ?n = "cap s" and ?a = "start_pos (cap s) hash"
  have a: "?a < ?n" by (rule start_less [OF assms(1)])
  have "dist ?n hash ((?a + d) mod ?n) = ((?a + d) mod ?n + (?n - ?a)) mod ?n" using a by (simp add: dist_def)
  also have "\<dots> = (?a + d + (?n - ?a)) mod ?n" by (simp add: mod_add_left_eq)
  also have "\<dots> = d" using a assms(2) by simp
  finally show ?thesis .
qed

section \<open>Finding\<close>

definition present :: "('v \<Rightarrow> 'k \<Rightarrow> bool) \<Rightarrow> 'v shard \<Rightarrow> u64 \<Rightarrow> 'k \<Rightarrow> nat \<Rightarrow> 'v centry \<Rightarrow> bool" where
  "present eqfn s hash key i e \<longleftrightarrow> i < cap s \<and> slots s ! i = Some e \<and> matches eqfn hash key e"

lemma probe_mod:
  assumes "table_ok s"
  shows "n AND (cap s - 1) = n mod cap s" and "n AND (cap s - Suc 0) = n mod cap s"
proof -
  show "n AND (cap s - 1) = n mod cap s" using assms by (elim table_okE) (rule mask_mod)
  then show "n AND (cap s - Suc 0) = n mod cap s" by simp
qed

lemma probe_next: "((a + 16 * q) mod n + 16) mod n = (a + 16 * Suc q) mod n" for n :: nat
proof -
  have "((a + 16 * q) mod n + 16) mod n = (a + 16 * q + 16) mod n" by (rule mod_add_left_eq)
  then show ?thesis by (simp add: algebra_simps)
qed

text \<open>The slot at distance \<open>16 q + b\<close> is the \<open>b\<close>-th of the \<open>q\<close>-th group.\<close>

lemma group_slot:
  assumes "table_ok s" and "i < cap s" and "dist (cap s) hash i div 16 = q"
  shows "\<exists>b < 16. i = ((start_pos (cap s) hash + 16 * q) mod cap s + b) mod cap s"
proof -
  let ?d = "dist (cap s) hash i"
  have "?d = 16 * q + ?d mod 16" using assms(3) by (metis mult_div_mod_eq)
  then have "i = (start_pos (cap s) hash + (16 * q + ?d mod 16)) mod cap s" using dist_slot(2) [OF assms(1,2), of hash] by simp
  then show ?thesis by (intro exI [of _ "?d mod 16"]) (simp add: mod_add_left_eq add.assoc)
qed

lemma find_loop_Some:
  "table_ok s \<Longrightarrow> find_loop eqfn s hash key pos st = Some (i, e) \<Longrightarrow> present eqfn s hash key i e"
proof (induction eqfn s hash key pos st rule: find_loop.induct)
  case (1 eqfn s hash key pos st)
  let ?g = "pos AND (cap s - 1)"
  show ?case
  proof (cases "match_scan eqfn s hash key ?g (elpis_group_match (drop ?g (ctrl s)) (h2 hash))")
    case None
    then show ?thesis using 1 by (subst (asm) (2) find_loop.simps) (auto simp: Let_def split: if_splits)
  next
    case (Some r)
    then have "match_scan eqfn s hash key ?g (elpis_group_match (drop ?g (ctrl s)) (h2 hash)) = Some (i, e)"
      using 1(3) by (subst (asm) find_loop.simps) (simp add: Let_def)
    from match_scan_Some [OF this] show ?thesis
      using 1(2) by (auto simp: present_def slot_at_Some elim: table_okE)
  qed
qed

lemma find_loop_step:
  assumes "table_ok s" and "g < cap s"
  shows "find_loop eqfn s hash key g st =
    (case match_scan eqfn s hash key g (elpis_group_match (drop g (ctrl s)) (h2 hash)) of Some r \<Rightarrow> Some r
     | None \<Rightarrow> if \<exists>b < 16. drop g (ctrl s) ! b = CTRL_EMPTY then None
       else if cap s < 16 + st then None else find_loop eqfn s hash key ((g + 16) mod cap s) (16 + st))"
  using assms(2) by (subst find_loop.simps)
    (simp add: Let_def probe_mod [OF assms(1)] ELPIS_GROUP_def add.commute [of st] empty_scan_zero cong: option.case_cong if_cong)

lemma find_loop_None:
  assumes "table_ok s"
  shows "find_loop eqfn s hash key ((start_pos (cap s) hash + 16 * q) mod cap s) (16 * q) = None \<Longrightarrow>
    present eqfn s hash key i e \<Longrightarrow> dist (cap s) hash i < 16 * q"
proof (induction "cap s div 16 + 1 - q" arbitrary: q)
  case 0
  then show ?case using dist_slot(1) [OF assms, of i hash] by (auto simp: present_def)
next
  case (Suc x)
  let ?n = "cap s" and ?a = "start_pos (cap s) hash"
  let ?g = "(?a + 16 * q) mod ?n"
  have n: "64 \<le> ?n" "16 dvd ?n" using assms by (auto elim: table_okE)
  have g: "?g < ?n" using n by simp
  have p: "i < ?n" "slots s ! i = Some e" "matches eqfn hash key e" "slot_at s i = Some e"
    using Suc.prems(2) assms by (auto simp: present_def slot_at_Some elim: table_okE)
  have h: "ehash e = hash" using p(3) by (simp add: matches_def)
  have ms: "match_scan eqfn s hash key ?g (elpis_group_match (drop ?g (ctrl s)) (h2 hash)) = None"
    using Suc.prems(1) unfolding find_loop_step [OF assms g] by (auto split: option.splits)
  have here: "dist ?n hash i div 16 \<noteq> q"
  proof
    assume "dist ?n hash i div 16 = q"
    then obtain b where b: "b < 16" "i = (?g + b) mod ?n" using group_slot [OF assms p(1)] by blast
    have "drop ?g (ctrl s) ! b = h2 hash" using group_byte [OF assms g b(1)] table_tag [OF assms p(1,2)] b(2) h by simp
    then have "bit (elpis_group_match (drop ?g (ctrl s)) (h2 hash)) b" using b(1) by simp
    then show False using match_scan_None [OF ms, of b e] p b(2) by (simp add: probe_mod [OF assms])
  qed
  consider b where "b < 16" "drop ?g (ctrl s) ! b = CTRL_EMPTY"
    | "?n < 16 + 16 * q" | "find_loop eqfn s hash key ((?a + 16 * Suc q) mod ?n) (16 * Suc q) = None"
    using Suc.prems(1) unfolding find_loop_step [OF assms g] ms by (auto simp: probe_next split: if_splits)
  then show ?case
  proof cases
    case b: 1
    let ?j = "(?a + (16 * q + b)) mod ?n"
    have j: "ctrl s ! ?j = CTRL_EMPTY" using group_byte [OF assms g b(1)] b(2) by (simp add: mod_add_left_eq add.assoc)
    show ?thesis
    proof (rule ccontr)
      assume "\<not> dist ?n hash i < 16 * q"
      then have d: "q < dist ?n hash i div 16" using here by linarith
      then have lt: "16 * q + b < ?n" using dist_slot(1) [OF assms p(1), of hash] b(1) by linarith
      have "dist ?n hash ?j div 16 = q" using slot_dist [OF assms lt, of hash] b(1) by simp
      then have "ctrl s ! ?j \<noteq> CTRL_EMPTY" using table_probe [OF assms p(1,2), of ?j] d h n by simp
      then show False using j by simp
    qed
  next
    case 2
    then have "dist ?n hash i div 16 \<le> q" using dist_slot(1) [OF assms p(1), of hash] by linarith
    then show ?thesis using here by linarith
  next
    case 3
    have "x = ?n div 16 + 1 - Suc q" using Suc(2) by simp
    then have "dist ?n hash i < 16 * Suc q" using Suc.hyps(1) 3 Suc.prems(2) by blast
    then show ?thesis using here div_nat_eqI [of 16 q "dist ?n hash i"] by (auto simp: mult.commute)
  qed
qed

lemma find_slot_Some: "table_ok s \<Longrightarrow> find_slot eqfn s hash key = Some (i, e) \<Longrightarrow> present eqfn s hash key i e"
  unfolding find_slot_def by (rule find_loop_Some)

lemma find_slot_None: "table_ok s \<Longrightarrow> find_slot eqfn s hash key = None \<Longrightarrow> \<not> present eqfn s hash key i e"
  using find_loop_None [of s eqfn hash key 0 i e] start_less [of s hash] by (auto simp: find_slot_def)

text \<open>A group without special bytes extends the stretch of full slots.\<close>

lemma full_stretch:
  assumes "table_ok s" and "elpis_group_special (drop ((start_pos (cap s) hash + 16 * q) mod cap s) (ctrl s)) = 0"
    and "\<And>j. j < cap s \<Longrightarrow> dist (cap s) hash j < 16 * q \<Longrightarrow> IS_FULL (ctrl s ! j)" and "j < cap s" and "dist (cap s) hash j < 16 * Suc q"
  shows "IS_FULL (ctrl s ! j)"
proof (cases "dist (cap s) hash j < 16 * q")
  case False
  let ?g = "(start_pos (cap s) hash + 16 * q) mod cap s"
  have "dist (cap s) hash j div 16 = q" using False assms(5) by (intro div_nat_eqI) auto
  then obtain b where b: "b < 16" "j = (?g + b) mod cap s" using group_slot [OF assms(1,4)] by blast
  have "?g < cap s" using assms(4) by simp
  then show ?thesis using group_byte [OF assms(1) _ b(1), of ?g] assms(2) b by (auto simp: group_special_zero)
qed (use assms in blast)

lemma free_loop_step:
  assumes "table_ok s" and "g < cap s"
  shows "free_loop s g st = (let sp = elpis_group_special (drop g (ctrl s)) in
    if sp \<noteq> 0 then Some ((g + elpis_ctz32 sp) mod cap s)
    else if cap s < 16 + st then None else free_loop s ((g + 16) mod cap s) (16 + st))"
  using assms(2) by (subst free_loop.simps) (simp add: Let_def probe_mod [OF assms(1)] ELPIS_GROUP_def add.commute [of st])

lemma free_loop_Some:
  assumes "table_ok s"
  shows "free_loop s ((start_pos (cap s) hash + 16 * q) mod cap s) (16 * q) = Some i \<Longrightarrow>
    (\<And>j. j < cap s \<Longrightarrow> dist (cap s) hash j < 16 * q \<Longrightarrow> IS_FULL (ctrl s ! j)) \<Longrightarrow>
    i < cap s \<and> \<not> IS_FULL (ctrl s ! i) \<and> (\<forall>j < cap s. dist (cap s) hash j div 16 < dist (cap s) hash i div 16 \<longrightarrow> IS_FULL (ctrl s ! j))"
proof (induction "cap s div 16 + 1 - q" arbitrary: q rule: less_induct)
  case less
  let ?n = "cap s" and ?a = "start_pos (cap s) hash"
  let ?g = "(?a + 16 * q) mod ?n"
  let ?sp = "elpis_group_special (drop ?g (ctrl s))"
  have n: "64 \<le> ?n" "16 dvd ?n" using assms by (auto elim: table_okE)
  have g: "?g < ?n" using n by simp
  show ?case
  proof (cases "?sp = 0")
    case True
    have r: "\<not> ?n < 16 + 16 * q" "free_loop s ((?a + 16 * Suc q) mod ?n) (16 * Suc q) = Some i"
      using less.prems(1) True free_loop_step [OF assms g, of "16 * q"]
      by (simp_all add: probe_next split: if_splits)
    show ?thesis
      by (rule less.hyps [OF _ r(2)]) (use r(1) full_stretch [OF assms True less.prems(2)] in auto)
  next
    case False
    let ?b = "elpis_ctz32 ?sp"
    have b: "?b < 16" "\<not> IS_FULL (drop ?g (ctrl s) ! ?b)" using ctz32_bit [OF False] by (auto simp: IS_FULL_def)
    have i: "i = (?g + ?b) mod ?n" using less.prems(1) False free_loop_step [OF assms g, of "16 * q"] by simp
    then have f: "i < ?n" "\<not> IS_FULL (ctrl s ! i)" using b group_byte [OF assms g b(1)] n by simp_all
    have "16 * q + ?b < ?n"
    proof (rule ccontr)
      assume "\<not> 16 * q + ?b < ?n"
      then have "?n \<le> 16 * q" using b(1) n(2) by (auto simp: dvd_def)
      then show False using less.prems(2) [OF f(1)] f(2) dist_slot(1) [OF assms f(1), of hash] by simp
    qed
    moreover have "i = (?a + (16 * q + ?b)) mod ?n" using i by (simp add: mod_add_left_eq add.assoc)
    ultimately have "dist ?n hash i = 16 * q + ?b" using slot_dist [OF assms] by simp
    then have "dist ?n hash i div 16 = q" using b(1) by simp
    then show ?thesis using f less.prems(2) by (auto simp: less_Suc_eq_le div_less_iff_less_mult)
  qed
qed

lemma free_loop_None:
  assumes "table_ok s"
  shows "free_loop s ((start_pos (cap s) hash + 16 * q) mod cap s) (16 * q) = None \<Longrightarrow>
    (\<And>j. j < cap s \<Longrightarrow> dist (cap s) hash j < 16 * q \<Longrightarrow> IS_FULL (ctrl s ! j)) \<Longrightarrow> j < cap s \<Longrightarrow> IS_FULL (ctrl s ! j)"
proof (induction "cap s div 16 + 1 - q" arbitrary: q rule: less_induct)
  case less
  let ?n = "cap s" and ?a = "start_pos (cap s) hash"
  let ?g = "(?a + 16 * q) mod ?n"
  let ?sp = "elpis_group_special (drop ?g (ctrl s))"
  have g: "?g < ?n" using less.prems(3) by simp
  have z: "?sp = 0" and r: "?n < 16 + 16 * q \<or> free_loop s ((?a + 16 * Suc q) mod ?n) (16 * Suc q) = None"
    using less.prems(1) free_loop_step [OF assms g, of "16 * q"] by (auto simp: Let_def probe_next split: if_splits)
  note st = full_stretch [OF assms z less.prems(2)]
  show ?case
  proof (cases "?n < 16 + 16 * q")
    case True
    then show ?thesis using st less.prems(3) dist_slot(1) [OF assms less.prems(3), of hash] by simp
  next
    case False
    show ?thesis by (rule less.hyps [of "Suc q"]) (use False r st less.prems(3) in auto)
  qed
qed

lemma find_free_Some:
  assumes "table_ok s" and "find_free s hash = Some i"
  shows "i < cap s" and "\<not> IS_FULL (ctrl s ! i)"
    and "j < cap s \<Longrightarrow> dist (cap s) hash j div 16 < dist (cap s) hash i div 16 \<Longrightarrow> IS_FULL (ctrl s ! j)"
  using free_loop_Some [OF assms(1), of hash 0 i] assms(2) start_less [OF assms(1), of hash] by (auto simp: find_free_def)

lemma find_free_None: "table_ok s \<Longrightarrow> find_free s hash = None \<Longrightarrow> j < cap s \<Longrightarrow> slots s ! j \<noteq> None"
  using free_loop_None [of s hash 0 j] start_less [of s hash] table_full [of s j] by (auto simp: find_free_def)

section \<open>Updates keep the table\<close>

lemma ctrl_set_sel [simp]:
  "cap (ctrl_set s i v) = cap s" "used (ctrl_set s i v) = used s" "tomb (ctrl_set s i v) = tomb s" "hand (ctrl_set s i v) = hand s"
  "bytes (ctrl_set s i v) = bytes s" "bytes_max (ctrl_set s i v) = bytes_max s" "pinned_entries (ctrl_set s i v) = pinned_entries s"
  "pinned_bytes (ctrl_set s i v) = pinned_bytes s" "length (ctrl (ctrl_set s i v)) = length (ctrl s)"
  "ctrl (ctrl_set (s\<lparr>slots := x\<rparr>) i v) = ctrl (ctrl_set s i v)"
  by (simp_all add: ctrl_set_def Let_def)

lemma ctrl_set_nth:
  assumes "length (ctrl s) = cap s + 16" and "16 \<le> cap s" and "i < cap s"
  shows "j < cap s \<Longrightarrow> ctrl (ctrl_set s i v) ! j = (if j = i then v else ctrl s ! j)"
    and "j < 16 \<Longrightarrow> ctrl (ctrl_set s i v) ! (cap s + j) = (if j = i then v else ctrl s ! (cap s + j))"
  using assms by (auto simp: ctrl_set_def Let_def ELPIS_GROUP_def nth_list_update)

lemma table_update:
  assumes s: "table_ok s" and i: "i < cap s" and v: "v \<noteq> CTRL_EMPTY"
    and x: "case x of None \<Rightarrow> v = CTRL_DELETED
      | Some e \<Rightarrow> v = h2 (ehash e) \<and> (\<forall>j < cap s. dist (cap s) (ehash e) j div 16 < dist (cap s) (ehash e) i div 16 \<longrightarrow> ctrl s ! j \<noteq> CTRL_EMPTY)"
    and s': "cap s' = cap s" "slots s' = (slots s)[i := x]" "ctrl s' = ctrl (ctrl_set s i v)"
  shows "table_ok s'"
proof -
  obtain k where k: "6 \<le> k" "k \<le> 31" "cap s = 2 ^ k" "64 \<le> cap s" and l: "length (ctrl s) = cap s + 16" "length (slots s) = cap s"
    using s by (rule table_okE)
  note nth = ctrl_set_nth [OF l(1) _ i, of _ v]
  have c: "ctrl s' ! j = (if j = i then v else ctrl s ! j)" if "j < cap s" for j using nth(1) [OF _ that] k s'(3) by simp
  have m: "ctrl s' ! (cap s + j) = ctrl s' ! j" if "j < 16" for j
    using nth(2) [OF _ that] table_mirror [OF s that] c [of j] k that s'(3) by simp
  have ne: "ctrl s' ! j \<noteq> CTRL_EMPTY" if "j < cap s" "ctrl s ! j \<noteq> CTRL_EMPTY" for j using c that v by simp
  have "case slots s' ! j of None \<Rightarrow> ctrl s' ! j \<in> {CTRL_EMPTY, CTRL_DELETED}
        | Some e \<Rightarrow> ctrl s' ! j = h2 (ehash e) \<and>
            (\<forall>q < cap s. dist (cap s) (ehash e) q div 16 < dist (cap s) (ehash e) j div 16 \<longrightarrow> ctrl s' ! q \<noteq> CTRL_EMPTY)"
    if j: "j < cap s" for j
  proof (cases "j = i")
    case True
    then show ?thesis using x c [OF j] ne l(2) i s'(2) by (auto split: option.splits)
  next
    case False
    then show ?thesis
      using table_none [OF s j] table_tag [OF s j] table_probe [OF s j] c [OF j] ne s'(2) by (auto split: option.splits)
  qed
  moreover have "\<exists>k. 6 \<le> k \<and> k \<le> 31 \<and> cap s = 2 ^ k" using k by blast
  ultimately show ?thesis unfolding table_ok_def s'(1) using l m s'(2,3) by simp
qed

lemma table_ok_cong: "ctrl s' = ctrl s \<Longrightarrow> slots s' = slots s \<Longrightarrow> cap s' = cap s \<Longrightarrow> table_ok s' = table_ok s"
  by (simp add: table_ok_def cong: option.case_cong)

lemma table_reslot:
  assumes s: "table_ok s" and i: "i < cap s" "slots s ! i = Some e" "ehash e' = ehash e"
    and s': "cap s' = cap s" "slots s' = (slots s)[i := Some e']" "ctrl s' = ctrl s"
  shows "table_ok s'"
proof (rule table_update [OF s i(1), where v = "ctrl s ! i" and x = "Some e'"])
  have l: "length (ctrl s) = cap s + 16" "64 \<le> cap s" using s by (auto elim: table_okE)
  show "ctrl s ! i \<noteq> CTRL_EMPTY" using table_tag [OF s i(1,2)] h2_full [of "ehash e"] by auto
  show "case Some e' of None \<Rightarrow> ctrl s ! i = CTRL_DELETED | Some e \<Rightarrow> ctrl s ! i = h2 (ehash e) \<and>
      (\<forall>j < cap s. dist (cap s) (ehash e) j div 16 < dist (cap s) (ehash e) i div 16 \<longrightarrow> ctrl s ! j \<noteq> CTRL_EMPTY)"
    using table_tag [OF s i(1,2)] table_probe [OF s i(1,2)] i(3) by simp
  show "ctrl s' = ctrl (ctrl_set s i (ctrl s ! i))"
    using table_mirror [OF s, of i] s'(3) by (cases "i < 16") (auto simp: ctrl_set_def Let_def ELPIS_GROUP_def, metis list_update_id)
qed (use s' in simp_all)

section \<open>Contents and counters\<close>

text \<open>What a shard holds, apart from the reference bits.\<close>

definition norm :: "'v centry \<Rightarrow> 'v centry" where
  "norm e = e\<lparr>eref := False\<rparr>"

definition held :: "'v centry option list \<Rightarrow> 'v centry multiset" where
  "held xs = mset (map (norm \<circ> the) (filter (\<lambda>x. x \<noteq> None) xs))"

abbreviation contents :: "'v shard \<Rightarrow> 'v centry multiset" where
  "contents s \<equiv> held (slots s)"

lemma norm_sel [simp]:
  "ehash (norm e) = ehash e" "eexpiry (norm e) = eexpiry e" "esize (norm e) = esize e" "epinned (norm e) = epinned e" "epay (norm e) = epay e"
  "norm (norm e) = norm e" "norm (e\<lparr>eref := b\<rparr>) = norm e" "matches eqfn h k (norm e) = matches eqfn h k e"
  by (simp_all add: norm_def matches_def)

lemma held_simps [simp]: "held [] = {#}" "held (None # xs) = held xs" "held (Some e # xs) = add_mset (norm e) (held xs)"
  "held (replicate n None) = {#}"
  by (simp_all add: held_def)

lemma held_append [simp]: "held (xs @ ys) = held xs + held ys"
  by (simp add: held_def)

lemma held_split: "i < length xs \<Longrightarrow> held xs = held (take i xs) + held [xs ! i] + held (drop (Suc i) xs)"
  by (subst id_take_nth_drop [of i xs]) (simp_all flip: held_append)

lemma held_update: "i < length xs \<Longrightarrow> held (xs[i := x]) = held (take i xs) + held [x] + held (drop (Suc i) xs)"
  by (simp add: upd_conv_take_nth_drop flip: held_append)

lemma held_member: "i < length xs \<Longrightarrow> xs ! i = Some e \<Longrightarrow> norm e \<in># held xs"
  by (simp add: held_split)

lemma held_put: "i < length xs \<Longrightarrow> xs ! i = None \<Longrightarrow> held (xs[i := Some e]) = add_mset (norm e) (held xs)"
  by (simp add: held_split [of i xs] held_update)

lemma held_swap: "i < length xs \<Longrightarrow> xs ! i = Some e \<Longrightarrow> held (xs[i := Some e']) = add_mset (norm e') (held xs - {#norm e#})"
  by (simp add: held_split [of i xs] held_update)

lemma held_drop: "i < length xs \<Longrightarrow> xs ! i = Some e \<Longrightarrow> held (xs[i := None]) = held xs - {#norm e#}"
  by (simp add: held_split [of i xs] held_update)

lemma held_in: "v \<in># held xs \<longleftrightarrow> (\<exists>i e. i < length xs \<and> xs ! i = Some e \<and> v = norm e)"
proof -
  have "v \<in># held xs \<longleftrightarrow> (\<exists>e. Some e \<in> set xs \<and> v = norm e)"
  proof (induction xs)
    case (Cons x xs)
    then show ?case by (cases x) auto
  qed simp
  then show ?thesis by (auto simp: in_set_conv_nth)
qed

lemma held_size: "size (held xs) \<le> length xs"
proof (induction xs)
  case (Cons x xs)
  then show ?case by (cases x) auto
qed simp

lemma held_full: "size (held xs) = length xs \<longleftrightarrow> None \<notin> set xs"
proof (induction xs)
  case (Cons x xs)
  then show ?case using held_size [of xs] by (cases x) auto
qed simp

definition deleted :: "'v shard \<Rightarrow> nat" where
  "deleted s = count (mset (take (cap s) (ctrl s))) CTRL_DELETED"

definition counts_ok :: "'v shard \<Rightarrow> bool" where
  "counts_ok s \<longleftrightarrow> used s = word_of_nat (size (contents s)) \<and>
     bytes s = (\<Sum>e \<in># contents s. ucast (esize e)) \<and>
     pinned_entries s = word_of_nat (size (filter_mset epinned (contents s))) \<and>
     pinned_bytes s = (\<Sum>e \<in># filter_mset epinned (contents s). ucast (esize e))"

definition shard_ok :: "'v shard \<Rightarrow> bool" where
  "shard_ok s \<longleftrightarrow> table_ok s \<and> counts_ok s \<and> hand s < cap s \<and> tomb s = word_of_nat (deleted s) \<and>
     8 * (size (contents s) + deleted s) \<le> 7 * cap s"

section \<open>Operations keep the invariant\<close>

lemma shard_okD:
  assumes "shard_ok s"
  shows "table_ok s" "counts_ok s" "hand s < cap s" "tomb s = word_of_nat (deleted s)" "8 * (size (contents s) + deleted s) \<le> 7 * cap s"
    "length (slots s) = cap s" "length (ctrl s) = cap s + 16" "64 \<le> cap s" "cap s \<le> 2 ^ 31"
  using assms by (auto simp: shard_ok_def elim: table_okE)

lemma take_ctrl_set:
  "length (ctrl s) = cap s + 16 \<Longrightarrow> i < cap s \<Longrightarrow> take (cap s) (ctrl (ctrl_set s i v)) = (take (cap s) (ctrl s))[i := v]"
  by (rule nth_equalityI) (auto simp: ctrl_set_def Let_def nth_list_update ELPIS_GROUP_def)

lemma deleted_ctrl_set:
  assumes "length (ctrl s) = cap s + 16" and "i < cap s" and "cap s' = cap s" and "ctrl s' = ctrl (ctrl_set s i v)"
  shows "deleted s' + (if ctrl s ! i = CTRL_DELETED then 1 else 0) = deleted s + (if v = CTRL_DELETED then 1 else 0)"
proof -
  have m: "mset (take (cap s) (ctrl s')) = add_mset v (mset (take (cap s) (ctrl s)) - {#ctrl s ! i#})"
    using assms by (simp add: take_ctrl_set mset_update)
  have "ctrl s ! i \<in># mset (take (cap s) (ctrl s))" using assms(1,2) by (auto simp: in_set_conv_nth)
  then show ?thesis unfolding deleted_def assms(3) m by (auto simp: count_eq_zero_iff Suc_pred)
qed

lemma slot_drop_eq:
  "slot_at s i = Some e \<Longrightarrow> slot_drop s i =
     (ctrl_set (s\<lparr>slots := (slots s)[i := None], bytes := bytes s - ucast (esize e),
        pinned_entries := pinned_entries s - (if epinned e then 1 else 0),
        pinned_bytes := pinned_bytes s - (if epinned e then ucast (esize e) else 0)\<rparr>) i CTRL_DELETED)\<lparr>used := used s - 1, tomb := tomb s + 1\<rparr>"
  by (auto simp: slot_drop_def ctrl_set_def Let_def)

lemma slot_drop_sel:
  assumes "slot_at s i = Some e"
  shows "ctrl (slot_drop s i) = ctrl (ctrl_set s i CTRL_DELETED)" "cap (slot_drop s i) = cap s" "hand (slot_drop s i) = hand s"
    "used (slot_drop s i) = used s - 1" "tomb (slot_drop s i) = tomb s + 1" "bytes (slot_drop s i) = bytes s - ucast (esize e)"
    "pinned_entries (slot_drop s i) = pinned_entries s - (if epinned e then 1 else 0)"
    "pinned_bytes (slot_drop s i) = pinned_bytes s - (if epinned e then ucast (esize e) else 0)" "bytes_max (slot_drop s i) = bytes_max s"
  by (simp_all add: slot_drop_eq [OF assms] ctrl_set_def Let_def)

lemma contents_drop: "slot_at s i = Some e \<Longrightarrow> contents (slot_drop s i) = contents s - {#norm e#}"
  by (simp add: slots_slot_drop held_drop slot_at_Some)

lemma slot_drop_ok:
  assumes s: "shard_ok s" and e: "slot_at s i = Some e"
  shows "shard_ok (slot_drop s i)"
proof -
  note d = shard_okD [OF s] and sel = slot_drop_sel [OF e]
  have i: "i < cap s" "slots s ! i = Some e" using e d(6) by (auto simp: slot_at_Some)
  obtain C where C: "contents s = add_mset (norm e) C" using held_member [of i "slots s" e] i d(6) by (metis mset_add)
  have C': "contents (slot_drop s i) = C" using contents_drop [OF e] C by simp
  have t: "table_ok (slot_drop s i)"
    by (rule table_update [OF d(1) i(1), where v = CTRL_DELETED and x = None]) (simp_all add: sel slots_slot_drop [OF e])
  have c: "counts_ok (slot_drop s i)"
    using d(2) unfolding counts_ok_def C' sel C by auto
  have "ctrl s ! i \<noteq> CTRL_DELETED" using table_tag [OF d(1) i] h2_full [of "ehash e"] by auto
  then have del: "deleted (slot_drop s i) = deleted s + 1"
    using deleted_ctrl_set [OF d(7) i(1), of "slot_drop s i" CTRL_DELETED] sel by simp
  show ?thesis
    using t c d(3,4,5) unfolding shard_ok_def C' del sel C by simp
qed

lemma shard_ok_cong:
  assumes "ctrl s' = ctrl s" "slots s' = slots s" "cap s' = cap s" "used s' = used s" "tomb s' = tomb s" "hand s' < cap s" "bytes s' = bytes s"
    "pinned_entries s' = pinned_entries s" "pinned_bytes s' = pinned_bytes s" "shard_ok s"
  shows "shard_ok s'"
  using assms table_ok_cong [of s' s] by (simp add: shard_ok_def counts_ok_def deleted_def)

lemma hand_next: "shard_ok s \<Longrightarrow> (n AND (cap s - 1)) < cap s"
  using probe_mod(1) [of s n] shard_okD(1,8) [of s] by simp

lemma advance_ok: "shard_ok s \<Longrightarrow> shard_ok (s\<lparr>hand := n AND (cap s - 1)\<rparr>)"
  by (rule shard_ok_cong [of _ s]) (simp_all add: hand_next del: One_nat_def)

lemma reslot_ok:
  assumes s: "shard_ok s" and i: "slot_at s i = Some e" and n: "norm e' = norm e"
    and s': "ctrl s' = ctrl s" "slots s' = (slots s)[i := Some e']" "cap s' = cap s" "used s' = used s" "tomb s' = tomb s" "hand s' < cap s"
      "bytes s' = bytes s" "pinned_entries s' = pinned_entries s" "pinned_bytes s' = pinned_bytes s"
  shows "shard_ok s'" and "contents s' = contents s"
proof -
  note d = shard_okD [OF s]
  have j: "i < cap s" "slots s ! i = Some e" using i d(6) by (auto simp: slot_at_Some)
  have "norm e \<in># contents s" using held_member [of i "slots s" e] j d(6) by simp
  then show c: "contents s' = contents s" using held_swap [of i "slots s" e e'] j d(6) s'(2) n by simp
  have "ehash e' = ehash e" using n norm_sel(1) by metis
  then have "table_ok s'" using table_reslot [OF d(1) j] s' by simp
  then show "shard_ok s'" using s c s' d(3) by (simp add: shard_ok_def counts_ok_def deleted_def)
qed

text \<open>One turn of the clock hand either frees an entry that may be freed or leaves the contents alone.\<close>

definition evictable :: "u32 \<Rightarrow> 'v centry \<Rightarrow> bool" where
  "evictable now e \<longleftrightarrow> (eexpiry e \<noteq> 0 \<and> eexpiry e \<le> now) \<or> \<not> epinned e"

lemma evictable_norm [simp]: "evictable now (norm e) = evictable now e"
  by (simp add: evictable_def)

lemma counter_ok: "shard_ok s \<Longrightarrow> shard_ok (s\<lparr>expired := x\<rparr>)" "shard_ok s \<Longrightarrow> shard_ok (s\<lparr>evictions := x\<rparr>)"
  "shard_ok s \<Longrightarrow> shard_ok (s\<lparr>hits := x\<rparr>)" "shard_ok s \<Longrightarrow> shard_ok (s\<lparr>misses := x\<rparr>)"
  by (rule shard_ok_cong [of _ s]; simp add: shard_okD)+

lemma set_ref_ok:
  assumes "shard_ok s" and "slot_at s i = Some h"
  shows "shard_ok (s\<lparr>slots := (slots s)[i := Some (h\<lparr>eref := b\<rparr>)]\<rparr>)" and "held ((slots s)[i := Some (h\<lparr>eref := b\<rparr>)]) = contents s"
proof -
  let ?t = "s\<lparr>slots := (slots s)[i := Some (h\<lparr>eref := b\<rparr>)]\<rparr>"
  show "shard_ok ?t" by (rule reslot_ok(1) [OF assms, of "h\<lparr>eref := b\<rparr>"]) (simp_all add: shard_okD [OF assms(1)])
  have "contents ?t = contents s" by (rule reslot_ok(2) [OF assms, of "h\<lparr>eref := b\<rparr>"]) (simp_all add: shard_okD [OF assms(1)])
  then show "held ((slots s)[i := Some (h\<lparr>eref := b\<rparr>)]) = contents s" by simp
qed

lemma evict_step:
  assumes s: "shard_ok s" and ev: "evict_loop (Suc n) now s = (s', ok)"
  obtains t where "shard_ok t" "cap t = cap s" "bytes_max t = bytes_max s" "contents t = contents s" "evict_loop n now t = (s', ok)"
  | v where "ok" "shard_ok s'" "cap s' = cap s" "bytes_max s' = bytes_max s" "v \<in># contents s" "evictable now v" "contents s' = contents s - {#v#}"
proof -
  define s1 where "s1 = s\<lparr>hand := (hand s + 1) AND (cap s - 1)\<rparr>"
  have s1: "shard_ok s1" "slots s1 = slots s" "cap s1 = cap s" "bytes_max s1 = bytes_max s" "slot_at s1 i = slot_at s i" for i
    using advance_ok [OF s, of "hand s + 1"] by (simp_all add: s1_def)
  note ev1 = ev [unfolded evict_loop.simps Let_def s1_def [symmetric]]
  show ?thesis
  proof (cases "if IS_FULL (ctrl s ! hand s) then slot_at s (hand s) else None")
    case None
    show ?thesis by (rule that(1) [OF s1(1,3,4)]) (use ev1 None s1(2) in simp_all)
  next
    case (Some h)
    then have h: "slot_at s1 (hand s) = Some h" using s1(5) by (simp split: if_splits)
    have m: "norm h \<in># contents s" using h held_member [of "hand s" "slots s" h] s1(2) by (simp add: slot_at_Some)
    define t where "t = slot_drop s1 (hand s)"
    have t: "shard_ok t" "contents t = contents s - {#norm h#}" "cap t = cap s" "bytes_max t = bytes_max s"
      using slot_drop_ok [OF s1(1) h] contents_drop [OF h] slot_drop_sel [OF h] s1 by (simp_all add: t_def)
    define u where "u = s1\<lparr>slots := (slots s1)[hand s := Some (h\<lparr>eref := False\<rparr>)]\<rparr>"
    have u: "shard_ok u" "contents u = contents s" "cap u = cap s" "bytes_max u = bytes_max s"
      using set_ref_ok [OF s1(1) h, of False] s1 by (simp_all add: u_def)
    note ev2 = ev1 [unfolded Some option.case t_def [symmetric] s1(2) [symmetric] u_def [symmetric]]
    show ?thesis
    proof (cases "eexpiry h \<noteq> 0 \<and> eexpiry h \<le> now")
      case True
      then show ?thesis using that(2) [of "norm h"] ev2 t m counter_ok(1) [OF t(1)] by (auto simp: evictable_def)
    next
      case ex: False
      show ?thesis
      proof (cases "epinned h \<or> eref h")
        case True
        then show ?thesis using ev2 ex that(1) [OF s1(1,3,4)] that(1) [OF u(1,3,4,2)] s1(2) by (cases "epinned h") simp_all
      next
        case False
        then show ?thesis using that(2) [of "norm h"] ev2 t m counter_ok(2) [OF t(1)] ex by (auto simp: evictable_def)
      qed
    qed
  qed
qed

lemma evict_loop_ok:
  "shard_ok s \<Longrightarrow> evict_loop n now s = (s', ok) \<Longrightarrow>
   shard_ok s' \<and> cap s' = cap s \<and> bytes_max s' = bytes_max s \<and>
   (ok \<longrightarrow> (\<exists>v \<in># contents s. evictable now v \<and> contents s' = contents s - {#v#})) \<and> (\<not> ok \<longrightarrow> contents s' = contents s)"
proof (induction n arbitrary: s)
  case (Suc n)
  show ?case
  proof (cases rule: evict_step [OF Suc.prems])
    case (1 t)
    then show ?thesis using Suc.IH [OF 1(1,5)] by simp
  next
    case (2 v)
    then show ?thesis by blast
  qed
qed auto

lemma make_room_ok:
  "shard_ok s \<Longrightarrow> shard_ok (make_room now sz s) \<and> cap (make_room now sz s) = cap s \<and> bytes_max (make_room now sz s) = bytes_max s \<and>
   contents (make_room now sz s) \<subseteq># contents s \<and> (\<forall>v \<in># contents s - contents (make_room now sz s). evictable now v)"
proof (induction now sz s rule: make_room.induct)
  case (1 now sz s)
  show ?case
  proof (cases "bytes_max s < bytes s + ucast sz")
    case False
    then show ?thesis using 1(2) by (simp add: make_room.simps)
  next
    case True
    obtain t ok where t: "shard_evict_one now s = (t, ok)" by fastforce
    have t_ok: "shard_ok t \<and> cap t = cap s \<and> bytes_max t = bytes_max s \<and>
        (ok \<longrightarrow> (\<exists>v \<in># contents s. evictable now v \<and> contents t = contents s - {#v#})) \<and> (\<not> ok \<longrightarrow> contents t = contents s)"
      using evict_loop_ok [OF 1(2)] t by (simp add: shard_evict_one_def)
    have m: "make_room now sz s = (if ok then make_room now sz t else t)" using True t by (subst make_room.simps) simp
    show ?thesis
    proof (cases ok)
      case False
      then show ?thesis using t_ok m by simp
    next
      case ok: True
      then obtain v where v: "v \<in># contents s" "evictable now v" "contents t = contents s - {#v#}" using t_ok by blast
      define C where "C = contents (make_room now sz t)"
      obtain D where D: "contents s = add_mset v D" using v(1) by (metis mset_add)
      have IH: "shard_ok (make_room now sz t)" "cap (make_room now sz t) = cap t" "bytes_max (make_room now sz t) = bytes_max t"
        "C \<subseteq># D" "\<forall>x \<in># D - C. evictable now x"
        using 1(1) [OF True t [symmetric] ok] t_ok v(3) D by (simp_all add: C_def)
      have "evictable now x" if "x \<in># add_mset v D - C" for x
        using that IH(5) v(2) by (cases "x = v") (auto simp: in_diff_count split: if_splits)
      moreover have "C \<subseteq># add_mset v D" using IH(4) by (simp add: subset_mset.add_increasing2 subseteq_mset_def le_SucI)
      ultimately show ?thesis using IH ok m t_ok by (simp add: C_def [symmetric] D)
    qed
  qed
qed

section \<open>Growing and placing\<close>

lemma put_table:
  assumes s: "table_ok s" and f: "find_free s (ehash e) = Some i"
    and s': "cap s' = cap s" "slots s' = (slots s)[i := Some e]" "ctrl s' = ctrl (ctrl_set s i (h2 (ehash e)))"
  shows "table_ok s'" and "contents s' = add_mset (norm e) (contents s)"
    and "deleted s' + (if ctrl s ! i = CTRL_DELETED then 1 else 0) = deleted s"
proof -
  note ff = find_free_Some [OF s f]
  have l: "length (ctrl s) = cap s + 16" "length (slots s) = cap s" using s by (auto elim: table_okE)
  have full: "h2 (ehash e) \<noteq> CTRL_EMPTY" "h2 (ehash e) \<noteq> CTRL_DELETED" using h2_full [of "ehash e"] by auto
  have "ctrl s ! j \<noteq> CTRL_EMPTY" if "j < cap s" "dist (cap s) (ehash e) j div 16 < dist (cap s) (ehash e) i div 16" for j
    using ff(3) [OF that] ctrl_consts(1) by metis
  then show "table_ok s'"
    by (intro table_update [OF s ff(1) full(1), of "Some e"]) (use s' in auto)
  have "slots s ! i = None" using table_full [OF s ff(1)] ff(2) by simp
  then show "contents s' = add_mset (norm e) (contents s)" using held_put [of i "slots s" e] ff(1) l s'(2) by simp
  show "deleted s' + (if ctrl s ! i = CTRL_DELETED then 1 else 0) = deleted s"
    using deleted_ctrl_set [OF l(1) ff(1) s'(1,3)] full(2) by simp
qed

lemma find_free_ex: "table_ok s \<Longrightarrow> size (contents s) < cap s \<Longrightarrow> \<exists>i. find_free s hash = Some i"
proof (rule ccontr)
  assume s: "table_ok s" "size (contents s) < cap s" and "\<nexists>i. find_free s hash = Some i"
  then have "slots s ! j \<noteq> None" if "j < cap s" for j using find_free_None [OF s(1)] that by auto
  then have "None \<notin> set (slots s)" using s(1) by (auto simp: in_set_conv_nth elim!: table_okE)
  then show False using held_full [of "slots s"] s by (auto elim: table_okE)
qed

definition same_counts :: "'v shard \<Rightarrow> 'v shard \<Rightarrow> bool" where
  "same_counts s t \<longleftrightarrow> hand s = hand t \<and> bytes s = bytes t \<and> bytes_max s = bytes_max t \<and> tomb s = tomb t \<and>
     pinned_entries s = pinned_entries t \<and> pinned_bytes s = pinned_bytes t \<and> cap s = cap t"

definition fresh_ok :: "'v shard \<Rightarrow> bool" where
  "fresh_ok s \<longleftrightarrow> table_ok s \<and> deleted s = 0 \<and> used s = word_of_nat (size (contents s))"

lemma rehash_step_ok:
  assumes s: "fresh_ok s" and c: "IS_FULL c \<longleftrightarrow> x \<noteq> None" and n: "size (contents s) < cap s"
  shows "fresh_ok (rehash_step (c, x) s) \<and> same_counts (rehash_step (c, x) s) s \<and> contents (rehash_step (c, x) s) = contents s + held [x]"
proof (cases x)
  case None
  then show ?thesis using s c by (simp add: rehash_step_def same_counts_def)
next
  case (Some e)
  obtain i where i: "find_free s (ehash e) = Some i" using find_free_ex s n by (auto simp: fresh_ok_def)
  let ?s = "rehash_step (c, x) s"
  have eq: "?s = (ctrl_set (s\<lparr>slots := (slots s)[i := Some e]\<rparr>) i (h2 (ehash e)))\<lparr>used := used s + 1\<rparr>"
    using Some c i by (simp add: rehash_step_def)
  have "table_ok s" using s by (simp add: fresh_ok_def)
  note p = put_table [OF this i, of ?s]
  have "table_ok ?s" "contents ?s = add_mset (norm e) (contents s)" "deleted ?s = 0"
    using p s unfolding eq by (simp_all add: fresh_ok_def)
  then show ?thesis using s Some unfolding fresh_ok_def same_counts_def eq by simp
qed

lemma rehash_fold_ok:
  "fresh_ok s \<Longrightarrow> (\<forall>z \<in> set zs. IS_FULL (fst z) \<longleftrightarrow> snd z \<noteq> None) \<Longrightarrow> size (contents s) + size (held (map snd zs)) < cap s \<Longrightarrow>
   fresh_ok (fold rehash_step zs s) \<and> same_counts (fold rehash_step zs s) s \<and> contents (fold rehash_step zs s) = contents s + held (map snd zs)"
proof (induction zs arbitrary: s)
  case Nil
  then show ?case by (simp add: same_counts_def)
next
  case (Cons z zs)
  obtain c x where z: "z = (c, x)" by fastforce
  have "held (map snd (z # zs)) = held [x] + held (map snd zs)" using held_append [of "[x]" "map snd zs"] z by simp
  moreover have st: "fresh_ok (rehash_step z s) \<and> same_counts (rehash_step z s) s \<and> contents (rehash_step z s) = contents s + held [x]"
    using rehash_step_ok [OF Cons.prems(1), of c x] Cons.prems z by simp
  ultimately show ?case
    using Cons.IH [of "rehash_step z s"] Cons.prems by (auto simp: same_counts_def)
qed

lemma alloc_fresh:
  assumes "shard_alloc mem s n = Some t" and "6 \<le> k" "k \<le> 31" "n = 2 ^ k"
  shows "fresh_ok t" "contents t = {#}" "hand t = 0" "tomb t = 0" "cap t = n" "bytes t = bytes s" "bytes_max t = bytes_max s"
    "pinned_entries t = pinned_entries s" "pinned_bytes t = pinned_bytes s"
proof -
  have t: "t = s\<lparr>ctrl := replicate (n + 16) CTRL_EMPTY, slots := replicate n None, cap := n, used := 0, tomb := 0, hand := 0\<rparr>"
    using assms(1) by (auto simp: shard_alloc_def ELPIS_GROUP_def split: if_splits)
  then show "contents t = {#}" "hand t = 0" "tomb t = 0" "cap t = n" "bytes t = bytes s" "bytes_max t = bytes_max s"
    "pinned_entries t = pinned_entries s" "pinned_bytes t = pinned_bytes s" by simp_all
  have "table_ok t" unfolding t table_ok_def using assms(2-4) by (auto intro!: exI [of _ k])
  then show "fresh_ok t" by (simp add: fresh_ok_def deleted_def t)
qed

lemma rehash_ok:
  assumes s: "shard_ok s" and r: "shard_rehash mem s n = Some t" and k: "6 \<le> k" "k \<le> 31" "n = 2 ^ k" and ld: "8 * size (contents s) \<le> 7 * n"
  shows "shard_ok t" "contents t = contents s" "cap t = n" "deleted t = 0" "bytes_max t = bytes_max s"
proof -
  note d = shard_okD [OF s]
  obtain u where u: "shard_alloc mem s n = Some u" "t = fold rehash_step (zip (take (cap s) (ctrl s)) (slots s)) u"
    using r by (auto simp: shard_rehash_def split: option.splits)
  note a = alloc_fresh [OF u(1) k]
  let ?zs = "zip (take (cap s) (ctrl s)) (slots s)"
  have m: "map snd ?zs = slots s" using d(6,7) by simp
  have "\<forall>z \<in> set ?zs. IS_FULL (fst z) \<longleftrightarrow> snd z \<noteq> None" using d(6,7) table_full [OF d(1)] by (auto simp: in_set_conv_nth)
  moreover have "0 < n" using k by simp
  ultimately have f: "fresh_ok t" "same_counts t u" "contents t = contents s"
    using rehash_fold_ok [OF a(1), of ?zs] ld a(2,5) u(2) m by auto
  then show "contents t = contents s" "cap t = n" "deleted t = 0" "bytes_max t = bytes_max s" using a by (simp_all add: fresh_ok_def same_counts_def)
  show "shard_ok t"
    using f a ld d(2) \<open>0 < n\<close> by (simp add: shard_ok_def counts_ok_def fresh_ok_def same_counts_def)
qed

lemma unat_of_nat32: "m < 2 ^ 32 \<Longrightarrow> unat (word_of_nat m :: u32) = m"
  by (simp add: unat_of_nat)

lemma used_small:
  assumes "shard_ok s"
  shows "unat (used s + tomb s + 1) = size (contents s) + deleted s + 1"
proof -
  note d = shard_okD [OF assms]
  have "used s + tomb s + 1 = word_of_nat (size (contents s) + deleted s + 1)" using d(2,4) by (simp add: counts_ok_def)
  moreover have "size (contents s) + deleted s + 1 < 2 ^ 32" using d(5,8,9) by simp
  ultimately show ?thesis by (simp only: unat_of_nat32)
qed

lemma used_double:
  assumes "shard_ok s"
  shows "unat ((used s + 1) * 2) = (size (contents s) + 1) * 2"
proof -
  note d = shard_okD [OF assms]
  have "(used s + 1) * 2 = word_of_nat ((size (contents s) + 1) * 2)" using d(2) by (simp add: counts_ok_def)
  moreover have "(size (contents s) + 1) * 2 < 2 ^ 32" using d(5,8,9) by simp
  ultimately show ?thesis by (simp only: unat_of_nat32)
qed

text \<open>Growing keeps the contents and leaves room for one more, unless memory runs out.\<close>

lemma grow_ok:
  assumes s: "shard_ok s" and g: "grow mem s = Some t" and c: "cap s < 2 ^ 31"
  shows "shard_ok t" "contents t = contents s" "bytes_max t = bytes_max s" "8 * (size (contents t) + deleted t + 1) \<le> 7 * cap t"
    "cap t = cap s \<or> mem (cap t)"
proof -
  note d = shard_okD [OF s]
  obtain k where k: "6 \<le> k" "k \<le> 31" "cap s = 2 ^ k" using d(1) by (auto elim: table_okE)
  have "(2 :: nat) ^ k < 2 ^ 31" using c k(3) by simp
  then have k31: "k < 31" by (rule power_less_imp_less_exp [rotated]) simp
  let ?n = "size (contents s)"
  have "shard_ok t \<and> contents t = contents s \<and> bytes_max t = bytes_max s \<and> 8 * (size (contents t) + deleted t + 1) \<le> 7 * cap t \<and>
    (cap t = cap s \<or> mem (cap t))"
  proof (cases "cap s * 7 < (?n + deleted s + 1) * 8")
    case False
    then have "t = s" using g by (simp add: grow_def used_small [OF s])
    then show ?thesis using False s by simp
  next
    case True
    define m where "m = (if cap s < (?n + 1) * 2 then cap s * 2 else cap s)"
    have mod: "cap s * 2 mod 2 ^ 32 = cap s * 2" using c by simp
    have "\<not> m < MIN_CAP" using d(8) by (simp add: m_def MIN_CAP_def)
    then have r: "shard_rehash mem s m = Some t"
      using g True unfolding grow_def used_small [OF s] used_double [OF s] mod Let_def m_def [symmetric] by (simp only: if_True if_False)
    have m: "m = 2 ^ (if cap s < (?n + 1) * 2 then Suc k else k)" using k(3) by (simp add: m_def)
    have ld: "8 * (?n + 1) \<le> 7 * m" using d(5,8) by (auto simp: m_def)
    note rh = rehash_ok [OF s r _ _ m]
    have "mem m" using r by (auto simp: shard_rehash_def shard_alloc_def split: option.splits if_splits)
    then show ?thesis using rh k k31 ld by simp
  qed
  then show "shard_ok t" "contents t = contents s" "bytes_max t = bytes_max s" "8 * (size (contents t) + deleted t + 1) \<le> 7 * cap t"
    "cap t = cap s \<or> mem (cap t)" by blast+
qed

lemma place_ok:
  assumes s: "shard_ok s" and ld: "8 * (size (contents s) + deleted s + 1) \<le> 7 * cap s"
  obtains t where "place s e = Some t" "shard_ok t" "contents t = add_mset (norm e) (contents s)" "cap t = cap s" "bytes_max t = bytes_max s"
    "bytes t = bytes s + ucast (esize e)"
proof -
  note d = shard_okD [OF s]
  obtain i where i: "find_free s (ehash e) = Some i" using find_free_ex [OF d(1)] ld by auto
  note ff = find_free_Some [OF d(1) i]
  let ?del = "ctrl s ! i = CTRL_DELETED"
  define t where "t = add_counts e ((ctrl_set ((if ?del \<and> tomb s > 0 then s\<lparr>tomb := tomb s - 1\<rparr> else s)\<lparr>slots := (slots s)[i := Some e]\<rparr>) i (h2 (ehash e)))\<lparr>used := used s + 1\<rparr>)"
  have p: "place s e = Some t" using i by (simp add: place_def t_def Let_def)
  have sel: "cap t = cap s" "slots t = (slots s)[i := Some e]" "ctrl t = ctrl (ctrl_set s i (h2 (ehash e)))" "hand t = hand s"
    "used t = used s + 1" "bytes t = bytes s + ucast (esize e)" "bytes_max t = bytes_max s"
    "tomb t = (if ?del \<and> tomb s > 0 then tomb s - 1 else tomb s)"
    "pinned_entries t = pinned_entries s + (if epinned e then 1 else 0)"
    "pinned_bytes t = pinned_bytes s + (if epinned e then ucast (esize e) else 0)"
    by (auto simp: t_def add_counts_def ctrl_set_def Let_def)
  note pt = put_table [OF d(1) i sel(1-3)]
  have c: "counts_ok t" using d(2) unfolding counts_ok_def pt(2) sel(4-10) by (cases "epinned e") (simp_all add: ac_simps)
  have tm: "tomb t = word_of_nat (deleted t)"
  proof (cases ?del)
    case True
    then have dl: "deleted s = Suc (deleted t)" using pt(3) by simp
    have "deleted s < 2 ^ 32" using d(5,9) by simp
    then have "tomb s \<noteq> 0" using d(4) dl by (metis nat.distinct(1) unat_of_nat32 unsigned_0)
    then show ?thesis using True dl d(4) sel(8) by (simp add: word_gt_0)
  next
    case False
    then show ?thesis using pt(3) d(4) sel(8) by simp
  qed
  have "8 * (size (contents t) + deleted t) \<le> 7 * cap t" using ld pt(2,3) sel(1) by (auto split: if_splits)
  then have "shard_ok t" using pt(1) c tm d(3) sel by (simp add: shard_ok_def)
  then show ?thesis using that p pt(2) sel by blast
qed

section \<open>Looking up and inserting\<close>

definition look :: "('v \<Rightarrow> 'k \<Rightarrow> bool) \<Rightarrow> 'v shard \<Rightarrow> u64 \<Rightarrow> 'k \<Rightarrow> 'v centry option" where
  "look eqfn s hash key = map_option (norm \<circ> snd) (find_slot eqfn s hash key)"

text \<open>No two entries answer to one key.\<close>

definition uniq :: "('v \<Rightarrow> 'k \<Rightarrow> bool) \<Rightarrow> 'v centry multiset \<Rightarrow> bool" where
  "uniq eqfn C \<longleftrightarrow> (\<forall>h k. size (filter_mset (matches eqfn h k) C) \<le> 1)"

lemma uniq_eq:
  assumes "uniq eqfn C" "v \<in># C" "w \<in># C" "matches eqfn h k v" "matches eqfn h k w"
  shows "v = w"
proof (rule ccontr)
  assume "v \<noteq> w"
  then have "{#v, w#} \<subseteq># C" using assms(2,3) by (metis add_mset_remove_trivial_eq insert_DiffM2 insert_noteq_member insert_subset_eq_iff mset_subset_eq_single)
  then have "filter_mset (matches eqfn h k) {#v, w#} \<subseteq># filter_mset (matches eqfn h k) C" by (rule multiset_filter_mono)
  then have "2 \<le> size (filter_mset (matches eqfn h k) C)" using assms(4,5) size_mset_mono by fastforce
  then show False using assms(1) unfolding uniq_def by (metis not_less_eq_eq numeral_2_eq_2 One_nat_def)
qed

lemma uniq_sub: "uniq eqfn C \<Longrightarrow> D \<subseteq># C \<Longrightarrow> uniq eqfn D"
  unfolding uniq_def by (meson le_trans multiset_filter_mono size_mset_mono)

lemma uniq_remove: "uniq eqfn C \<Longrightarrow> v \<in># C \<Longrightarrow> matches eqfn h k v \<Longrightarrow> w \<in># C - {#v#} \<Longrightarrow> \<not> matches eqfn h k w"
proof
  assume u: "uniq eqfn C" and v: "v \<in># C" "matches eqfn h k v" and w: "w \<in># C - {#v#}" "matches eqfn h k w"
  obtain D where D: "C = add_mset v D" using v(1) by (metis mset_add)
  then have "w \<in># filter_mset (matches eqfn h k) D" using w by simp
  then have "1 \<le> size (filter_mset (matches eqfn h k) D)" by (metis One_nat_def Suc_leI nonempty_has_size empty_not_add_mset mset_add)
  moreover have "size (filter_mset (matches eqfn h k) C) \<le> 1" using u by (simp add: uniq_def)
  ultimately show False using D v(2) w by auto
qed

lemma look_None: "table_ok s \<Longrightarrow> look eqfn s h k = None \<Longrightarrow> v \<in># contents s \<Longrightarrow> \<not> matches eqfn h k v"
  using find_slot_None [of s eqfn h k] by (auto simp: look_def held_in present_def elim!: table_okE)

lemma look_Some: "table_ok s \<Longrightarrow> look eqfn s h k = Some v \<Longrightarrow> v \<in># contents s \<and> matches eqfn h k v"
  using find_slot_Some [of s eqfn h k] held_member [of _ "slots s"] by (auto simp: look_def present_def elim!: table_okE)

lemma look_iff: "table_ok s \<Longrightarrow> uniq eqfn (contents s) \<Longrightarrow> look eqfn s h k = Some v \<longleftrightarrow> v \<in># contents s \<and> matches eqfn h k v"
  using look_None [of s eqfn h k v] look_Some [of s eqfn h k] uniq_eq [of eqfn "contents s" v _ h k]
  by (cases "look eqfn s h k") auto

locale cache_keys =
  fixes eqfn :: "'v \<Rightarrow> 'k \<Rightarrow> bool"
  assumes same_key: "eqfn v k \<Longrightarrow> eqfn w k \<Longrightarrow> eqfn v k' \<Longrightarrow> eqfn w k'"
begin

lemma uniq_add:
  assumes "uniq eqfn C" and "eqfn (epay e) key" and "\<And>v. v \<in># C \<Longrightarrow> \<not> matches eqfn (ehash e) key v"
  shows "uniq eqfn (add_mset (norm e) C)"
  unfolding uniq_def
proof (intro allI)
  fix h k
  show "size (filter_mset (matches eqfn h k) (add_mset (norm e) C)) \<le> 1"
  proof (cases "matches eqfn h k e")
    case True
    have "\<not> matches eqfn h k v" if "v \<in># C" for v
      using assms(2,3) True same_key [of "epay e" k "epay v" key] that by (auto simp: matches_def)
    then have "filter_mset (matches eqfn h k) C = {#}" by (simp add: filter_mset_eq_mempty_iff)
    then show ?thesis using True by simp
  next
    case False
    then show ?thesis using assms(1) by (simp add: uniq_def)
  qed
qed

lemma replace_ok:
  assumes s: "shard_ok s" and u: "uniq eqfn (contents s)" and k: "eqfn (epay e) key" and f: "find_slot eqfn s (ehash e) key = Some (i, old)"
  shows "shard_ok (replace_entry s i old e)" "cap (replace_entry s i old e) = cap s"
    "contents (replace_entry s i old e) = add_mset (norm e) (contents s - {#norm old#})"
    "norm old \<in># contents s" "\<And>v. v \<in># contents s - {#norm old#} \<Longrightarrow> \<not> matches eqfn (ehash e) key v"
proof -
  note d = shard_okD [OF s]
  have p: "i < cap s" "slots s ! i = Some old" "matches eqfn (ehash e) key old" using find_slot_Some [OF d(1) f] by (auto simp: present_def)
  let ?t = "replace_entry s i old e"
  have sel: "cap ?t = cap s" "slots ?t = (slots s)[i := Some e]" "ctrl ?t = ctrl s" "hand ?t = hand s" "used ?t = used s" "tomb ?t = tomb s"
    "bytes ?t = bytes s - ucast (esize old) + ucast (esize e)"
    "pinned_entries ?t = pinned_entries s - (if epinned old then 1 else 0) + (if epinned e then 1 else 0)"
    "pinned_bytes ?t = pinned_bytes s - (if epinned old then ucast (esize old) else 0) + (if epinned e then ucast (esize e) else 0)"
    by (auto simp: replace_entry_def add_counts_def Let_def)
  show "cap ?t = cap s" by (rule sel(1))
  show m: "norm old \<in># contents s" using held_member p(1,2) d(6) by metis
  show c: "contents ?t = add_mset (norm e) (contents s - {#norm old#})" using held_swap [of i "slots s" old e] p d(6) sel(2) by simp
  show "\<And>v. v \<in># contents s - {#norm old#} \<Longrightarrow> \<not> matches eqfn (ehash e) key v" using uniq_remove [OF u m, of "ehash e" key] p(3) by simp
  have "table_ok ?t" by (rule table_reslot [OF d(1) p(1,2) _ sel(1,2,3)]) (use p(3) in \<open>simp add: matches_def\<close>)
  moreover obtain D where D: "contents s = add_mset (norm old) D" using m by (metis mset_add)
  moreover have "counts_ok ?t" using d(2) unfolding counts_ok_def c sel(4-9) D
    by (cases "epinned old"; cases "epinned e") (simp_all add: ac_simps)
  moreover have "deleted ?t = deleted s" by (simp add: deleted_def sel)
  ultimately show "shard_ok ?t" using s c sel by (simp add: shard_ok_def)
qed

end

text \<open>
  What an insertion does to the contents: on success the entry is added to some of the old ones,
  none of which has its key; otherwise entries were at most evicted.
\<close>

definition inserted :: "('v \<Rightarrow> 'k \<Rightarrow> bool) \<Rightarrow> 'v shard \<Rightarrow> 'v centry \<Rightarrow> 'k \<Rightarrow> 'v shard \<Rightarrow> elpis_rc \<Rightarrow> bool" where
  "inserted eqfn s e key t rc \<longleftrightarrow> shard_ok t \<and> cap t < 2 ^ 31 \<and>
     (\<exists>C. C \<subseteq># contents s \<and> (\<forall>v \<in># C. \<not> matches eqfn (ehash e) key v) \<and>
       contents t = (if rc = ELPIS_OK then add_mset (norm e) C else C))"

lemma insert_new:
  assumes s: "shard_ok s" "cap s < 2 ^ 31" and m: "\<not> mem (2 ^ 31)" and n: "find_slot eqfn s (ehash e) key = None"
    and i: "shard_insert eqfn mem now s e key = (t, rc)"
  shows "inserted eqfn s e key t rc"
proof -
  define u where "u = make_room now (esize e) s"
  have u: "shard_ok u" "cap u < 2 ^ 31" "contents u \<subseteq># contents s" using make_room_ok [OF s(1), of now "esize e"] s(2) by (auto simp: u_def)
  have abs: "\<forall>v \<in># contents u. \<not> matches eqfn (ehash e) key v"
    using look_None [of s eqfn "ehash e" key] shard_okD(1) [OF s(1)] n u(3) by (auto simp: look_def dest: mset_subset_eqD)
  show ?thesis
  proof (cases "(bytes_max u < bytes u + ucast (esize e) \<and> \<not> epinned e) \<or> grow mem u = None")
    case True
    then have "t = u" "rc = ELPIS_ENOMEM" using i n by (auto simp: shard_insert_def Let_def u_def [symmetric] split: if_splits)
    then show ?thesis using u abs by (auto simp: inserted_def)
  next
    case False
    then obtain w where w: "grow mem u = Some w" by auto
    note g = grow_ok [OF u(1) w u(2)]
    have cw: "cap w < 2 ^ 31" using g(5) m shard_okD(9) [OF g(1)] u(2) by (metis nat_less_le)
    obtain x where x: "place w e = Some x" "shard_ok x" "contents x = add_mset (norm e) (contents w)" "cap x = cap w"
      using place_ok [OF g(1,4)] by metis
    have "t = x" "rc = ELPIS_OK" using i n False w x(1) by (auto simp: shard_insert_def Let_def u_def [symmetric] split: if_splits)
    then show ?thesis using x cw g(2) u(3) abs by (auto simp: inserted_def)
  qed
qed

context cache_keys
begin

lemma insert_ok:
  assumes s: "shard_ok s" "uniq eqfn (contents s)" "cap s < 2 ^ 31" and k: "eqfn (epay e) key" and m: "\<not> mem (2 ^ 31)"
    and i: "shard_insert eqfn mem now s e key = (t, rc)"
  shows "inserted eqfn s e key t rc" "uniq eqfn (contents t)"
proof -
  show ins: "inserted eqfn s e key t rc"
  proof (cases "find_slot eqfn s (ehash e) key")
    case None
    then show ?thesis using insert_new [OF s(1,3) m _ i] by blast
  next
    case (Some x)
    obtain j old where x: "x = (j, old)" by fastforce
    have "t = replace_entry s j old e" "rc = ELPIS_OK" using i Some x by (simp_all add: shard_insert_def)
    then show ?thesis using replace_ok [OF s(1,2) k Some [unfolded x]] s(3)
      by (auto simp: inserted_def intro!: exI [of _ "contents s - {#norm old#}"])
  qed
  then obtain C where C: "C \<subseteq># contents s" "\<forall>v \<in># C. \<not> matches eqfn (ehash e) key v" "contents t = (if rc = ELPIS_OK then add_mset (norm e) C else C)"
    by (auto simp: inserted_def)
  have "uniq eqfn C" by (rule uniq_sub [OF s(2) C(1)])
  moreover have "uniq eqfn (add_mset (norm e) C)" by (rule uniq_add [OF \<open>uniq eqfn C\<close> k]) (use C(2) in blast)
  ultimately show "uniq eqfn (contents t)" using C(3) by simp
qed

end

section \<open>The other operations of a shard\<close>

lemma remove_ok:
  assumes s: "shard_ok s" and r: "shard_remove eqfn s hash key = (t, rc)"
  shows "shard_ok t" "cap t = cap s" "contents t \<subseteq># contents s"
    "uniq eqfn (contents s) \<Longrightarrow> v \<in># contents t \<Longrightarrow> \<not> matches eqfn hash key v"
proof -
  note d = shard_okD [OF s]
  have "shard_ok t \<and> cap t = cap s \<and> contents t \<subseteq># contents s \<and>
      (uniq eqfn (contents s) \<longrightarrow> v \<in># contents t \<longrightarrow> \<not> matches eqfn hash key v)"
  proof (cases "find_slot eqfn s hash key")
    case None
    then show ?thesis using r s look_None [OF d(1), of eqfn hash key v] by (auto simp: shard_remove_def look_def)
  next
    case (Some x)
    obtain i e where x: "x = (i, e)" by fastforce
    have e: "slot_at s i = Some e" "matches eqfn hash key e"
      using find_slot_Some [OF d(1) Some [unfolded x]] d(6) by (auto simp: present_def slot_at_Some)
    have t: "t = slot_drop s i" using r Some x by (simp add: shard_remove_def)
    have m: "norm e \<in># contents s" using e(1) held_member [of i "slots s" e] by (simp add: slot_at_Some)
    show ?thesis
      using slot_drop_ok [OF s e(1)] slot_drop_sel(2) [OF e(1)] contents_drop [OF e(1)] t uniq_remove [OF _ m, of eqfn hash key v] e(2) by auto
  qed
  then show "shard_ok t" "cap t = cap s" "contents t \<subseteq># contents s"
    "uniq eqfn (contents s) \<Longrightarrow> v \<in># contents t \<Longrightarrow> \<not> matches eqfn hash key v" by blast+
qed

lemma read_ok:
  assumes s: "shard_ok s" and r: "shard_read eqfn s hash key = (t, x)"
  shows "shard_ok t" "cap t = cap s" "contents t = contents s" "map_option norm x = look eqfn s hash key"
proof -
  note d = shard_okD [OF s]
  have "shard_ok t \<and> cap t = cap s \<and> contents t = contents s \<and> map_option norm x = look eqfn s hash key"
  proof (cases "find_slot eqfn s hash key")
    case None
    then show ?thesis using r counter_ok(4) [OF s] by (auto simp: shard_read_def look_def)
  next
    case (Some y)
    obtain i e where y: "y = (i, e)" by fastforce
    have e: "slot_at s i = Some e" using find_slot_Some [OF d(1) Some [unfolded y]] d(6) by (auto simp: present_def slot_at_Some)
    note sr = set_ref_ok [OF s e, of True]
    show ?thesis using r Some y sr counter_ok(3) [OF sr(1)] by (auto simp: shard_read_def look_def Let_def)
  qed
  then show "shard_ok t" "cap t = cap s" "contents t = contents s" "map_option norm x = look eqfn s hash key" by blast+
qed

lemma expire_loop_ok:
  "shard_ok s \<Longrightarrow> expire_loop k now (s, n) = (t, m) \<Longrightarrow> shard_ok t \<and> cap t = cap s \<and> contents t \<subseteq># contents s"
proof (induction k arbitrary: s n)
  case (Suc k)
  define s1 where "s1 = s\<lparr>hand := (hand s + 1) AND (cap s - 1)\<rparr>"
  have s1: "shard_ok s1" "slots s1 = slots s" "cap s1 = cap s" "slot_at s1 i = slot_at s i" for i
    using advance_ok [OF Suc.prems(1), of "hand s + 1"] by (simp_all add: s1_def)
  note ev = Suc.prems(2) [unfolded expire_loop.simps Let_def s1_def [symmetric]]
  have skip: ?case if "expire_loop k now (s1, n) = (t, m)" using Suc.IH [OF s1(1) that] s1 by simp
  show ?case
  proof (cases "if IS_FULL (ctrl s ! hand s) then slot_at s (hand s) else None")
    case None
    then show ?thesis using ev by (intro skip) simp
  next
    case (Some h)
    then have h: "slot_at s1 (hand s) = Some h" using s1(4) by (simp split: if_splits)
    define u where "u = (slot_drop s1 (hand s))\<lparr>expired := expired s + 1\<rparr>"
    have u: "shard_ok u" "cap u = cap s" "contents u \<subseteq># contents s"
      using counter_ok(1) [OF slot_drop_ok [OF s1(1) h]] contents_drop [OF h] slot_drop_sel(2) [OF h] s1 by (simp_all add: u_def)
    note ev2 = ev [unfolded Some option.case]
    show ?thesis
    proof (cases "eexpiry h \<noteq> 0 \<and> eexpiry h \<le> now")
      case True
      then have "expire_loop k now (u, n + 1) = (t, m)" using ev2 True unfolding u_def by simp
      then show ?thesis using Suc.IH [OF u(1)] u(2,3) by (metis subset_mset.order_trans)
    next
      case False
      then show ?thesis using ev2 by (intro skip) (simp only: if_False)
    qed
  qed
qed auto

lemma flush_step_ok:
  assumes "shard_ok t"
  shows "shard_ok (flush_step n t)" "cap (flush_step n t) = cap t" "n < cap t \<Longrightarrow> slots (flush_step n t) ! n = None"
    "slots t ! j = None \<Longrightarrow> j < cap t \<Longrightarrow> slots (flush_step n t) ! j = None"
proof -
  note d = shard_okD [OF assms]
  have "shard_ok (flush_step n t) \<and> cap (flush_step n t) = cap t \<and> (n < cap t \<longrightarrow> slots (flush_step n t) ! n = None) \<and>
    (slots t ! j = None \<longrightarrow> j < cap t \<longrightarrow> slots (flush_step n t) ! j = None)"
  proof (cases "IS_FULL (ctrl t ! n) \<and> slot_at t n \<noteq> None")
    case True
    then obtain e where e: "slot_at t n = Some e" by blast
    have f: "flush_step n t = slot_drop t n" using True by (simp add: flush_step_def)
    show ?thesis unfolding f
      using slot_drop_ok [OF assms e] slot_drop_sel(2) [OF e] slots_slot_drop [OF e] d(6) by (cases "j = n") auto
  next
    case False
    then have f: "flush_step n t = t" by (auto simp: flush_step_def)
    have "n < cap t \<Longrightarrow> slots t ! n = None" using False table_full [OF d(1), of n] d(6) by (auto simp: slot_at_def)
    then show ?thesis unfolding f using assms by blast
  qed
  then show "shard_ok (flush_step n t)" "cap (flush_step n t) = cap t" "n < cap t \<Longrightarrow> slots (flush_step n t) ! n = None"
    "slots t ! j = None \<Longrightarrow> j < cap t \<Longrightarrow> slots (flush_step n t) ! j = None" by blast+
qed

lemma flush_fold_ok:
  assumes "shard_ok s"
  shows "shard_ok (fold flush_step [0..<n] s) \<and> cap (fold flush_step [0..<n] s) = cap s \<and>
    (n \<le> cap s \<longrightarrow> (\<forall>j < n. slots (fold flush_step [0..<n] s) ! j = None))"
proof (induction n)
  case 0
  then show ?case using assms by simp
next
  case (Suc n)
  then show ?case using flush_step_ok [of "fold flush_step [0..<n] s"] by (auto simp: less_Suc_eq)
qed

lemma flush_ok:
  assumes "shard_ok s"
  shows "shard_ok (shard_flush s)" "cap (shard_flush s) = cap s" "contents (shard_flush s) = {#}"
proof -
  define t where "t = fold flush_step [0..<cap s] s"
  have t: "shard_ok t" "cap t = cap s" "\<forall>j < cap s. slots t ! j = None"
    using flush_fold_ok [OF assms, of "cap s"] by (simp_all add: t_def)
  note d = shard_okD [OF t(1)]
  have f: "shard_flush s = t\<lparr>tomb := 0, ctrl := replicate (cap s + 16) CTRL_EMPTY\<rparr>"
    by (simp add: shard_flush_def t_def [symmetric] Let_def t(2) ELPIS_GROUP_def)
  have sl: "slots t = replicate (cap s) None" using t(2,3) d(6) by (simp add: list_eq_iff_nth_eq)
  obtain k where "6 \<le> k" "k \<le> 31" "cap s = 2 ^ k" using d(1) t(2) by (auto elim: table_okE)
  then have "table_ok (shard_flush s)" unfolding f table_ok_def by (auto simp: sl t(2) intro!: exI [of _ k])
  moreover have "counts_ok (shard_flush s)" using d(2) by (simp add: f counts_ok_def)
  moreover have "deleted (shard_flush s) = 0" by (simp add: f deleted_def t(2))
  ultimately show "shard_ok (shard_flush s)" using d(3) sl by (simp add: shard_ok_def f)
  show "cap (shard_flush s) = cap s" "contents (shard_flush s) = {#}" using t(2) sl by (simp_all add: f)
qed

lemma new_ok: "shard_ok (shard_new mx)" "contents (shard_new mx) = {#}" "cap (shard_new mx) = 64"
proof -
  show c: "contents (shard_new mx) = {#}" "cap (shard_new mx) = 64" by (simp_all add: shard_new_def MIN_CAP_def)
  have "table_ok (shard_new mx)" unfolding table_ok_def by (auto simp: shard_new_def MIN_CAP_def ELPIS_GROUP_def intro!: exI [of _ 6])
  then show "shard_ok (shard_new mx)" unfolding shard_ok_def counts_ok_def c
    by (simp add: shard_new_def shard_zero_def deleted_def MIN_CAP_def)
qed

section \<open>The cache as a lossy map\<close>

text \<open>
  What a client relies on.  An operation may store a value under a key, and it may make a key's
  old value obsolete; everything else it does to a key is to keep its value or to forget it.  Then
  a value that is looked up was stored, and nothing has made it obsolete since.
\<close>

locale lossy_map =
  fixes inv :: "'s \<Rightarrow> bool" and find :: "'s \<Rightarrow> 'q \<Rightarrow> 'a option" and step :: "'op \<Rightarrow> 's \<Rightarrow> 's" and fine :: "'op \<Rightarrow> bool"
    and stores :: "'op \<Rightarrow> 'q \<Rightarrow> 'a \<Rightarrow> bool" and obsoletes :: "'op \<Rightarrow> 'q \<Rightarrow> bool"
  assumes inv_step: "inv s \<Longrightarrow> fine p \<Longrightarrow> inv (step p s)"
    and find_step: "inv s \<Longrightarrow> fine p \<Longrightarrow> find (step p s) q = Some a \<Longrightarrow> stores p q a \<or> find s q = Some a \<and> \<not> obsoletes p q"
begin

lemma inv_run: "inv s \<Longrightarrow> (\<forall>p \<in> set ps. fine p) \<Longrightarrow> inv (fold step ps s)"
  by (induction ps arbitrary: s) (auto intro: inv_step)

lemma never_stale:
  assumes "inv s" and "\<And>q. find s q = None" and "\<forall>p \<in> set ps. fine p" and "find (fold step ps s) q = Some a"
  shows "\<exists>xs p ys. ps = xs @ p # ys \<and> stores p q a \<and> (\<forall>r \<in> set ys. \<not> obsoletes r q)"
  using assms(3,4)
proof (induction ps rule: rev_induct)
  case Nil
  then show ?case using assms(2) by simp
next
  case (snoc p ps)
  have "inv (fold step ps s)" using inv_run assms(1) snoc.prems by simp
  then consider "stores p q a" | "find (fold step ps s) q = Some a" "\<not> obsoletes p q"
    using find_step [of "fold step ps s" p q a] snoc.prems by auto
  then show ?case
  proof cases
    case 1
    then show ?thesis by (intro exI [of _ ps] exI [of _ p] exI [of _ "[]"]) simp
  next
    case 2
    obtain xs r ys where "ps = xs @ r # ys" "stores r q a" "\<forall>r \<in> set ys. \<not> obsoletes r q" using snoc.IH snoc.prems 2(1) by auto
    then show ?thesis using 2(2) by (intro exI [of _ xs] exI [of _ r] exI [of _ "ys @ [p]"]) auto
  qed
qed

end

section \<open>The operations of the cache\<close>

datatype ('v, 'k) cache_op =
    Insert "nat \<Rightarrow> bool" u32 "'v centry" 'k
  | Remove u64 'k
  | Read u64 'k
  | Flush
  | Expire "nat \<Rightarrow> bool" u32 nat

fun cache_step :: "('v \<Rightarrow> 'k \<Rightarrow> bool) \<Rightarrow> ('v, 'k) cache_op \<Rightarrow> 'v elpis_cache \<Rightarrow> 'v elpis_cache" where
  "cache_step eqfn (Insert mem now e key) c = fst (elpis_cache_insert eqfn mem now c e key)"
| "cache_step eqfn (Remove hash key) c = fst (elpis_cache_remove eqfn c hash key)"
| "cache_step eqfn (Read hash key) c = fst (elpis_cache_read eqfn c hash key)"
| "cache_step eqfn Flush c = elpis_cache_flush c"
| "cache_step eqfn (Expire busy now budget) c = fst (elpis_cache_expire busy c now budget)"

text \<open>An insertion is called with the key of the entry; no allocator gives a table of $2^{31}$ slots.\<close>

fun op_fine :: "('v \<Rightarrow> 'k \<Rightarrow> bool) \<Rightarrow> ('v, 'k) cache_op \<Rightarrow> bool" where
  "op_fine eqfn (Insert mem now e key) \<longleftrightarrow> eqfn (epay e) key \<and> \<not> mem (2 ^ 31)"
| "op_fine eqfn _ \<longleftrightarrow> True"

fun op_stores :: "('v \<Rightarrow> 'k \<Rightarrow> bool) \<Rightarrow> ('v, 'k) cache_op \<Rightarrow> u64 \<times> 'k \<Rightarrow> 'v centry \<Rightarrow> bool" where
  "op_stores eqfn (Insert mem now e key) (h, k) v \<longleftrightarrow> v = norm e \<and> matches eqfn h k e"
| "op_stores eqfn _ _ _ \<longleftrightarrow> False"

fun op_obsoletes :: "('v \<Rightarrow> 'k \<Rightarrow> bool) \<Rightarrow> ('v, 'k) cache_op \<Rightarrow> u64 \<times> 'k \<Rightarrow> bool" where
  "op_obsoletes eqfn (Insert mem now e key) (h, k) \<longleftrightarrow> matches eqfn h k e"
| "op_obsoletes eqfn (Remove hash key) (h, k) \<longleftrightarrow> hash = h \<and> (\<forall>v. eqfn v key = eqfn v k)"
| "op_obsoletes eqfn Flush _ \<longleftrightarrow> True"
| "op_obsoletes eqfn _ _ \<longleftrightarrow> False"

definition shard_fine :: "('v \<Rightarrow> 'k \<Rightarrow> bool) \<Rightarrow> 'v shard \<Rightarrow> bool" where
  "shard_fine eqfn s \<longleftrightarrow> shard_ok s \<and> uniq eqfn (contents s) \<and> cap s < 2 ^ 31"

definition cache_fine :: "('v \<Rightarrow> 'k \<Rightarrow> bool) \<Rightarrow> 'v elpis_cache \<Rightarrow> bool" where
  "cache_fine eqfn c \<longleftrightarrow> 0 < nshards c \<and> nshards c \<le> 4096 \<and> length (sh c) = nshards c \<and> (\<forall>s \<in> set (sh c). shard_fine eqfn s)"

definition cache_find :: "('v \<Rightarrow> 'k \<Rightarrow> bool) \<Rightarrow> 'v elpis_cache \<Rightarrow> u64 \<times> 'k \<Rightarrow> 'v centry option" where
  "cache_find eqfn c q = look eqfn (sh c ! shard_of c (fst q)) (fst q) (snd q)"

lemma shard_of_less: "cache_fine eqfn c \<Longrightarrow> shard_of c hash < length (sh c)"
proof -
  assume c: "cache_fine eqfn c"
  have n: "0 < nshards c" "nshards c \<le> 4096" "length (sh c) = nshards c" using c by (auto simp: cache_fine_def)
  have "shard_of c hash \<le> unat (word_of_nat (nshards c - 1) :: u64)"
    unfolding shard_of_def by (simp add: word_and_le1 flip: word_le_nat_alt)
  also have "\<dots> = nshards c - 1" by (rule unat_of_nat64) (use n in simp)
  finally show ?thesis using n by simp
qed

lemma fine_update:
  "cache_fine eqfn c \<Longrightarrow> shard_fine eqfn s \<Longrightarrow> cache_fine eqfn (c\<lparr>sh := (sh c)[i := s]\<rparr>)"
  by (auto simp: cache_fine_def dest: set_update_subset_insert [THEN subsetD])

lemma find_update:
  assumes "cache_fine eqfn c" and "i = shard_of c h0"
  shows "cache_find eqfn (c\<lparr>sh := (sh c)[i := s]\<rparr>) (h, k) = (if shard_of c h = i then look eqfn s h k else cache_find eqfn c (h, k))"
  using shard_of_less [OF assms(1), of h0] assms(2) by (auto simp: cache_find_def shard_of_def)

lemma look_fine: "shard_fine eqfn s \<Longrightarrow> look eqfn s h k = Some v \<longleftrightarrow> v \<in># contents s \<and> matches eqfn h k v"
  by (rule look_iff) (auto simp: shard_fine_def dest: shard_okD(1))

lemma fine_shard: "cache_fine eqfn c \<Longrightarrow> shard_fine eqfn (sh c ! shard_of c h)"
  using shard_of_less [of eqfn c h] by (simp add: cache_fine_def)

context cache_keys
begin

lemma insert_fine:
  assumes "shard_fine eqfn s" and "eqfn (epay e) key" and "\<not> mem (2 ^ 31)" and "shard_insert eqfn mem now s e key = (t, rc)"
  shows "shard_fine eqfn t" and "look eqfn t h k = Some v \<Longrightarrow> v = norm e \<and> matches eqfn h k e \<or> look eqfn s h k = Some v \<and> \<not> matches eqfn h k e"
proof -
  have s: "shard_ok s" "uniq eqfn (contents s)" "cap s < 2 ^ 31" using assms(1) by (auto simp: shard_fine_def)
  note i = insert_ok [OF s assms(2-4)]
  show t: "shard_fine eqfn t" using i by (simp add: shard_fine_def inserted_def)
  obtain C where C: "C \<subseteq># contents s" "\<forall>v \<in># C. \<not> matches eqfn (ehash e) key v" "contents t = (if rc = ELPIS_OK then add_mset (norm e) C else C)"
    using i(1) by (auto simp: inserted_def)
  assume "look eqfn t h k = Some v"
  then have v: "v \<in># contents t" "matches eqfn h k v" using look_fine [OF t] by auto
  show "v = norm e \<and> matches eqfn h k e \<or> look eqfn s h k = Some v \<and> \<not> matches eqfn h k e"
  proof (cases "v \<in># C")
    case True
    then have "v \<in># contents s" using C(1) by (rule mset_subset_eqD [rotated])
    moreover have "\<not> matches eqfn h k e"
      using C(2) True v(2) assms(2) same_key [of "epay e" k "epay v" key] by (auto simp: matches_def)
    ultimately show ?thesis using look_fine [OF assms(1)] v(2) by blast
  next
    case False
    then have "v = norm e" using v(1) C(3) by (auto split: if_splits)
    then show ?thesis using v(2) by simp
  qed
qed

lemma remove_fine:
  assumes "shard_fine eqfn s" and "shard_remove eqfn s hash key = (t, rc)"
  shows "shard_fine eqfn t" and "look eqfn t h k = Some v \<Longrightarrow> look eqfn s h k = Some v \<and> \<not> (hash = h \<and> (\<forall>v. eqfn v key = eqfn v k))"
proof -
  have s: "shard_ok s" "uniq eqfn (contents s)" "cap s < 2 ^ 31" using assms(1) by (auto simp: shard_fine_def)
  note r = remove_ok [OF s(1) assms(2)]
  show t: "shard_fine eqfn t" using r(1-3) s uniq_sub by (auto simp: shard_fine_def)
  assume "look eqfn t h k = Some v"
  then have v: "v \<in># contents t" "matches eqfn h k v" using look_fine [OF t] by auto
  then have "look eqfn s h k = Some v" using look_fine [OF assms(1)] r(3) by (auto dest: mset_subset_eqD)
  moreover have "\<not> matches eqfn hash key v" by (rule r(4) [OF s(2) v(1)])
  ultimately show "look eqfn s h k = Some v \<and> \<not> (hash = h \<and> (\<forall>v. eqfn v key = eqfn v k))" using v(2) by (auto simp: matches_def)
qed

lemma subset_fine:
  assumes "shard_fine eqfn s" and "shard_ok t" and "cap t = cap s" and "contents t \<subseteq># contents s"
  shows "shard_fine eqfn t" and "look eqfn t h k = Some v \<Longrightarrow> look eqfn s h k = Some v"
proof -
  show t: "shard_fine eqfn t" using assms uniq_sub by (auto simp: shard_fine_def)
  assume "look eqfn t h k = Some v"
  then show "look eqfn s h k = Some v" using look_fine [OF t] look_fine [OF assms(1)] assms(4) by (auto dest: mset_subset_eqD)
qed

lemma map_fine:
  assumes c: "cache_fine eqfn c" and len: "length ss = length (sh c)"
    and each: "\<And>i. i < length ss \<Longrightarrow> shard_ok (ss ! i) \<and> cap (ss ! i) = cap (sh c ! i) \<and> contents (ss ! i) \<subseteq># contents (sh c ! i)"
  shows "cache_fine eqfn (c\<lparr>sh := ss\<rparr>)" and "cache_find eqfn (c\<lparr>sh := ss\<rparr>) q = Some v \<Longrightarrow> cache_find eqfn c q = Some v"
proof -
  have f: "shard_fine eqfn (ss ! i)" "look eqfn (ss ! i) h k = Some v \<Longrightarrow> look eqfn (sh c ! i) h k = Some v" if "i < length ss" for i h k
    using subset_fine [of "sh c ! i" "ss ! i"] each [OF that] c that len by (auto simp: cache_fine_def)
  show "cache_fine eqfn (c\<lparr>sh := ss\<rparr>)" using c f(1) len by (auto simp: cache_fine_def in_set_conv_nth)
  show "cache_find eqfn (c\<lparr>sh := ss\<rparr>) q = Some v \<Longrightarrow> cache_find eqfn c q = Some v"
    using f(2) shard_of_less [OF c, of "fst q"] len by (auto simp: cache_find_def shard_of_def)
qed

end

section \<open>Eviction makes progress\<close>

text \<open>What a turn of the hand that frees nothing does to the entry under it.\<close>

definition passed :: "'v centry \<Rightarrow> 'v centry" where
  "passed h = (if epinned h then h else h\<lparr>eref := False\<rparr>)"

lemma evict_fail_step:
  assumes s: "shard_ok s" and f: "evict_loop (Suc n) now s = (t, False)"
  obtains s' where "evict_loop n now s' = (t, False)" "shard_ok s'" "cap s' = cap s" "hand s' = (hand s + 1) mod cap s"
    "\<And>i. i < cap s \<Longrightarrow> i \<noteq> hand s \<Longrightarrow> slots s' ! i = slots s ! i" "slots s' ! hand s = map_option passed (slots s ! hand s)"
    "\<And>h. slots s ! hand s = Some h \<Longrightarrow> \<not> (eexpiry h \<noteq> 0 \<and> eexpiry h \<le> now) \<and> (epinned h \<or> eref h)"
proof -
  note d = shard_okD [OF s]
  define s1 where "s1 = s\<lparr>hand := (hand s + 1) AND (cap s - 1)\<rparr>"
  have s1: "shard_ok s1" "slots s1 = slots s" "cap s1 = cap s" "slot_at s1 i = slot_at s i" "hand s1 = (hand s + 1) mod cap s" for i
    using advance_ok [OF s, of "hand s + 1"] probe_mod [OF d(1), of "hand s + 1"] by (simp_all add: s1_def)
  have full: "(if IS_FULL (ctrl s ! hand s) then slot_at s (hand s) else None) = slots s ! hand s"
    using table_full [OF d(1,3)] d(3,6) by (auto simp: slot_at_def)
  note f1 = f [unfolded evict_loop.simps Let_def s1_def [symmetric] full]
  show ?thesis
  proof (cases "slots s ! hand s")
    case None
    then show ?thesis using that [OF _ s1(1,3,5)] f1 s1(2) by simp
  next
    case (Some h)
    have h: "slot_at s1 (hand s) = Some h" using Some d(3,6) s1(4) by (simp add: slot_at_def)
    define u where "u = s1\<lparr>slots := (slots s1)[hand s := Some (h\<lparr>eref := False\<rparr>)]\<rparr>"
    have u: "shard_ok u" "cap u = cap s" "hand u = (hand s + 1) mod cap s" "slots u = (slots s)[hand s := Some (h\<lparr>eref := False\<rparr>)]"
      using set_ref_ok(1) [OF s1(1) h, of False] s1 by (simp_all add: u_def)
    note f2 = f1 [unfolded Some option.case, unfolded s1(2) [symmetric] u_def [symmetric]]
    have c: "\<not> (eexpiry h \<noteq> 0 \<and> eexpiry h \<le> now)" "epinned h \<or> eref h" using f2 by (auto split: if_splits)
    show ?thesis
    proof (cases "epinned h")
      case True
      have "evict_loop n now s1 = (t, False)" using f2 c True by (simp split: if_splits)
      then show ?thesis using that [OF _ s1(1,3,5)] s1(2) Some c True by (simp add: passed_def)
    next
      case False
      have "evict_loop n now u = (t, False)" using f2 c False by (simp split: if_splits)
      then show ?thesis using that [OF _ u(1-3)] u(4) Some c False d(3,6) by (simp add: passed_def)
    qed
  qed
qed

lemma evict_fail_pass:
  assumes A: "\<And>h. A h \<Longrightarrow> A (passed h)" and B: "\<And>h. B h \<Longrightarrow> B (passed h)"
    and AB: "\<And>h. A h \<Longrightarrow> \<not> (eexpiry h \<noteq> 0 \<and> eexpiry h \<le> now) \<Longrightarrow> epinned h \<or> eref h \<Longrightarrow> B (passed h)"
  shows "shard_ok s \<Longrightarrow> evict_loop (n + m) now s = (t, False) \<Longrightarrow> \<forall>i < cap s. pred_option A (slots s ! i) \<Longrightarrow>
    \<forall>i \<in> I. i < cap s \<and> pred_option B (slots s ! i) \<Longrightarrow>
    \<exists>s'. evict_loop m now s' = (t, False) \<and> shard_ok s' \<and> cap s' = cap s \<and> (\<forall>i < cap s. pred_option A (slots s' ! i)) \<and>
      (\<forall>i \<in> I \<union> (\<lambda>k. (hand s + k) mod cap s) ` {..<n}. pred_option B (slots s' ! i))"
proof (induction n arbitrary: s I)
  case 0
  then show ?case by (intro exI [of _ s]) auto
next
  case (Suc n)
  note d = shard_okD [OF Suc.prems(1)]
  obtain s1 where s1: "evict_loop (n + m) now s1 = (t, False)" "shard_ok s1" "cap s1 = cap s" "hand s1 = (hand s + 1) mod cap s"
    "\<And>i. i < cap s \<Longrightarrow> i \<noteq> hand s \<Longrightarrow> slots s1 ! i = slots s ! i" "slots s1 ! hand s = map_option passed (slots s ! hand s)"
    "\<And>h. slots s ! hand s = Some h \<Longrightarrow> \<not> (eexpiry h \<noteq> 0 \<and> eexpiry h \<le> now) \<and> (epinned h \<or> eref h)"
    using evict_fail_step [OF Suc.prems(1), of "n + m" now t] Suc.prems(2) by (auto simp only: add_Suc)
  have a1: "\<forall>i < cap s1. pred_option A (slots s1 ! i)"
    using Suc.prems(3) A s1(3,5,6) d(3) by (metis option.pred_map option.pred_mono_strong comp_apply)
  have b0: "pred_option B (slots s1 ! hand s)"
    using Suc.prems(3) AB s1(6,7) d(3) by (cases "slots s ! hand s") fastforce+
  then have b1: "\<forall>i \<in> insert (hand s) I. i < cap s1 \<and> pred_option B (slots s1 ! i)"
    using Suc.prems(4) s1(3,5) d(3) by (metis insert_iff)
  have im: "(\<lambda>k. (hand s + k) mod cap s) ` {..<Suc n} = insert (hand s) ((\<lambda>k. (hand s1 + k) mod cap s) ` {..<n})"
    using d(3) s1(4) by (auto simp: lessThan_Suc_eq_insert_0 image_image mod_add_left_eq)
  show ?case unfolding im using Suc.IH [OF s1(2,1) a1 b1] s1(3) by auto
qed

lemma all_passed: "0 < n \<Longrightarrow> h < n \<Longrightarrow> (\<lambda>k. (h + k) mod n) ` {..<n} = {..<n}" for h n :: nat
proof (intro equalityI subsetI)
  fix i assume n: "h < n" "i \<in> {..<n}"
  then have "i = (h + (i + n - h) mod n) mod n" by (simp add: mod_add_right_eq)
  then show "i \<in> (\<lambda>k. (h + k) mod n) ` {..<n}" using n by (intro image_eqI [of _ _ "(i + n - h) mod n"]) auto
qed auto

lemma evict_progress:
  assumes s: "shard_ok s" and f: "evict_loop (cap s + (cap s + 0)) now s = (t, False)" and i: "i < cap s" "slots s ! i = Some h"
  shows "\<not> evictable now h"
proof -
  note d = shard_okD [OF s]
  let ?B = "\<lambda>h. \<not> (eexpiry h \<noteq> 0 \<and> eexpiry h \<le> now) \<and> (epinned h \<or> \<not> eref h)"
  have p: "eexpiry (passed h) = eexpiry h" "epinned (passed h) = epinned h" "evictable now (passed h) = evictable now h" for h :: "'a centry"
    by (simp_all add: passed_def evictable_def)
  have ap: "(\<lambda>k. (hand s' + k) mod cap s) ` {..<cap s} = {..<cap s}" if "shard_ok s'" "cap s' = cap s" for s' :: "'a shard"
    using shard_okD(3,8) [OF that(1)] that(2) by (intro all_passed) auto
  have "\<exists>s1. evict_loop (cap s + 0) now s1 = (t, False) \<and> shard_ok s1 \<and> cap s1 = cap s \<and> (\<forall>i < cap s. pred_option (\<lambda>_. True) (slots s1 ! i)) \<and>
      (\<forall>i \<in> {} \<union> (\<lambda>k. (hand s + k) mod cap s) ` {..<cap s}. pred_option ?B (slots s1 ! i))"
    by (rule evict_fail_pass [OF _ _ _ s f]) (auto simp: p passed_def option.pred_True)
  then obtain s1 where s1: "evict_loop (cap s1 + 0) now s1 = (t, False)" "shard_ok s1" "cap s1 = cap s" "\<forall>i < cap s1. pred_option ?B (slots s1 ! i)"
    unfolding ap [OF s refl] by auto
  have "\<exists>s2. evict_loop 0 now s2 = (t, False) \<and> shard_ok s2 \<and> cap s2 = cap s1 \<and> (\<forall>i < cap s1. pred_option ?B (slots s2 ! i)) \<and>
      (\<forall>i \<in> {} \<union> (\<lambda>k. (hand s1 + k) mod cap s1) ` {..<cap s1}. pred_option (\<lambda>h. \<not> evictable now h) (slots s2 ! i))"
    by (rule evict_fail_pass [OF _ _ _ s1(2,1,4)]) (auto simp: p passed_def evictable_def)
  then obtain s2 where s2: "evict_loop 0 now s2 = (t, False)" "\<forall>i < cap s. pred_option (\<lambda>h. \<not> evictable now h) (slots s2 ! i)" "shard_ok s2" "cap s2 = cap s"
    unfolding s1(3) ap [OF s1(2,3)] by auto
  have "contents t = contents s" using evict_loop_ok [OF s f] by simp
  moreover have "t = s2" using s2(1) by simp
  moreover have "norm h \<in># contents s" using held_member i d(6) by metis
  ultimately have "norm h \<in># contents s2" by simp
  then obtain j e where "j < cap s" "slots s2 ! j = Some e" "norm h = norm e"
    unfolding held_in using shard_okD(6) [OF s2(3)] s2(4) by auto
  then show ?thesis using s2(2) evictable_norm by (metis option.pred_inject(2))
qed

lemma evict_one_iff:
  assumes "shard_ok s" and "cap s < 2 ^ 31"
  shows "snd (shard_evict_one now s) \<longleftrightarrow> (\<exists>v \<in># contents s. evictable now v)"
proof -
  note d = shard_okD [OF assms(1)]
  obtain t ok where t: "shard_evict_one now s = (t, ok)" by fastforce
  have "cap s * 2 mod 2 ^ 32 = cap s + (cap s + 0)" using assms(2) by simp
  then have ev: "evict_loop (cap s + (cap s + 0)) now s = (t, ok)" using t by (simp add: shard_evict_one_def)
  have "\<not> evictable now v" if v: "v \<in># contents s" "\<not> ok" for v
  proof -
    obtain i e where "i < cap s" "slots s ! i = Some e" "v = norm e" using v(1) [unfolded held_in] d(6) by auto
    then show ?thesis using evict_progress [OF assms(1), of now t i e] ev v(2) by simp
  qed
  then show ?thesis using evict_loop_ok [OF assms(1) ev] t by auto
qed

lemma make_room_full:
  assumes "shard_ok s" and "cap s < 2 ^ 31" and "bytes_max (make_room now sz s) < bytes (make_room now sz s) + ucast sz"
  shows "v \<in># contents (make_room now sz s) \<Longrightarrow> \<not> evictable now v"
  using assms
proof (induction now sz s rule: make_room.induct)
  case (1 now sz s)
  show ?case
  proof (cases "bytes_max s < bytes s + ucast sz")
    case False
    then show ?thesis using 1(5) by (simp add: make_room.simps)
  next
    case True
    obtain t ok where t: "shard_evict_one now s = (t, ok)" by fastforce
    have m: "make_room now sz s = (if ok then make_room now sz t else t)" using True t by (subst make_room.simps) simp
    have to: "shard_ok t" "cap t = cap s" "\<not> ok \<Longrightarrow> contents t = contents s"
      using evict_loop_ok [OF 1(3)] t by (auto simp: shard_evict_one_def)
    show ?thesis
    proof (cases ok)
      case ok: True
      then show ?thesis using 1(1) [OF True t [symmetric] ok] 1(2,4,5) m to by simp
    next
      case no: False
      then show ?thesis using evict_one_iff [OF 1(3,4), of now] t m to(3) 1(2) by simp
    qed
  qed
qed

section \<open>The cache is a lossy map\<close>

context cache_keys
begin

lemma insert_step:
  assumes c: "cache_fine eqfn c" and p: "eqfn (epay e) key" "\<not> mem (2 ^ 31)"
  shows "cache_fine eqfn (cache_step eqfn (Insert mem now e key) c)"
    and "cache_find eqfn (cache_step eqfn (Insert mem now e key) c) (h, k) = Some v \<Longrightarrow>
      v = norm e \<and> matches eqfn h k e \<or> cache_find eqfn c (h, k) = Some v \<and> \<not> matches eqfn h k e"
proof -
  let ?i = "shard_of c (ehash e)"
  obtain t rc where t: "shard_insert eqfn mem now (sh c ! ?i) e key = (t, rc)" by fastforce
  note i = insert_fine [OF fine_shard [OF c] p t]
  have st: "cache_step eqfn (Insert mem now e key) c = c\<lparr>sh := (sh c)[?i := t]\<rparr>" by (simp add: elpis_cache_insert_def t)
  show "cache_fine eqfn (cache_step eqfn (Insert mem now e key) c)" unfolding st by (rule fine_update [OF c i(1)])
  assume "cache_find eqfn (cache_step eqfn (Insert mem now e key) c) (h, k) = Some v"
  then have f: "(if shard_of c h = ?i then look eqfn t h k else cache_find eqfn c (h, k)) = Some v"
    unfolding st find_update [OF c refl] .
  show "v = norm e \<and> matches eqfn h k e \<or> cache_find eqfn c (h, k) = Some v \<and> \<not> matches eqfn h k e"
  proof (cases "shard_of c h = ?i")
    case True
    then show ?thesis using f i(2) [of h k v] by (simp add: cache_find_def)
  next
    case False
    then have "\<not> matches eqfn h k e" by (auto simp: matches_def)
    then show ?thesis using False f by simp
  qed
qed

lemma remove_step:
  assumes c: "cache_fine eqfn c"
  shows "cache_fine eqfn (cache_step eqfn (Remove hash key) c)"
    and "cache_find eqfn (cache_step eqfn (Remove hash key) c) (h, k) = Some v \<Longrightarrow>
      cache_find eqfn c (h, k) = Some v \<and> \<not> (hash = h \<and> (\<forall>v. eqfn v key = eqfn v k))"
proof -
  let ?i = "shard_of c hash"
  obtain t rc where t: "shard_remove eqfn (sh c ! ?i) hash key = (t, rc)" by fastforce
  note i = remove_fine [OF fine_shard [OF c] t]
  have st: "cache_step eqfn (Remove hash key) c = c\<lparr>sh := (sh c)[?i := t]\<rparr>" by (simp add: elpis_cache_remove_def t)
  show "cache_fine eqfn (cache_step eqfn (Remove hash key) c)" unfolding st by (rule fine_update [OF c i(1)])
  assume "cache_find eqfn (cache_step eqfn (Remove hash key) c) (h, k) = Some v"
  then have f: "(if shard_of c h = ?i then look eqfn t h k else cache_find eqfn c (h, k)) = Some v"
    unfolding st find_update [OF c refl] .
  show "cache_find eqfn c (h, k) = Some v \<and> \<not> (hash = h \<and> (\<forall>v. eqfn v key = eqfn v k))"
    using f i(2) [of h k v] by (cases "shard_of c h = ?i") (auto simp: cache_find_def)
qed

lemma read_step:
  assumes c: "cache_fine eqfn c"
  shows "cache_fine eqfn (cache_step eqfn (Read hash key) c)"
    and "cache_find eqfn (cache_step eqfn (Read hash key) c) q = Some v \<Longrightarrow> cache_find eqfn c q = Some v"
proof -
  let ?i = "shard_of c hash"
  obtain t x where t: "shard_read eqfn (sh c ! ?i) hash key = (t, x)" by fastforce
  have s: "shard_fine eqfn (sh c ! ?i)" by (rule fine_shard [OF c])
  note r = read_ok [OF _ t] and st = subset_fine [OF s]
  have so: "shard_ok (sh c ! ?i)" using s by (simp add: shard_fine_def)
  have eq: "cache_step eqfn (Read hash key) c = c\<lparr>sh := (sh c)[?i := t]\<rparr>" by (simp add: elpis_cache_read_def t)
  show "cache_fine eqfn (cache_step eqfn (Read hash key) c)" unfolding eq
    by (rule fine_update [OF c st(1)]) (use r [OF so] in simp_all)
  assume "cache_find eqfn (cache_step eqfn (Read hash key) c) q = Some v"
  then have "(if shard_of c (fst q) = ?i then look eqfn t (fst q) (snd q) else cache_find eqfn c q) = Some v"
    unfolding eq using find_update [OF c refl, of hash t "fst q" "snd q"] by simp
  then show "cache_find eqfn c q = Some v"
    using st(2) [of t "fst q" "snd q" v] r [OF so] by (cases "shard_of c (fst q) = ?i") (auto simp: cache_find_def)
qed

lemma flush_step:
  assumes c: "cache_fine eqfn c"
  shows "cache_fine eqfn (cache_step eqfn Flush c)" and "cache_find eqfn (cache_step eqfn Flush c) q = None"
proof -
  have s: "shard_ok (sh c ! i)" if "i < length (sh c)" for i using c that by (auto simp: cache_fine_def shard_fine_def)
  show fine: "cache_fine eqfn (cache_step eqfn Flush c)"
    unfolding cache_step.simps elpis_cache_flush_def by (rule map_fine(1) [OF c]) (use flush_ok [OF s] in auto)
  show "cache_find eqfn (cache_step eqfn Flush c) q = None"
  proof (cases "cache_find eqfn (cache_step eqfn Flush c) q")
    case (Some v)
    have l: "shard_of c (fst q) < length (sh c)" by (rule shard_of_less [OF c])
    have "look eqfn (shard_flush (sh c ! shard_of c (fst q))) (fst q) (snd q) = Some v"
      using Some l by (simp add: cache_find_def elpis_cache_flush_def shard_of_def)
    then have "v \<in># contents (shard_flush (sh c ! shard_of c (fst q)))"
      using look_Some [OF shard_okD(1) [OF flush_ok(1) [OF s [OF l]]], of eqfn "fst q" "snd q" v] by simp
    then show ?thesis using flush_ok(3) [OF s [OF l]] by simp
  qed simp
qed

lemma expire_step:
  assumes c: "cache_fine eqfn c"
  shows "cache_fine eqfn (cache_step eqfn (Expire busy now budget) c)"
    and "cache_find eqfn (cache_step eqfn (Expire busy now budget) c) q = Some v \<Longrightarrow> cache_find eqfn c q = Some v"
proof -
  define upd where "upd per i = (if busy i then (sh c ! i, 0) else expire_loop per now (sh c ! i, 0))" for per i
  obtain per where st: "cache_step eqfn (Expire busy now budget) c = c\<lparr>sh := map (\<lambda>i. fst (upd per i)) [0..<length (sh c)]\<rparr>"
    by (simp add: elpis_cache_expire_def Let_def upd_def comp_def)
  have each: "shard_ok (fst (upd per i)) \<and> cap (fst (upd per i)) = cap (sh c ! i) \<and> contents (fst (upd per i)) \<subseteq># contents (sh c ! i)"
    if "i < length (sh c)" for i
  proof -
    have "shard_ok (sh c ! i)" using c that by (auto simp: cache_fine_def shard_fine_def)
    then show ?thesis using expire_loop_ok [of "sh c ! i" per now 0] by (cases "expire_loop per now (sh c ! i, 0)") (simp add: upd_def)
  qed
  show "cache_fine eqfn (cache_step eqfn (Expire busy now budget) c)"
    unfolding st by (rule map_fine(1) [OF c]) (simp_all add: each)
  show "cache_find eqfn (cache_step eqfn (Expire busy now budget) c) q = Some v \<Longrightarrow> cache_find eqfn c q = Some v"
    unfolding st by (rule map_fine(2) [OF c]) (simp_all add: each)
qed

end

sublocale cache_keys \<subseteq> cm: lossy_map "cache_fine eqfn" "cache_find eqfn" "cache_step eqfn" "op_fine eqfn" "op_stores eqfn" "op_obsoletes eqfn"
proof
  fix s :: "'v elpis_cache" and p :: "('v, 'k) cache_op"
  assume s: "cache_fine eqfn s" and p: "op_fine eqfn p"
  show "cache_fine eqfn (cache_step eqfn p s)"
    by (cases p) (use s p insert_step(1) remove_step(1) read_step(1) flush_step(1) expire_step(1) in auto)
  fix q a
  assume f: "cache_find eqfn (cache_step eqfn p s) q = Some a"
  obtain h k where q: "q = (h, k)" by fastforce
  show "op_stores eqfn p q a \<or> cache_find eqfn s q = Some a \<and> \<not> op_obsoletes eqfn p q"
  proof (cases p)
    case (Insert mem now e key)
    then show ?thesis using insert_step(2) [OF s, of e key mem now h k a] p f q by (simp del: cache_step.simps)
  next
    case (Remove hash key)
    then show ?thesis using remove_step(2) [OF s, of hash key h k a] f q by (auto simp del: cache_step.simps)
  next
    case (Read hash key)
    then show ?thesis using read_step(2) [OF s, of hash key q a] f by (simp del: cache_step.simps)
  next
    case Flush
    then show ?thesis using flush_step(2) [OF s, of q] f by (simp del: cache_step.simps)
  next
    case (Expire busy now budget)
    then show ?thesis using expire_step(2) [OF s, of busy now budget q a] f by (simp del: cache_step.simps)
  qed
qed

lemma round_loop_bounds: "1 \<le> p \<Longrightarrow> 1 \<le> round_loop v p"
proof (induction v p rule: round_loop.induct)
  case (1 v p)
  then show ?case by (subst round_loop.simps) auto
qed

lemma cache_new_fine:
  assumes "elpis_cache_new mem name mx n = Some c"
  shows "cache_fine eqfn c" and "cache_find eqfn c q = None"
proof -
  define m where "m = (let shards = round_pow2 (if n = 0 then 16 else unat n) in if 4096 < shards then 4096 else shards)"
  have m: "1 \<le> m" "m \<le> 4096" using round_loop_bounds [of 1] by (simp_all add: m_def round_pow2_def Let_def)
  have c: "c = \<lparr>cname = take 31 name, nshards = m, sh = replicate m (shard_new (mx div word_of_nat m)), cbytes_max = mx\<rparr>"
    using assms by (simp add: elpis_cache_new_def m_def Let_def split: if_splits)
  show fine: "cache_fine eqfn c"
    using m by (auto simp: cache_fine_def shard_fine_def uniq_def c new_ok)
  have "shard_of c (fst q) < m" using shard_of_less [OF fine, of "fst q"] by (simp add: c)
  then have "sh c ! shard_of c (fst q) = shard_new (mx div word_of_nat m)" by (simp add: c)
  then show "cache_find eqfn c q = None"
    using look_Some [OF shard_okD(1) [OF new_ok(1)], of eqfn _ "fst q" "snd q"]
    by (cases "cache_find eqfn c q") (simp_all add: cache_find_def new_ok)
qed

section \<open>Properties of the cache\<close>

context cache_keys
begin

lemma insert_exact:
  assumes s: "shard_fine eqfn s" and k: "eqfn (epay e) key" and m: "\<not> mem (2 ^ 31)" and i: "shard_insert eqfn mem now s e key = (t, ELPIS_OK)"
  shows "look eqfn t (ehash e) key = Some (norm e)"
    and "bytes s + ucast (esize e) \<le> bytes_max s \<Longrightarrow> \<not> matches eqfn h k' e \<Longrightarrow> look eqfn t h k' = look eqfn s h k'"
proof -
  have so: "shard_ok s" "uniq eqfn (contents s)" "cap s < 2 ^ 31" using s by (auto simp: shard_fine_def)
  note io = insert_ok [OF so k m i] and tf = insert_fine(1) [OF s k m i]
  have "norm e \<in># contents t" using io(1) by (auto simp: inserted_def)
  then show "look eqfn t (ehash e) key = Some (norm e)" using look_fine [OF tf] k by (simp add: matches_def)
  assume room: "bytes s + ucast (esize e) \<le> bytes_max s" and nm: "\<not> matches eqfn h k' e"
  have "v \<in># contents t \<and> matches eqfn h k' v \<longleftrightarrow> v \<in># contents s \<and> matches eqfn h k' v" for v
  proof (cases "find_slot eqfn s (ehash e) key")
    case (Some x)
    obtain j old where x: "x = (j, old)" by fastforce
    have t: "t = replace_entry s j old e" using i Some x by (simp add: shard_insert_def)
    note r = replace_ok [OF so(1,2) k Some [unfolded x]]
    have "matches eqfn (ehash e) key old" using find_slot_Some [OF shard_okD(1) [OF so(1)] Some [unfolded x]] by (simp add: present_def)
    then have "\<not> matches eqfn h k' (norm old)" using nm k same_key [of "epay old" key "epay e" k'] by (auto simp: matches_def)
    moreover obtain D where "contents s = add_mset (norm old) D" using r(4) by (metis mset_add)
    ultimately show ?thesis using r(3) nm by (auto simp: t)
  next
    case None
    have mr: "make_room now (esize e) s = s" using room by (subst make_room.simps) simp
    obtain w where w: "grow mem s = Some w" "place w e = Some t"
      using i None mr room by (auto simp: shard_insert_def Let_def split: if_splits option.splits)
    note g = grow_ok [OF so(1) w(1) so(3)]
    have "contents t = add_mset (norm e) (contents s)" using place_ok [OF g(1,4), of e] w(2) g(2) by (metis option.inject)
    then show ?thesis using nm by auto
  qed
  then show "look eqfn t h k' = look eqfn s h k'"
    using look_fine [OF tf, of h k'] look_fine [OF s, of h k'] by (metis not_Some_eq)
qed

lemma run_never_stale:
  assumes "elpis_cache_new mem name mx n = Some c" and "\<forall>p \<in> set ps. op_fine eqfn p" and "cache_find eqfn (fold (cache_step eqfn) ps c) q = Some v"
  shows "\<exists>xs p ys. ps = xs @ p # ys \<and> op_stores eqfn p q v \<and> (\<forall>r \<in> set ys. \<not> op_obsoletes eqfn r q)"
  by (rule cm.never_stale [OF cache_new_fine(1) [OF assms(1)] cache_new_fine(2) [OF assms(1)] assms(2,3)])

lemma run_fine: "elpis_cache_new mem name mx n = Some c \<Longrightarrow> \<forall>p \<in> set ps. op_fine eqfn p \<Longrightarrow> cache_fine eqfn (fold (cache_step eqfn) ps c)"
  by (rule cm.inv_run [OF cache_new_fine(1)])

end

lemma grow_None:
  assumes "shard_ok s" and "cap s < 2 ^ 31" and "grow mem s = None"
  shows "\<not> mem (cap s) \<or> \<not> mem (2 * cap s)"
proof -
  note d = shard_okD [OF assms(1)]
  have "cap s * 2 mod 2 ^ 32 = 2 * cap s" using assms(2) by simp
  moreover have "MIN_CAP \<le> cap s" using d(8) by (simp add: MIN_CAP_def)
  ultimately show ?thesis using assms(3) by (auto simp: grow_def shard_rehash_def shard_alloc_def Let_def split: if_splits)
qed

lemma insert_fits:
  assumes s: "shard_ok s" and n: "look eqfn s (ehash e) key = None" and r: "bytes s + ucast (esize e) \<le> bytes_max s"
    and l: "8 * (size (contents s) + deleted s + 1) \<le> 7 * cap s"
  shows "snd (shard_insert eqfn mem now s e key) = ELPIS_OK"
proof -
  have "make_room now (esize e) s = s" using r by (subst make_room.simps) simp
  moreover have "grow mem s = Some s" using l by (simp add: grow_def used_small [OF s])
  moreover obtain t where "place s e = Some t" by (rule place_ok [OF s l])
  ultimately show ?thesis using n r by (simp add: shard_insert_def look_def not_less)
qed

lemma new_room: "8 * (size (contents (shard_new mx)) + deleted (shard_new mx) + 1) \<le> 7 * cap (shard_new mx)"
  unfolding new_ok by (simp add: deleted_def shard_new_def MIN_CAP_def)

lemma new_empty: "look eqfn (shard_new mx) h k = None"
  using look_Some [OF shard_okD(1) [OF new_ok(1)], of eqfn mx h k] by (cases "look eqfn (shard_new mx) h k") (simp_all add: new_ok)

lemma new_bytes: "bytes (shard_new mx) = 0" "bytes_max (shard_new 0) = 65536"
  by (simp_all add: shard_new_def shard_zero_def)

text \<open>A cache of one shard with one entry.\<close>

definition one_cache :: "nat elpis_cache" where
  "one_cache = \<lparr>cname = [], nshards = 1, sh = [shard_new 0], cbytes_max = 0\<rparr>"

definition one_entry :: "nat centry" where
  "one_entry = \<lparr>ehash = 7, eexpiry = 9, esize = 64, eref = True, epinned = False, epay = 3\<rparr>"

lemma one_cache_new: "elpis_cache_new (\<lambda>_. True) [] 0 1 = Some one_cache"
  by (simp add: elpis_cache_new_def one_cache_def round_pow2_def round_loop.simps)

lemma one_cache_shard: "shard_of one_cache h = 0" "sh one_cache ! 0 = shard_new 0"
  by (simp_all add: shard_of_def one_cache_def)

lemma one_insert:
  "\<exists>c. elpis_cache_insert (=) (\<lambda>n. n \<le> 64) 0 one_cache one_entry 3 = (c, ELPIS_OK) \<and> cache_find (=) c (7, 3) = Some (norm one_entry)"
proof -
  have ck: "cache_keys ((=) :: nat \<Rightarrow> nat \<Rightarrow> bool)" by standard simp
  obtain t where t: "shard_insert (=) (\<lambda>n. n \<le> 64) 0 (shard_new 0) one_entry 3 = (t, ELPIS_OK)"
    using insert_fits [OF new_ok(1) [of 0] new_empty _ new_room, where e = one_entry and eqfn = "(=)" and key = 3 and mem = "\<lambda>n. n \<le> 64" and now = 0]
    by (cases "shard_insert (=) (\<lambda>n. n \<le> 64) 0 (shard_new 0) one_entry 3") (simp add: new_bytes one_entry_def)
  have f: "shard_fine (=) (shard_new 0 :: nat shard)" by (simp add: shard_fine_def new_ok uniq_def)
  have "look (=) t 7 3 = Some (norm one_entry)" using cache_keys.insert_exact(1) [OF ck f _ _ t] by (simp add: one_entry_def)
  then show ?thesis using t
    by (simp add: elpis_cache_insert_def one_cache_shard cache_find_def one_cache_shard(1) [unfolded shard_of_def] shard_of_def)
      (simp add: one_cache_def)
qed

text \<open>
  Property C29.  The cache is a map that may forget but never lies.  Starting from a new cache, after any sequence of
  insertions, removals, reads, flushes and expirations (with any clock, any lock contention, any allocator that does
  not hand out tables of 2^31 slots), an entry that a lookup returns was stored under that key by an insertion of the
  sequence, and no later operation inserted or removed that key or flushed the cache.  The comparison function of the
  client only has to compare keys.
\<close>

theorem cache_never_stale:
  assumes "\<And>v w k k'. eqfn v k \<Longrightarrow> eqfn w k \<Longrightarrow> eqfn v k' \<Longrightarrow> eqfn w k'"
    and "elpis_cache_new mem name mx n = Some c" and "\<forall>p \<in> set ps. op_fine eqfn p"
    and "cache_find eqfn (fold (cache_step eqfn) ps c) q = Some v"
  shows "\<exists>xs p ys. ps = xs @ p # ys \<and> op_stores eqfn p q v \<and> (\<forall>r \<in> set ys. \<not> op_obsoletes eqfn r q)"
proof -
  have ck: "cache_keys eqfn" by standard (rule assms(1))
  show ?thesis
    by (rule cache_keys.run_never_stale [OF ck assms(2-4)])
qed

theorem cache_never_stale_witness:
  "\<exists>xs p ys. [Insert (\<lambda>n. n \<le> 64) 0 one_entry 3] = xs @ p # ys \<and> op_stores (=) p (7, 3) (norm one_entry) \<and>
    (\<forall>r \<in> set ys. \<not> op_obsoletes (=) r (7, 3))"
proof -
  have "cache_find (=) (fold (cache_step (=)) [Insert (\<lambda>n. n \<le> 64) 0 one_entry 3] one_cache) (7, 3) = Some (norm one_entry)"
    using one_insert by auto
  from cache_never_stale [OF _ one_cache_new _ this] show ?thesis by (simp add: one_entry_def)
qed

text \<open>
  Property C30.  A successful insertion can be looked up at once under its key, keeps the cache well formed, and, when
  the budget of the shard has room for it, changes nothing for any other key: the entry is the only difference.
\<close>

theorem cache_insert_spec:
  assumes "\<And>v w k k'. eqfn v k \<Longrightarrow> eqfn w k \<Longrightarrow> eqfn v k' \<Longrightarrow> eqfn w k'"
    and "cache_fine eqfn c" and "eqfn (epay e) key" and "\<not> mem (2 ^ 31)"
    and "elpis_cache_insert eqfn mem now c e key = (c', ELPIS_OK)"
  shows "cache_fine eqfn c' \<and> cache_find eqfn c' (ehash e, key) = Some (norm e) \<and>
    (bytes (sh c ! shard_of c (ehash e)) + ucast (esize e) \<le> bytes_max (sh c ! shard_of c (ehash e)) \<longrightarrow>
      (\<forall>h k. \<not> matches eqfn h k e \<longrightarrow> cache_find eqfn c' (h, k) = cache_find eqfn c (h, k)))"
proof -
  have ck: "cache_keys eqfn" by standard (rule assms(1))
  let ?i = "shard_of c (ehash e)"
  obtain t where t: "shard_insert eqfn mem now (sh c ! ?i) e key = (t, ELPIS_OK)" "c' = c\<lparr>sh := (sh c)[?i := t]\<rparr>"
    using assms(5) by (cases "shard_insert eqfn mem now (sh c ! ?i) e key") (auto simp: elpis_cache_insert_def Let_def)
  note x = cache_keys.insert_exact [OF ck fine_shard [OF assms(2)] assms(3,4) t(1)]
  have "cache_fine eqfn c'" using cache_keys.insert_step(1) [OF ck assms(2,3), of mem now] assms(4,5) by simp
  then show ?thesis using x unfolding t(2) find_update [OF assms(2) refl] by (auto simp: cache_find_def)
qed

theorem cache_insert_spec_witness:
  "\<exists>c. elpis_cache_insert (=) (\<lambda>n. n \<le> 64) 0 one_cache one_entry 3 = (c, ELPIS_OK) \<and> cache_fine (=) c \<and>
    cache_find (=) c (7, 3) = Some (norm one_entry) \<and> cache_find (=) c (7, 4) = None"
proof -
  obtain c where c: "elpis_cache_insert (=) (\<lambda>n. n \<le> 64) 0 one_cache one_entry 3 = (c, ELPIS_OK)" using one_insert by blast
  have e: "ehash one_entry = 7" "\<not> matches (=) 7 4 one_entry" "epay one_entry = 3" "esize one_entry = 64" by (simp_all add: one_entry_def matches_def)
  have n: "cache_find (=) one_cache (7, 4) = None" by (simp add: cache_find_def one_cache_shard new_empty)
  show ?thesis
    using cache_insert_spec [OF _ cache_new_fine(1) [OF one_cache_new] _ _ c] c e n by (auto simp: one_cache_shard new_bytes)
qed

text \<open>
  Property C31.  The CLOCK hand makes progress: a sweep of two turns frees an entry exactly when some entry of the shard
  may be freed, that is, has expired or is not pinned; reference bits delay an eviction but never prevent it.
\<close>

theorem evict_one_progress:
  assumes "shard_ok s" and "cap s < 2 ^ 31"
  shows "snd (shard_evict_one now s) \<longleftrightarrow> (\<exists>v \<in># contents s. evictable now v)"
  by (rule evict_one_iff [OF assms])

theorem evict_one_progress_witness:
  "snd (shard_evict_one 5 (the (place (shard_new 0) \<lparr>ehash = 7, eexpiry = 9, esize = 64, eref = True, epinned = False, epay = ()\<rparr>)))"
proof -
  let ?e = "\<lparr>ehash = 7, eexpiry = 9, esize = 64, eref = True, epinned = False, epay = ()\<rparr> :: unit centry"
  obtain t where t: "place (shard_new 0) ?e = Some t" "shard_ok t" "contents t = add_mset (norm ?e) (contents (shard_new 0 :: unit shard))" "cap t = cap (shard_new 0 :: unit shard)"
    using place_ok [OF new_ok(1) new_room, of 0 ?e] by metis
  have "cap t < 2 ^ 31" using t(4) by (simp add: new_ok)
  then have "snd (shard_evict_one 5 t)" using evict_one_progress [OF t(2), of 5] t(3) by (simp add: evictable_def)
  then show ?thesis using t(1) by simp
qed

text \<open>
  Property C32.  An insertion is refused only for two reasons: the entry is not pinned and the shard stays over budget
  although everything left in it is pinned and has not expired, or the allocator refused a larger table.  It is never
  refused for want of a free slot, and a refused insertion leaves no entry under its key.
\<close>

theorem cache_insert_refused:
  assumes "shard_ok s" and "cap s < 2 ^ 31" and "shard_insert eqfn mem now s e key = (t, rc)" and "rc \<noteq> ELPIS_OK"
  shows "rc = ELPIS_ENOMEM \<and> (\<forall>v \<in># contents t. \<not> matches eqfn (ehash e) key v) \<and>
    (\<not> epinned e \<and> bytes_max t < bytes t + ucast (esize e) \<and> (\<forall>v \<in># contents t. \<not> evictable now v) \<or> \<not> mem (cap t) \<or> \<not> mem (2 * cap t))"
proof -
  define u where "u = make_room now (esize e) s"
  have n: "find_slot eqfn s (ehash e) key = None" using assms(3,4) by (auto simp: shard_insert_def split: option.splits)
  have u: "shard_ok u" "cap u < 2 ^ 31" "contents u \<subseteq># contents s" using make_room_ok [OF assms(1), of now "esize e"] assms(2) by (auto simp: u_def)
  have abs: "\<forall>v \<in># contents u. \<not> matches eqfn (ehash e) key v"
    using look_None [of s eqfn "ehash e" key] shard_okD(1) [OF assms(1)] n u(3) by (auto simp: look_def dest: mset_subset_eqD)
  have "\<exists>x. place w e = Some x" if "grow mem u = Some w" for w
    using place_ok [OF grow_ok(1,4) [OF u(1) that u(2)], of e] by blast
  then have "t = u \<and> rc = ELPIS_ENOMEM \<and> ((bytes_max u < bytes u + ucast (esize e) \<and> \<not> epinned e) \<or> grow mem u = None)"
    using assms(3,4) n by (auto simp: shard_insert_def Let_def u_def [symmetric] split: if_splits option.splits)
  moreover have "\<not> mem (cap u) \<or> \<not> mem (2 * cap u)" if "grow mem u = None" by (rule grow_None [OF u(1,2) that])
  ultimately show ?thesis using abs make_room_full [OF assms(1,2), of now "esize e"] by (auto simp: u_def)
qed

theorem cache_insert_refused_witness:
  "snd (shard_insert (=) (\<lambda>_. True) 0 (shard_new 0) (one_entry\<lparr>esize := 65537\<rparr>) 3) = ELPIS_ENOMEM"
proof -
  let ?e = "one_entry\<lparr>esize := 65537\<rparr>"
  define u where "u = make_room 0 65537 (shard_new 0 :: nat shard)"
  have u: "shard_ok u" "bytes_max u = 65536" "contents u = {#}"
    using make_room_ok [OF new_ok(1), of 0 65537 0, where 'a = nat] by (simp_all add: u_def new_ok new_bytes)
  have "bytes u = 0" using shard_okD(2) [OF u(1)] u(3) by (simp add: counts_ok_def)
  moreover have "find_slot (=) (shard_new 0) (ehash ?e) (3 :: nat) = None" using new_empty [of "(=)" 0 "ehash ?e" "3 :: nat"] by (simp add: look_def)
  ultimately have r: "shard_insert (=) (\<lambda>_. True) 0 (shard_new 0) ?e 3 = (u, ELPIS_ENOMEM)"
    using u(2) by (simp add: shard_insert_def u_def [symmetric] Let_def) (simp add: one_entry_def u_def [symmetric])
  show ?thesis using cache_insert_refused [OF new_ok(1) _ r] r by (simp add: new_ok)
qed

text \<open>
  Property C33.  Every shard of a cache that was created and then used in any way is well formed: the control bytes and
  the slots have the lengths of the capacity and say the same about which slots are full, at most seven eighths of the
  slots are full or tombstones, and the counters of entries, bytes and pinned entries are exactly those of the entries
  held, so no sequence of operations makes the budget drift.
\<close>

theorem cache_wellformed:
  assumes "\<And>v w k k'. eqfn v k \<Longrightarrow> eqfn w k \<Longrightarrow> eqfn v k' \<Longrightarrow> eqfn w k'"
    and "elpis_cache_new mem name mx n = Some c" and "\<forall>p \<in> set ps. op_fine eqfn p"
    and "s \<in> set (sh (fold (cache_step eqfn) ps c))"
  shows "length (ctrl s) = cap s + 16 \<and> length (slots s) = cap s \<and> hand s < cap s \<and>
    (\<forall>i < cap s. IS_FULL (ctrl s ! i) \<longleftrightarrow> slots s ! i \<noteq> None) \<and>
    8 * (unat (used s) + unat (tomb s)) \<le> 7 * cap s \<and> unat (used s) = size (contents s) \<and>
    bytes s = (\<Sum>e \<in># contents s. ucast (esize e)) \<and>
    unat (pinned_entries s) = size (filter_mset epinned (contents s)) \<and>
    pinned_bytes s = (\<Sum>e \<in># filter_mset epinned (contents s). ucast (esize e))"
proof -
  have "cache_keys eqfn" by standard (rule assms(1))
  from cache_keys.run_fine [OF this assms(2,3)] have "shard_ok s" using assms(4) by (auto simp: cache_fine_def shard_fine_def)
  note d = shard_okD [OF this]
  have a: "size (contents s) < 2 ^ 32" "deleted s < 2 ^ 32" using d(5,9) by simp_all
  have a3: "size (filter_mset epinned (contents s)) < 2 ^ 32" using size_filter_mset_lesseq a(1) by (rule le_less_trans)
  note u = unat_of_nat32 [OF a(1)] unat_of_nat32 [OF a(2)] unat_of_nat32 [OF a3]
  show ?thesis using d(2-7) table_full [OF d(1)] unfolding counts_ok_def by (simp add: u)
qed

theorem cache_wellformed_witness:
  "unat (used (sh (fold (cache_step (=)) [Insert (\<lambda>n. n \<le> 64) 0 one_entry 3] one_cache) ! 0)) =
    size (contents (sh (fold (cache_step (=)) [Insert (\<lambda>n. n \<le> 64) 0 one_entry 3] one_cache) ! 0))"
proof -
  have "length (sh (fold (cache_step (=)) [Insert (\<lambda>n. n \<le> 64) 0 one_entry 3] one_cache)) = 1"
    by (simp add: elpis_cache_insert_def Let_def split: prod.splits) (simp add: one_cache_def)
  then show ?thesis
    using cache_wellformed [OF _ one_cache_new, of "(=)" "[Insert (\<lambda>n. n \<le> 64) 0 one_entry 3]"] by (auto simp: one_entry_def)
qed

lemma unat_MB: "unat MB = 1048576" "unat GB = 1073741824" "unat (8 * MB) = 8388608" "unat (32 * GB) = 34359738368" "unat (2 * MB) = 2097152"
  by (simp_all add: MB_def GB_def)

lemma plan_budget_range: "8388608 \<le> unat (plan_budget ram ov)" "unat (plan_budget ram ov) \<le> 34359738368"
proof -
  have "8 * MB \<le> plan_budget ram ov" "plan_budget ram ov \<le> 32 * GB"
    unfolding plan_budget_def Let_def by (auto simp: not_less MB_def GB_def)
  then show "8388608 \<le> unat (plan_budget ram ov)" "unat (plan_budget ram ov) \<le> 34359738368"
    by (simp_all add: word_le_nat_alt unat_MB)
qed

lemma plan_sum:
  assumes "unat (b :: u64) \<le> 34359738368"
  shows "unat (b div 2) + unat (b div 100 * 32) + unat (b div 100 * 12) + unat (b - b div 2 - b div 100 * 32 - b div 100 * 12) = unat b"
proof -
  define n h q where "n = unat b" and "h = n div 2" and "q = n div 100"
  have le: "h + q * 32 + q * 12 \<le> n"
    using times_div_less_eq_dividend [of 2 n] times_div_less_eq_dividend [of 100 n] unfolding h_def q_def by linarith
  have n: "n \<le> 34359738368" using assms by (simp add: n_def)
  define x y where "x = b div 2" and "y = b div 100"
  have d: "unat x = h" "unat y = q" by (simp_all add: unat_div n_def h_def q_def x_def y_def)
  have m: "unat (y * 32) = q * 32" "unat (y * 12) = q * 12" using le n by (simp_all add: unat_word_ariths d)
  have s: "unat (x + y * 32 + y * 12) = h + q * 32 + q * 12" using le n by (simp add: unat_word_ariths d)
  have "b - x - y * 32 - y * 12 = b - (x + y * 32 + y * 12)" by (simp add: diff_diff_add)
  moreover have "unat (b - (x + y * 32 + y * 12)) = n - (h + q * 32 + q * 12)"
    using le by (subst unat_sub) (simp_all only: word_le_nat_alt s n_def [symmetric])
  ultimately show ?thesis using le unfolding x_def [symmetric] y_def [symmetric] by (simp only: d m n_def [symmetric])
qed

lemma round_loop_pow2: "(\<exists>k. p = 2 ^ k) \<Longrightarrow> \<exists>k. round_loop v p = 2 ^ k"
proof (induction v p rule: round_loop.induct)
  case (1 v p)
  then show ?case by (subst round_loop.simps) (auto, metis power_Suc2)
qed

lemma plan_shards_pow2: "\<exists>k. 4 \<le> k \<and> k \<le> 9 \<and> plan_shards cpus = 2 ^ k"
proof -
  define m where "m = round_pow2 (if cpus \<noteq> 0 then unat (cpus * 8) else 16)"
  obtain k where k: "m = 2 ^ k" using round_loop_pow2 [of 1] unfolding m_def round_pow2_def by (metis power_0)
  have s: "plan_shards cpus = (if 512 < (if m < 16 then 16 else m) then 512 else if m < 16 then 16 else m)"
    by (simp add: plan_shards_def m_def Let_def)
  consider "k < 4" | "4 \<le> k" "k \<le> 9" | "9 < k" by linarith
  then show ?thesis
  proof cases
    case 1
    then have "m < 16" using power_strict_increasing [of k 4 "2 :: nat"] k by simp
    then show ?thesis unfolding s by (intro exI [of _ 4]) simp
  next
    case 2
    then have "16 \<le> m" "m \<le> 512" using power_increasing [of 4 k "2 :: nat"] power_increasing [of k 9 "2 :: nat"] k by simp_all
    then show ?thesis unfolding s using 2 k by (intro exI [of _ k]) simp
  next
    case 3
    then have "512 < m" using power_strict_increasing [of 9 k "2 :: nat"] k by simp
    then show ?thesis unfolding s by (intro exI [of _ 9]) simp
  qed
qed


end
