(* ===== verification/Elpis_Infra.thy ===== *)
theory Elpis_Infra
  imports Elpis_Cache Elpis_Util
begin

text \<open>
  The infrastructure cache of src/cache/infra.c: what the resolver remembers of each name server
  (round-trip time, EDNS, cookies, holds, DNS over TLS), kept in a sharded cache under the
  server's address.  Each public operation reads the state of a server, changes it by one of the
  \<open>fn_\<close> functions and inserts it again.  The clock, the allocator and the size of an entry are
  arguments; each operation is one step.
\<close>

section \<open>State\<close>

abbreviation (input) ELPIS_RTT_INITIAL :: u32 where "ELPIS_RTT_INITIAL \<equiv> 376"
abbreviation (input) ELPIS_RTT_MAX :: u32 where "ELPIS_RTT_MAX \<equiv> 12000"
abbreviation (input) ELPIS_RTT_BAN :: u32 where "ELPIS_RTT_BAN \<equiv> 120000"
abbreviation (input) INFRA_TTL :: u32 where "INFRA_TTL \<equiv> 3600"
abbreviation (input) ELPIS_INF_LAME :: byte where "ELPIS_INF_LAME \<equiv> 0x01"
abbreviation (input) ELPIS_INF_COOKIE_OK :: byte where "ELPIS_INF_COOKIE_OK \<equiv> 0x02"
abbreviation (input) ELPIS_HOLD_AFTER :: u32 where "ELPIS_HOLD_AFTER \<equiv> 3"
abbreviation (input) ELPIS_HOLD_SILENT_S :: u32 where "ELPIS_HOLD_SILENT_S \<equiv> 10"
abbreviation (input) ELPIS_DOT_CLAIM_S :: u32 where "ELPIS_DOT_CLAIM_S \<equiv> 10"
abbreviation (input) ELPIS_DOT_GIVE_UP_KEEP_S :: u32 where "ELPIS_DOT_GIVE_UP_KEEP_S \<equiv> 30 * 86400"

abbreviation ELPIS_DOT_UNKNOWN :: byte where "ELPIS_DOT_UNKNOWN \<equiv> 0"
abbreviation ELPIS_DOT_AVAILABLE :: byte where "ELPIS_DOT_AVAILABLE \<equiv> 1"
abbreviation ELPIS_DOT_FAILED :: byte where "ELPIS_DOT_FAILED \<equiv> 2"
abbreviation ELPIS_DOT_UNAVAILABLE :: byte where "ELPIS_DOT_UNAVAILABLE \<equiv> 3"

datatype dot_mode = ELPIS_DOTM_PLAIN | ELPIS_DOTM_USE | ELPIS_DOTM_TEST

record elpis_infra_info =
  srtt :: u32
  rttvar :: u32
  timeouts :: u32
  queries :: u32
  edns_max :: u16
  edns_state :: byte
  iflags :: byte
  cookie :: buffer
  cookie_len :: byte
  silent_types :: byte
  silent_since :: u32
  hold_until :: u32
  last_used :: u32
  ecs_off_until :: u32
  dot_state :: byte
  dot_tries :: byte
  dot_until :: u32
  dot_claim :: u32
  dot_keep :: u32

record ient =
  iaddr :: elpis_addr
  iinfo :: elpis_infra_info

definition ient_eq :: "ient \<Rightarrow> elpis_addr \<Rightarrow> bool" where
  "ient_eq e a = elpis_addr_eq (iaddr e) a"

definition ikey_hash :: "elpis_addr \<Rightarrow> u64" where
  "ikey_hash a = elpis_mix64 (elpis_addr_hash a XOR 0x9E3779B97F4A7C15)"

definition elpis_infra_new :: "(nat \<Rightarrow> bool) \<Rightarrow> u64 \<Rightarrow> u32 \<Rightarrow> ient elpis_cache option" where
  "elpis_infra_new mem mx shards = elpis_cache_new mem (lit ''infra-cache'') mx shards"

definition info_defaults :: elpis_infra_info where
  "info_defaults =
     \<lparr>srtt = ELPIS_RTT_INITIAL, rttvar = ELPIS_RTT_INITIAL div 2, timeouts = 0, queries = 0, edns_max = 0, edns_state = 0,
      iflags = 0, cookie = replicate 32 0, cookie_len = 0, silent_types = 0, silent_since = 0, hold_until = 0, last_used = 0,
      ecs_off_until = 0, dot_state = 0, dot_tries = 0, dot_until = 0, dot_claim = 0, dot_keep = 0\<rparr>"

definition freshen :: "elpis_infra_info \<Rightarrow> u32 \<Rightarrow> elpis_infra_info" where
  "freshen i now =
     (if last_used i = 0 \<or> now < last_used i + INFRA_TTL then i
      else info_defaults\<lparr>dot_state := dot_state i, dot_tries := dot_tries i, dot_until := dot_until i,
             dot_keep := dot_keep i, last_used := last_used i\<rparr>)"

text \<open>The part of \<open>elpis_infra_get\<close> and \<open>infra_update\<close> that looks the server up.\<close>

definition infra_lookup :: "u32 \<Rightarrow> ient elpis_cache \<Rightarrow> elpis_addr \<Rightarrow> ient elpis_cache \<times> elpis_infra_info" where
  "infra_lookup now c a =
     (case elpis_cache_read ient_eq c (ikey_hash a) a of
        (c', Some e) \<Rightarrow> (c', freshen (iinfo (epay e)) now)
      | (c', None) \<Rightarrow> (c', info_defaults))"

definition elpis_infra_get :: "u32 \<Rightarrow> ient elpis_cache \<Rightarrow> elpis_addr \<Rightarrow> ient elpis_cache \<times> elpis_infra_info" where
  "elpis_infra_get now c a = infra_lookup now c a"

text \<open>What the host answers during one update: allocations, the two readings of the clock, the size of an entry.\<close>

record infra_env =
  alloc_table :: "nat \<Rightarrow> bool"
  alloc_entry :: bool
  clock :: u32
  clock_insert :: u32
  ient_size :: u32

definition infra_store :: "infra_env \<Rightarrow> ient elpis_cache \<Rightarrow> elpis_addr \<Rightarrow> elpis_infra_info \<Rightarrow> ient elpis_cache" where
  "infra_store v c a info0 =
     (let now = clock v; info = info0\<lparr>last_used := now\<rparr>; expiry0 = now + INFRA_TTL;
          expiry = (if dot_state info \<noteq> ELPIS_DOT_UNKNOWN \<and> dot_keep info > expiry0 then dot_keep info else expiry0)
      in if \<not> alloc_entry v then c
         else fst (elpis_cache_insert ient_eq (alloc_table v) (clock_insert v) c
                     \<lparr>ehash = ikey_hash a, eexpiry = expiry, esize = ient_size v + 64, eref = True, epinned = False,
                      epay = \<lparr>iaddr = a, iinfo = info\<rparr>\<rparr> a))"

definition infra_update ::
  "infra_env \<Rightarrow> ient elpis_cache \<Rightarrow> elpis_addr \<Rightarrow> (elpis_infra_info \<Rightarrow> elpis_infra_info \<times> 'r) \<Rightarrow> ient elpis_cache \<times> 'r" where
  "infra_update v c a fn =
     (let (c1, info) = infra_lookup (clock v) c a; (info', r) = fn info in (infra_store v c1 a info', r))"

section \<open>Changes of a server's state\<close>

text \<open>The casts to \<open>int32_t\<close> and the arithmetic right shift are those of the source, at 32 bits.\<close>

definition smooth :: "u32 \<Rightarrow> elpis_infra_info \<Rightarrow> elpis_infra_info" where
  "smooth rtt i =
     (let err = rtt - srtt i;
          srtt' = srtt i + signed_drop_bit 3 err;
          err' = (if err <s 0 then - err else err)
      in i\<lparr>srtt := srtt', rttvar := rttvar i + signed_drop_bit 2 (err' - rttvar i)\<rparr>)"

definition fn_rtt_ok :: "u32 \<Rightarrow> elpis_infra_info \<Rightarrow> elpis_infra_info" where
  "fn_rtt_ok rtt0 i =
     (let rtt = (if rtt0 > ELPIS_RTT_MAX then ELPIS_RTT_MAX else rtt0);
          j = (if queries i = 0 then i\<lparr>srtt := rtt, rttvar := rtt div 2\<rparr> else smooth rtt i);
          j = (if srtt j > ELPIS_RTT_MAX then j\<lparr>srtt := ELPIS_RTT_MAX\<rparr> else j)
      in j\<lparr>timeouts := 0, silent_types := 0, silent_since := 0, hold_until := 0, queries := queries j + 1\<rparr>)"

definition elpis_infra_qclass :: "u16 \<Rightarrow> byte" where
  "elpis_infra_qclass qtype =
     (if qtype = 1 then 0x01 else if qtype = 28 then 0x02 else if qtype = 65 \<or> qtype = 64 then 0x04 else 0x08)"

definition fn_timeout :: "u16 \<Rightarrow> u32 \<Rightarrow> u32 \<Rightarrow> elpis_infra_info \<Rightarrow> elpis_infra_info \<times> bool" where
  "fn_timeout qtype now hold_s i =
     (let i1 = (if timeouts i = 0 \<or> silent_since i = 0 then i\<lparr>silent_since := if now \<noteq> 0 then now else 1\<rparr> else i);
          i2 = (if timeouts i1 < 1000 then i1\<lparr>timeouts := timeouts i1 + 1\<rparr> else i1);
          i3 = i2\<lparr>silent_types := silent_types i2 OR elpis_infra_qclass qtype, srtt := srtt i2 * 2\<rparr>;
          i4 = (if srtt i3 > ELPIS_RTT_MAX then i3\<lparr>srtt := ELPIS_RTT_MAX\<rparr> else i3);
          i5 = i4\<lparr>queries := queries i4 + 1\<rparr>
      in if hold_s \<noteq> 0 \<and> timeouts i5 \<ge> ELPIS_HOLD_AFTER \<and> now \<ge> silent_since i5 + ELPIS_HOLD_SILENT_S
         then (i5\<lparr>hold_until := now + hold_s\<rparr>, True) else (i5, False))"

definition elpis_infra_held :: "elpis_infra_info \<Rightarrow> u16 \<Rightarrow> u32 \<Rightarrow> bool" where
  "elpis_infra_held i qtype now \<longleftrightarrow>
     hold_until i \<noteq> 0 \<and> now < hold_until i \<and> silent_types i AND elpis_infra_qclass qtype \<noteq> 0"

definition elpis_infra_probe_due :: "elpis_infra_info \<Rightarrow> u16 \<Rightarrow> u32 \<Rightarrow> bool" where
  "elpis_infra_probe_due i qtype now \<longleftrightarrow>
     hold_until i \<noteq> 0 \<and> now \<ge> hold_until i \<and> silent_types i AND elpis_infra_qclass qtype \<noteq> 0"

definition fn_hold :: "u32 \<Rightarrow> elpis_infra_info \<Rightarrow> elpis_infra_info" where
  "fn_hold till i = (if hold_until i \<noteq> 0 then i\<lparr>hold_until := till\<rparr> else i)"

definition fn_edns :: "byte \<Rightarrow> u16 \<Rightarrow> elpis_infra_info \<Rightarrow> elpis_infra_info" where
  "fn_edns state maxsize i =
     (let j = i\<lparr>edns_state := state\<rparr> in if maxsize \<noteq> 0 then j\<lparr>edns_max := maxsize\<rparr> else j)"

definition fn_flag :: "byte \<Rightarrow> bool \<Rightarrow> elpis_infra_info \<Rightarrow> elpis_infra_info" where
  "fn_flag flag on i = (if on then i\<lparr>iflags := iflags i OR flag\<rparr> else i\<lparr>iflags := iflags i AND NOT flag\<rparr>)"

definition fn_ecs_off :: "u32 \<Rightarrow> elpis_infra_info \<Rightarrow> elpis_infra_info" where
  "fn_ecs_off till i = i\<lparr>ecs_off_until := till\<rparr>"

definition fn_cookie :: "buffer \<Rightarrow> elpis_infra_info \<Rightarrow> elpis_infra_info" where
  "fn_cookie p i =
     (let n = (if length p > 32 then 32 else length p)
      in i\<lparr>cookie := take n p @ drop n (cookie i), cookie_len := word_of_nat n, iflags := iflags i OR ELPIS_INF_COOKIE_OK\<rparr>)"

definition elpis_infra_cost :: "elpis_infra_info \<Rightarrow> u32" where
  "elpis_infra_cost i =
     (let cost = srtt i + rttvar i in
      if iflags i AND ELPIS_INF_LAME \<noteq> 0 then ELPIS_RTT_BAN
      else if timeouts i \<ge> 3 then ELPIS_RTT_BAN
      else let cost = cost + timeouts i * 1000 in if cost > ELPIS_RTT_BAN then ELPIS_RTT_BAN else cost)"

section \<open>DNS over TLS\<close>

definition elpis_infra_dot_mode :: "elpis_infra_info \<Rightarrow> u32 \<Rightarrow> dot_mode" where
  "elpis_infra_dot_mode i now =
     (let claimed = (dot_claim i \<noteq> 0 \<and> now < dot_claim i) in
      if dot_state i = ELPIS_DOT_AVAILABLE then
        if now < dot_until i then ELPIS_DOTM_USE else if claimed then ELPIS_DOTM_PLAIN else ELPIS_DOTM_TEST
      else if dot_state i = ELPIS_DOT_FAILED then
        if now < dot_until i \<or> claimed then ELPIS_DOTM_PLAIN else ELPIS_DOTM_TEST
      else if dot_state i = ELPIS_DOT_UNAVAILABLE then ELPIS_DOTM_PLAIN
      else if claimed then ELPIS_DOTM_PLAIN else ELPIS_DOTM_TEST)"

definition fn_dot_claim :: "u32 \<Rightarrow> elpis_infra_info \<Rightarrow> elpis_infra_info \<times> bool" where
  "fn_dot_claim now i =
     (if dot_claim i \<noteq> 0 \<and> now < dot_claim i then (i, False) else (i\<lparr>dot_claim := now + ELPIS_DOT_CLAIM_S\<rparr>, True))"

definition fn_dot_ok :: "u32 \<Rightarrow> u32 \<Rightarrow> elpis_infra_info \<Rightarrow> elpis_infra_info" where
  "fn_dot_ok now ttl_s i =
     i\<lparr>dot_state := ELPIS_DOT_AVAILABLE, dot_tries := 0, dot_until := now + ttl_s, dot_claim := 0, dot_keep := now + ttl_s\<rparr>"

definition fn_dot_fail :: "u32 \<Rightarrow> u32 \<Rightarrow> u32 \<Rightarrow> elpis_infra_info \<Rightarrow> elpis_infra_info \<times> byte" where
  "fn_dot_fail now retry_s max_try i0 =
     (let i1 = (if dot_tries i0 < 255 then i0\<lparr>dot_tries := dot_tries i0 + 1\<rparr> else i0);
          i = i1\<lparr>dot_claim := 0\<rparr>;
          j = (if max_try \<noteq> 0 \<and> ucast (dot_tries i) > max_try
               then i\<lparr>dot_state := ELPIS_DOT_UNAVAILABLE, dot_until := 0, dot_keep := now + ELPIS_DOT_GIVE_UP_KEEP_S\<rparr>
               else i\<lparr>dot_state := ELPIS_DOT_FAILED, dot_until := now + retry_s, dot_keep := now + retry_s + 86400\<rparr>)
      in (j, dot_state j))"

section \<open>Public operations\<close>

definition quiet :: "(elpis_infra_info \<Rightarrow> elpis_infra_info) \<Rightarrow> elpis_infra_info \<Rightarrow> elpis_infra_info \<times> unit" where
  "quiet f i = (f i, ())"

definition elpis_infra_rtt_ok :: "infra_env \<Rightarrow> ient elpis_cache \<Rightarrow> elpis_addr \<Rightarrow> u32 \<Rightarrow> ient elpis_cache" where
  "elpis_infra_rtt_ok v c a rtt_ms = fst (infra_update v c a (quiet (fn_rtt_ok rtt_ms)))"

definition elpis_infra_timeout ::
  "infra_env \<Rightarrow> ient elpis_cache \<Rightarrow> elpis_addr \<Rightarrow> u16 \<Rightarrow> u32 \<Rightarrow> u32 \<Rightarrow> ient elpis_cache \<times> bool" where
  "elpis_infra_timeout v c a qtype now hold_s = infra_update v c a (fn_timeout qtype now hold_s)"

definition elpis_infra_hold :: "infra_env \<Rightarrow> ient elpis_cache \<Rightarrow> elpis_addr \<Rightarrow> u32 \<Rightarrow> ient elpis_cache" where
  "elpis_infra_hold v c a till = fst (infra_update v c a (quiet (fn_hold till)))"

definition elpis_infra_set_edns :: "infra_env \<Rightarrow> ient elpis_cache \<Rightarrow> elpis_addr \<Rightarrow> byte \<Rightarrow> u16 \<Rightarrow> ient elpis_cache" where
  "elpis_infra_set_edns v c a state maxsize = fst (infra_update v c a (quiet (fn_edns state maxsize)))"

definition elpis_infra_set_flag :: "infra_env \<Rightarrow> ient elpis_cache \<Rightarrow> elpis_addr \<Rightarrow> byte \<Rightarrow> bool \<Rightarrow> ient elpis_cache" where
  "elpis_infra_set_flag v c a flag on = fst (infra_update v c a (quiet (fn_flag flag on)))"

definition elpis_infra_ecs_off :: "infra_env \<Rightarrow> ient elpis_cache \<Rightarrow> elpis_addr \<Rightarrow> u32 \<Rightarrow> ient elpis_cache" where
  "elpis_infra_ecs_off v c a till = fst (infra_update v c a (quiet (fn_ecs_off till)))"

definition elpis_infra_set_cookie :: "infra_env \<Rightarrow> ient elpis_cache \<Rightarrow> elpis_addr \<Rightarrow> buffer \<Rightarrow> ient elpis_cache" where
  "elpis_infra_set_cookie v c a p = fst (infra_update v c a (quiet (fn_cookie p)))"

definition elpis_infra_dot_claim :: "infra_env \<Rightarrow> ient elpis_cache \<Rightarrow> elpis_addr \<Rightarrow> u32 \<Rightarrow> ient elpis_cache \<times> bool" where
  "elpis_infra_dot_claim v c a now = infra_update v c a (fn_dot_claim now)"

definition elpis_infra_dot_ok :: "infra_env \<Rightarrow> ient elpis_cache \<Rightarrow> elpis_addr \<Rightarrow> u32 \<Rightarrow> u32 \<Rightarrow> ient elpis_cache" where
  "elpis_infra_dot_ok v c a now ttl_s = fst (infra_update v c a (quiet (fn_dot_ok now ttl_s)))"

definition elpis_infra_dot_fail ::
  "infra_env \<Rightarrow> ient elpis_cache \<Rightarrow> elpis_addr \<Rightarrow> u32 \<Rightarrow> u32 \<Rightarrow> u32 \<Rightarrow> ient elpis_cache \<times> byte" where
  "elpis_infra_dot_fail v c a now retry_s max_try = infra_update v c a (fn_dot_fail now retry_s max_try)"

lemma addr_eq_key: "elpis_addr_eq x a \<Longrightarrow> elpis_addr_eq y a \<Longrightarrow> elpis_addr_eq x b \<Longrightarrow> elpis_addr_eq y b"
  by (auto simp: elpis_addr_eq_def elpis_addr_eq_ip_def split: elpis_addr.splits)

interpretation ic: cache_keys ient_eq
  by standard (auto simp: ient_eq_def intro: addr_eq_key)

section \<open>Bounds of a server's state\<close>

definition info_ok :: "elpis_infra_info \<Rightarrow> bool" where
  "info_ok i \<longleftrightarrow> srtt i \<le> 12000 \<and> rttvar i \<le> 12000 \<and> timeouts i \<le> 1000 \<and> length (cookie i) = 32 \<and> cookie_len i \<le> 32 \<and>
     (hold_until i \<noteq> 0 \<longrightarrow> 3 \<le> timeouts i \<and> silent_since i \<noteq> 0)"

lemma sint_small: "- (2 ^ 31) \<le> k \<Longrightarrow> k < 2 ^ 31 \<Longrightarrow> sint (word_of_int k :: u32) = k"
  by (simp add: sint_sbintrunc' signed_take_bit_int_eq_self)

lemma sdrop_small: "- (2 ^ 31) \<le> k \<Longrightarrow> k < 2 ^ 31 \<Longrightarrow> signed_drop_bit n (word_of_int k :: u32) = word_of_int (k div 2 ^ n)"
proof -
  assume k: "- (2 ^ 31) \<le> k" "k < 2 ^ 31"
  have "sint (signed_drop_bit n (word_of_int k :: u32)) = k div 2 ^ n"
    using sint_small [OF k] by (simp add: sint_signed_drop_bit_eq drop_bit_eq_div)
  then show ?thesis by (metis scast_eq scast_id)
qed

lemma word_small_ex:
  assumes "(w :: u32) \<le> word_of_int m" and "0 \<le> m" and "m < 2 ^ 31"
  obtains k where "w = word_of_int k" and "0 \<le> k" and "k \<le> m"
proof
  show "w = word_of_int (uint w)" by simp
  have "uint (word_of_int m :: u32) = m" using assms(2,3) by (simp add: uint_word_of_int)
  then show "uint w \<le> m" using assms(1) by (simp add: word_le_def)
qed simp

lemma word_small_le: "0 \<le> k \<Longrightarrow> k \<le> m \<Longrightarrow> m < 2 ^ 31 \<Longrightarrow> (word_of_int k :: u32) \<le> word_of_int m"
  by (simp add: word_le_def uint_word_of_int)

text \<open>Within the bounds, the 32-bit arithmetic of the estimator is that of the integers.\<close>

lemma smooth_int:
  assumes "srtt i = word_of_int s" and "rttvar i = word_of_int x" and "0 \<le> s" "s \<le> 12000" "0 \<le> x" "x \<le> 12000" "0 \<le> r" "r \<le> 12000"
  shows "srtt (smooth (word_of_int r) i) = word_of_int (s + (r - s) div 8)"
    and "rttvar (smooth (word_of_int r) i) = word_of_int (x + (\<bar>r - s\<bar> - x) div 4)"
proof -
  have e: "word_of_int r - srtt i = word_of_int (r - s)" using assms(1) by simp
  have n: "(word_of_int (r - s) <s (0 :: u32)) \<longleftrightarrow> r - s < 0" using assms sint_small [of "r - s"] by (simp add: word_sless_alt)
  have a: "(if word_of_int (r - s) <s (0 :: u32) then - word_of_int (r - s) else word_of_int (r - s)) = (word_of_int \<bar>r - s\<bar> :: u32)"
    unfolding n by (simp add: abs_if)
  have "signed_drop_bit 3 (word_of_int (r - s) :: u32) = word_of_int ((r - s) div 2 ^ 3)" by (rule sdrop_small) (use assms in simp_all)
  moreover have "signed_drop_bit 2 (word_of_int (\<bar>r - s\<bar> - x) :: u32) = word_of_int ((\<bar>r - s\<bar> - x) div 2 ^ 2)" by (rule sdrop_small) (use assms in simp_all)
  ultimately have d: "signed_drop_bit 3 (word_of_int (r - s) :: u32) = word_of_int ((r - s) div 8)"
    "signed_drop_bit 2 (word_of_int \<bar>r - s\<bar> - word_of_int x :: u32) = word_of_int ((\<bar>r - s\<bar> - x) div 4)" by simp_all
  show "srtt (smooth (word_of_int r) i) = word_of_int (s + (r - s) div 8)"
    unfolding smooth_def Let_def e d(1) by (simp add: assms(1))
  show "rttvar (smooth (word_of_int r) i) = word_of_int (x + (\<bar>r - s\<bar> - x) div 4)"
    unfolding smooth_def Let_def e a assms(2) d(2) by simp
qed

lemma eighth_between:
  fixes s r :: int
  shows "min s r \<le> s + (r - s) div 8" and "s + (r - s) div 8 \<le> max s r"
  by linarith+

lemma smooth_bounds:
  assumes "srtt i \<le> 12000" and "rttvar i \<le> 12000" and "rtt \<le> 12000"
  shows "min (srtt i) rtt \<le> srtt (smooth rtt i)" and "srtt (smooth rtt i) \<le> max (srtt i) rtt" and "rttvar (smooth rtt i) \<le> 12000"
proof -
  obtain s where s: "srtt i = word_of_int s" "0 \<le> s" "s \<le> 12000" using word_small_ex [of "srtt i" 12000] assms(1) by auto
  obtain x where x: "rttvar i = word_of_int x" "0 \<le> x" "x \<le> 12000" using word_small_ex [of "rttvar i" 12000] assms(2) by auto
  obtain r where r: "rtt = word_of_int r" "0 \<le> r" "r \<le> 12000" using word_small_ex [of rtt 12000] assms(3) by auto
  note e = smooth_int [OF s(1) x(1) s(2,3) x(2,3) r(2,3), folded r(1)] and b = eighth_between [of s r]
  have "s + (r - s) div 8 \<le> 12000" "0 \<le> s + (r - s) div 8" using b s r by linarith+
  then show "min (srtt i) rtt \<le> srtt (smooth rtt i)" "srtt (smooth rtt i) \<le> max (srtt i) rtt"
    using b s r e(1) word_small_le [of s "s + (r - s) div 8"] word_small_le [of r "s + (r - s) div 8"]
      word_small_le [of "s + (r - s) div 8" s] word_small_le [of "s + (r - s) div 8" r]
    by (auto simp: min_le_iff_disj le_max_iff_disj)
  have "0 \<le> x + (\<bar>r - s\<bar> - x) div 4" "x + (\<bar>r - s\<bar> - x) div 4 \<le> 12000" using s x r by linarith+
  then show "rttvar (smooth rtt i) \<le> 12000" using e(2) word_small_le [of "x + (\<bar>r - s\<bar> - x) div 4" 12000] by simp
qed

lemma smooth_sel [simp]: "timeouts (smooth r i) = timeouts i" "cookie (smooth r i) = cookie i" "cookie_len (smooth r i) = cookie_len i"
  "queries (smooth r i) = queries i"
  by (simp_all add: smooth_def Let_def)

lemma defaults_ok: "info_ok info_defaults"
  by (simp add: info_ok_def info_defaults_def)

lemma freshen_ok: "info_ok i \<Longrightarrow> info_ok (freshen i now)"
  using defaults_ok by (simp add: freshen_def info_ok_def)

lemma half_le: "(w :: u32) div 2 \<le> w"
  by (simp add: word_le_nat_alt unat_div)

lemma bump: "t < (1000 :: u32) \<Longrightarrow> t + 1 \<le> 1000 \<and> (3 \<le> t \<longrightarrow> 3 \<le> t + 1)"
proof -
  assume t: "t < 1000"
  then have "unat t < 1000" by (simp add: word_less_nat_alt)
  then have "unat (t + 1) = unat t + 1" by (simp add: unat_word_ariths)
  with t show ?thesis by (simp add: word_less_nat_alt word_le_nat_alt)
qed

lemma rtt_ok_ok: "info_ok i \<Longrightarrow> info_ok (fn_rtt_ok rtt i)"
  using smooth_bounds(2,3) [of i "if 12000 < rtt then 12000 else rtt"] half_le [of "if 12000 < rtt then 12000 else rtt"]
  by (auto simp: info_ok_def fn_rtt_ok_def Let_def intro: order_trans split: if_splits)

lemma timeout_ok: "info_ok i \<Longrightarrow> info_ok (fst (fn_timeout q now h i))"
  by (auto simp: info_ok_def fn_timeout_def Let_def bump not_less)

lemma other_ok:
  assumes "info_ok i"
  shows "info_ok (fn_hold till i)" "info_ok (fn_edns st mx i)" "info_ok (fn_flag fl on i)" "info_ok (fn_ecs_off till i)"
    "info_ok (fn_cookie p i)" "info_ok (fst (fn_dot_claim now i))" "info_ok (fn_dot_ok now ttl i)" "info_ok (fst (fn_dot_fail now rt mx' i))"
  using assms
  by (auto simp: info_ok_def fn_hold_def fn_edns_def fn_flag_def fn_ecs_off_def fn_cookie_def fn_dot_claim_def fn_dot_ok_def fn_dot_fail_def
      Let_def word_le_nat_alt unat_of_nat)

section \<open>Runs of the infrastructure cache\<close>

datatype infra_op =
    Get | Rtt_ok u32 | Timeout u16 u32 u32 | Hold u32 | Set_edns byte u16 | Set_flag byte bool | Ecs_off u32
  | Set_cookie buffer | Dot_claim u32 | Dot_ok u32 u32 | Dot_fail u32 u32 u32 | Cache_flush | Cache_expire "nat \<Rightarrow> bool" nat

fun infra_step :: "infra_env \<times> elpis_addr \<times> infra_op \<Rightarrow> ient elpis_cache \<Rightarrow> ient elpis_cache" where
  "infra_step (v, a, Get) c = fst (elpis_infra_get (clock v) c a)"
| "infra_step (v, a, Rtt_ok rtt) c = elpis_infra_rtt_ok v c a rtt"
| "infra_step (v, a, Timeout q now h) c = fst (elpis_infra_timeout v c a q now h)"
| "infra_step (v, a, Hold till) c = elpis_infra_hold v c a till"
| "infra_step (v, a, Set_edns st mx) c = elpis_infra_set_edns v c a st mx"
| "infra_step (v, a, Set_flag fl on) c = elpis_infra_set_flag v c a fl on"
| "infra_step (v, a, Ecs_off till) c = elpis_infra_ecs_off v c a till"
| "infra_step (v, a, Set_cookie p) c = elpis_infra_set_cookie v c a p"
| "infra_step (v, a, Dot_claim now) c = fst (elpis_infra_dot_claim v c a now)"
| "infra_step (v, a, Dot_ok now ttl) c = elpis_infra_dot_ok v c a now ttl"
| "infra_step (v, a, Dot_fail now rt mx) c = fst (elpis_infra_dot_fail v c a now rt mx)"
| "infra_step (v, a, Cache_flush) c = elpis_cache_flush c"
| "infra_step (v, a, Cache_expire busy budget) c = fst (elpis_cache_expire busy c (clock v) budget)"

text \<open>The address of a server is an IPv4 or IPv6 address; no allocator gives a table of $2^{31}$ slots.\<close>

fun infra_fine :: "infra_env \<times> elpis_addr \<times> infra_op \<Rightarrow> bool" where
  "infra_fine (v, a, p) \<longleftrightarrow> a \<noteq> AF_OTHER \<and> \<not> alloc_table v (2 ^ 31)"

definition infra_ok :: "ient elpis_cache \<Rightarrow> bool" where
  "infra_ok c \<longleftrightarrow> cache_fine ient_eq c \<and> (\<forall>q v. cache_find ient_eq c q = Some v \<longrightarrow> info_ok (iinfo (epay v)))"

lemma addr_eq_refl: "a \<noteq> AF_OTHER \<Longrightarrow> elpis_addr_eq a a"
  by (cases a) (auto simp: elpis_addr_eq_def elpis_addr_eq_ip_def)

lemma lookup_step: "fst (infra_lookup now c a) = cache_step ient_eq (Read (ikey_hash a) a) c"
  by (auto simp: infra_lookup_def split: prod.splits option.splits)

lemma lookup_info:
  assumes "cache_fine ient_eq c"
  shows "snd (infra_lookup now c a) =
    (case cache_find ient_eq c (ikey_hash a, a) of Some v \<Rightarrow> freshen (iinfo (epay v)) now | None \<Rightarrow> info_defaults)"
proof -
  obtain t x where t: "shard_read ient_eq (sh c ! shard_of c (ikey_hash a)) (ikey_hash a) a = (t, x)" by fastforce
  have "shard_ok (sh c ! shard_of c (ikey_hash a))" using fine_shard [OF assms] by (simp add: shard_fine_def)
  from read_ok(4) [OF this t] have "cache_find ient_eq c (ikey_hash a, a) = map_option norm x" by (simp add: cache_find_def)
  moreover have "snd (elpis_cache_read ient_eq c (ikey_hash a) a) = x" by (simp add: elpis_cache_read_def t Let_def)
  ultimately show ?thesis by (cases x) (auto simp: infra_lookup_def split: prod.splits)
qed

lemma lookup_ok:
  assumes "infra_ok c"
  shows "infra_ok (fst (infra_lookup now c a))" and "info_ok (snd (infra_lookup now c a))"
proof -
  have f: "cache_fine ient_eq c" using assms by (simp add: infra_ok_def)
  show "infra_ok (fst (infra_lookup now c a))"
    using ic.read_step [OF f, of "ikey_hash a" a] assms unfolding infra_ok_def lookup_step by blast
  show "info_ok (snd (infra_lookup now c a))"
    using assms unfolding lookup_info [OF f] infra_ok_def by (auto simp: freshen_ok defaults_ok split: option.splits)
qed

text \<open>A store is one insertion, or nothing when the entry cannot be allocated.\<close>

lemma store_insert:
  obtains e where "ehash e = ikey_hash a" and "epay e = \<lparr>iaddr = a, iinfo = i\<lparr>last_used := clock v\<rparr>\<rparr>"
    and "infra_store v c a i = (if alloc_entry v then cache_step ient_eq (Insert (alloc_table v) (clock_insert v) e a) c else c)"
  by (rule that [of "\<lparr>ehash = ikey_hash a, eexpiry = if dot_state i \<noteq> 0 \<and> dot_keep i > clock v + 3600 then dot_keep i else clock v + 3600,
        esize = ient_size v + 64, eref = True, epinned = False, epay = \<lparr>iaddr = a, iinfo = i\<lparr>last_used := clock v\<rparr>\<rparr>\<rparr>"])
    (simp_all add: infra_store_def Let_def)

lemma store_find:
  assumes c: "cache_fine ient_eq c" and a: "a \<noteq> AF_OTHER" and m: "\<not> alloc_table v (2 ^ 31)" "alloc_entry v"
  shows "cache_fine ient_eq (infra_store v c a i)"
    and "cache_find ient_eq (infra_store v c a i) (h, b) = Some w \<Longrightarrow>
      epay w = \<lparr>iaddr = a, iinfo = i\<lparr>last_used := clock v\<rparr>\<rparr> \<and> ikey_hash a = h \<and> elpis_addr_eq a b \<or>
      cache_find ient_eq c (h, b) = Some w \<and> \<not> (ikey_hash a = h \<and> elpis_addr_eq a b)"
proof -
  obtain e where e: "ehash e = ikey_hash a" "epay e = \<lparr>iaddr = a, iinfo = i\<lparr>last_used := clock v\<rparr>\<rparr>"
    "infra_store v c a i = (if alloc_entry v then cache_step ient_eq (Insert (alloc_table v) (clock_insert v) e a) c else c)"
    by (rule store_insert)
  have k: "ient_eq (epay e) a" using addr_eq_refl [OF a] e(2) by (simp add: ient_eq_def)
  note s = ic.insert_step [OF c k, where mem = "alloc_table v" and now = "clock_insert v", OF m(1)]
  show "cache_fine ient_eq (infra_store v c a i)" using s(1) e(3) m(2) by simp
  assume "cache_find ient_eq (infra_store v c a i) (h, b) = Some w"
  then show "epay w = \<lparr>iaddr = a, iinfo = i\<lparr>last_used := clock v\<rparr>\<rparr> \<and> ikey_hash a = h \<and> elpis_addr_eq a b \<or>
      cache_find ient_eq c (h, b) = Some w \<and> \<not> (ikey_hash a = h \<and> elpis_addr_eq a b)"
    using s(2) [of h b w] e m(2) by (auto simp: matches_def ient_eq_def simp del: cache_step.simps)
qed

lemma store_ok:
  assumes "infra_ok c" and "a \<noteq> AF_OTHER" and "\<not> alloc_table v (2 ^ 31)" and "info_ok i"
  shows "infra_ok (infra_store v c a i)"
proof (cases "alloc_entry v")
  case False
  then show ?thesis using assms(1) by (simp add: infra_store_def Let_def)
next
  case True
  have i: "info_ok (i\<lparr>last_used := clock v\<rparr>)" using assms(4) by (simp add: info_ok_def)
  show ?thesis
    using store_find [OF _ assms(2,3) True, of c i] assms(1) i unfolding infra_ok_def by fastforce
qed

lemma update_ok:
  assumes "infra_ok c" and "a \<noteq> AF_OTHER" and "\<not> alloc_table v (2 ^ 31)" and "\<And>i. info_ok i \<Longrightarrow> info_ok (fst (fn i))"
  shows "infra_ok (fst (infra_update v c a fn))"
  using store_ok [OF lookup_ok(1) [OF assms(1)] assms(2,3) assms(4) [OF lookup_ok(2) [OF assms(1)]]]
  by (simp add: infra_update_def Let_def split: prod.splits) (metis fst_conv snd_conv)

lemmas step_defs = elpis_infra_get_def elpis_infra_rtt_ok_def elpis_infra_timeout_def elpis_infra_hold_def elpis_infra_set_edns_def
  elpis_infra_set_flag_def elpis_infra_ecs_off_def elpis_infra_set_cookie_def elpis_infra_dot_claim_def elpis_infra_dot_ok_def elpis_infra_dot_fail_def

lemma infra_step_ok: "infra_ok c \<Longrightarrow> infra_fine x \<Longrightarrow> infra_ok (infra_step x c)"
proof -
  assume c: "infra_ok c" and x: "infra_fine x"
  obtain v a p where p: "x = (v, a, p)" by (cases x) auto
  have f: "cache_fine ient_eq c" using c by (simp add: infra_ok_def)
  have av: "a \<noteq> AF_OTHER" "\<not> alloc_table v (2 ^ 31)" using x p by auto
  note u = update_ok [OF c av]
  have r: "infra_ok (fst (infra_update v c a (quiet g)))" if "\<And>i. info_ok i \<Longrightarrow> info_ok (g i)" for g
    by (rule u) (simp add: quiet_def that)
  show ?thesis
  proof (cases p)
    case Cache_flush
    then show ?thesis using ic.flush_step [OF f] p by (simp add: infra_ok_def)
  next
    case (Cache_expire busy budget)
    then have "infra_step x c = cache_step ient_eq (Expire busy (clock v) budget) c" using p by simp
    then show ?thesis using ic.expire_step [OF f, of busy "clock v" budget] c unfolding infra_ok_def by (metis (no_types, lifting))
  qed (simp_all add: p step_defs u r lookup_ok(1) [OF c] rtt_ok_ok timeout_ok other_ok)
qed

lemma infra_run_ok: "infra_ok c \<Longrightarrow> list_all infra_fine xs \<Longrightarrow> infra_ok (fold infra_step xs c)"
  by (induction xs arbitrary: c) (auto intro: infra_step_ok)

lemma infra_new_ok: "elpis_infra_new mem mx n = Some c \<Longrightarrow> infra_ok c"
  using cache_new_fine [of mem "lit ''infra-cache''" mx n c ient_eq] by (simp add: infra_ok_def elpis_infra_new_def)

lemma cost_exact:
  assumes "info_ok i"
  shows "elpis_infra_cost i = (if iflags i AND 1 \<noteq> 0 \<or> 3 \<le> timeouts i then 120000 else srtt i + rttvar i + timeouts i * 1000)"
    and "\<not> 3 \<le> timeouts i \<Longrightarrow> unat (srtt i + rttvar i + timeouts i * 1000) = unat (srtt i) + unat (rttvar i) + 1000 * unat (timeouts i)"
    and "\<not> 3 \<le> timeouts i \<Longrightarrow> srtt i + rttvar i + timeouts i * 1000 < 120000"
proof -
  have b: "unat (srtt i) \<le> 12000" "unat (rttvar i) \<le> 12000" using assms by (simp_all add: info_ok_def word_le_nat_alt)
  show e: "unat (srtt i + rttvar i + timeouts i * 1000) = unat (srtt i) + unat (rttvar i) + 1000 * unat (timeouts i)" if "\<not> 3 \<le> timeouts i"
    using b that by (simp add: unat_word_ariths word_le_nat_alt)
  show l: "srtt i + rttvar i + timeouts i * 1000 < 120000" if "\<not> 3 \<le> timeouts i"
    using b that e [OF that] by (simp add: word_less_nat_alt word_le_nat_alt)
  show "elpis_infra_cost i = (if iflags i AND 1 \<noteq> 0 \<or> 3 \<le> timeouts i then 120000 else srtt i + rttvar i + timeouts i * 1000)"
    using l by (auto simp: elpis_infra_cost_def Let_def dest: less_asym)
qed

end
