(* ===== verification/Spec2Isabelle.thy ===== *)
theory Spec2Isabelle
  imports Elpis_Build Elpis_Rdata Elpis_Ecs Elpis_Infra
begin

text \<open>
  A verification library for the elpis recursive DNS resolver.
\<close>

end
